theory Spec2Isabelle
  imports Main "HOL-Library.Word"
begin

section \<open>Observable behaviour shared by the generators\<close>

text \<open>
  Every program of the repository is a standalone \<open>main\<close>. What such a program does is
  modelled as the sequence of its calls into the C library and the operating system,
  in program order. The result of every call that can fail is an input of the model (an
  oracle indexed by the loop iteration that makes the call), so that every theorem
  quantifies over all behaviours of the operating system.

  \<^item> \<open>Print\<close> is a line of narration, \<open>Diag\<close> a line printed on the branch of the
    source that is taken when a call has failed; both carry the ASCII text of the format
    string and the integer arguments (floating-point arguments are left out).
  \<^item> \<open>Sleep\<close> carries microseconds: \<open>sleep(1)\<close> is \<open>Sleep 1000000\<close>.
  \<^item> Pointers are natural numbers, \<open>0\<close> is \<open>NULL\<close>.
  \<^item> \<open>Load i c\<close> is a read of entry \<open>i\<close> of a tracking array, which finds the cell
    \<open>c\<close> there: \<open>Init v\<close> when the program has stored \<open>v\<close> in it, \<open>Uninit g\<close>
    when it has not and the indeterminate content is \<open>g\<close>.
  \<^item> \<open>Burn b\<close> is a stretch of computation that takes \<open>b\<close> ticks of processor time.
  Lines of narration that stand outside every loop and branch and print no integer
  (banners, expected scores, hints for the operator) are left out, except the headers
  of the phases and of the cleanup, and except the one call of \<open>printf\<close> whose format
  does not match its arguments, line 39 of the CPU spike.
\<close>

datatype chan = Stdout | Stderr

datatype 'a cell = Uninit 'a | Init 'a

fun cell_val :: "'a cell \<Rightarrow> 'a" where
  "cell_val (Uninit g) = g"
| "cell_val (Init v) = v"

datatype slot = Unused | Live | Joined

datatype event =
    Print chan string "nat list"
  | Diag chan string "nat list"
  | Perror string
  | Sleep nat
  | Malloc nat nat
  | Memset nat nat nat
  | Load nat "nat cell"
  | Free nat
  | Thread_create nat bool
  | Thread_join nat slot
  | Open_file string int
  | Close_fd int
  | Unlink string
  | Fopen string bool
  | Fwrite nat nat
  | Fflush
  | Fclose
  | Fork int
  | Socket int
  | Inet_pton int
  | Connect int
  | Burn nat

record proc =
  trace :: "event list"

definition emit :: "event list \<Rightarrow> 'a proc_scheme \<Rightarrow> 'a proc_scheme" where
  "emit es s = s\<lparr>trace := trace s @ es\<rparr>"

definition MB :: nat where
  "MB = 1024 * 1024"

text \<open>
  A process ends when \<open>main\<close> returns an exit code, or when it is killed. A step that
  the process may not survive yields \<open>Dead s\<close>, with the state in which the process
  died, or \<open>Alive s\<close>.
\<close>

datatype outcome = Exit int | Killed

datatype 'a fate = Alive 'a | Dead 'a

fun state_of :: "'a fate \<Rightarrow> 'a" where
  "state_of (Alive s) = s"
| "state_of (Dead s) = s"

definition returns :: "int \<Rightarrow> 'a fate \<Rightarrow> outcome \<times> 'a" where
  "returns c f = (case f of Alive s \<Rightarrow> (Exit c, s) | Dead s \<Rightarrow> (Killed, s))"

text \<open>
  Three programs end with a loop of the form
  \<open>for (i = 0; i < n; i++) if (a[i]) free(a[i]);\<close> over an array of pointers. Entry
  \<open>i\<close> is read, and a null pointer is skipped. A non-null pointer that the program has
  stored there came from \<open>malloc\<close> and is freed. A non-null value found in an entry that
  the program never wrote is passed to \<open>free\<close> as well, but it is no pointer that
  \<open>malloc\<close> has returned: the behaviour of this call is undefined, and the process
  does not survive it (the allocator aborts on an invalid pointer, or the access to
  what should be the header of the block is invalid). In the model this call is the
  last event of the run.
\<close>

definition free_if_set :: "nat \<Rightarrow> nat cell \<Rightarrow> 'a proc_scheme \<Rightarrow> 'a proc_scheme fate" where
  "free_if_set i c s =
     (case c of
        Init p \<Rightarrow> Alive (emit ([Load i c] @ (if p \<noteq> 0 then [Free p] else [])) s)
      | Uninit g \<Rightarrow>
          if g \<noteq> 0 then Dead (emit [Load i c, Free g] s) else Alive (emit [Load i c] s))"

function free_all ::
  "nat cell list \<Rightarrow> nat \<Rightarrow> nat \<Rightarrow> 'a proc_scheme \<Rightarrow> 'a proc_scheme fate" where
  "free_all a n i s =
     (if i < n then
        (case free_if_set i (a ! i) s of
           Alive s1 \<Rightarrow> free_all a n (Suc i) s1
         | Dead s1 \<Rightarrow> Dead s1)
      else Alive s)"
  by pat_completeness auto
termination
  by (relation "measure (\<lambda>(a, n, i, s). n - i)") auto

declare free_all.simps [simp del]

definition second :: nat where
  "second = 1000000"

section \<open>The C library's \<open>atoi\<close>\<close>

text \<open>
  \<open>atoi\<close> belongs to the C library, not to the repository. It is modelled after
  glibc, where \<open>atoi(s)\<close> is \<open>(int) strtol(s, NULL, 10)\<close>: leading white space is
  skipped, an optional sign is read, then the longest run of decimal digits; text with
  no digits gives 0. A value outside the range of \<open>long\<close> (64 bits) is replaced by the
  nearest bound of that range, and the conversion to \<open>int\<close> keeps the low 32 bits.
\<close>

definition isspace :: "char \<Rightarrow> bool" where
  "isspace c = ((of_char c :: nat) = 32 \<or> (9 \<le> (of_char c :: nat) \<and> (of_char c :: nat) \<le> 13))"

definition isdigit :: "char \<Rightarrow> bool" where
  "isdigit c = (48 \<le> (of_char c :: nat) \<and> (of_char c :: nat) \<le> 57)"

fun digits_val :: "int \<Rightarrow> string \<Rightarrow> int" where
  "digits_val acc [] = acc"
| "digits_val acc (c # cs) =
     (if isdigit c then digits_val (acc * 10 + (int (of_char c) - 48)) cs else acc)"

definition int32 :: "int \<Rightarrow> int" where
  "int32 v = sint (word_of_int v :: 32 word)"

definition LONG_MAX :: int where
  "LONG_MAX = 2 ^ 63 - 1"

definition LONG_MIN :: int where
  "LONG_MIN = - (2 ^ 63)"

definition strtol :: "string \<Rightarrow> int" where
  "strtol s =
     (let v = (case dropWhile isspace s of
                 [] \<Rightarrow> 0
               | c # cs \<Rightarrow>
                   if c = CHR ''-'' then - digits_val 0 cs
                   else if c = CHR ''+'' then digits_val 0 cs
                   else digits_val 0 (c # cs))
      in if v > LONG_MAX then LONG_MAX else if v < LONG_MIN then LONG_MIN else v)"

definition atoi :: "string \<Rightarrow> int" where
  "atoi s = int32 (strtol s)"

section \<open>Gradual fork bomb (\<open>ml_anomaly_tests/fork_bomb_gradual.c\<close>)\<close>

definition MAX_THREADS :: int where
  "MAX_THREADS = 80"

text \<open>
  Lines 42 to 47: \<open>argv\<close> is the argument vector, \<open>argc\<close> its length.
\<close>

definition max_threads_of :: "string list \<Rightarrow> int" where
  "max_threads_of argv =
     (if length argv > 1 then
        (let m0 = atoi (argv ! 1);
             m1 = (if m0 > MAX_THREADS then MAX_THREADS else m0);
             m2 = (if m1 < 5 then 5 else m1)
         in m2)
      else MAX_THREADS)"

text \<open>
  \<open>threads\<close> is the global array \<open>pthread_t threads[MAX_THREADS]\<close>, zero at program
  start: a slot is \<open>Unused\<close> until a successful \<open>pthread_create\<close> stores a handle in
  it (\<open>Live\<close>), and \<open>Joined\<close> once \<open>pthread_join\<close> has been called on that handle.
  \<open>pthread_join\<close> on a slot that holds no live handle joins nothing and leaves the slot
  as it is. \<open>ok i\<close> is the outcome of the call \<open>pthread_create(&threads[i], ...)\<close>.
  The unchecked allocation of \<open>thread_ids\<close> (at most 320 bytes) is taken to succeed.
\<close>

record fbg_state = proc +
  threads :: "slot list"
  created_threads :: nat

definition fbg_init :: fbg_state where
  "fbg_init = \<lparr>trace = [], threads = replicate 80 Unused, created_threads = 0\<rparr>"

text \<open>Phase 1, lines 55 to 62: a failed creation is skipped without a word.\<close>

function fbg_phase1 :: "(nat \<Rightarrow> bool) \<Rightarrow> nat \<Rightarrow> nat \<Rightarrow> fbg_state \<Rightarrow> fbg_state" where
  "fbg_phase1 ok mx i s =
     (if i < 5 \<and> i < mx then
        fbg_phase1 ok mx (Suc i)
          (if ok i then
             emit [Thread_create i True,
                   Print Stdout ''Created thread %d (total: %d)'' [i + 1, created_threads s + 1],
                   Sleep second]
               (s\<lparr>threads := (threads s)[i := Live],
                  created_threads := created_threads s + 1\<rparr>)
           else emit [Thread_create i False] s)
      else s)"
  by pat_completeness auto
termination
  by (relation "measure (\<lambda>(ok, mx, i, s). 5 - i)") auto

declare fbg_phase1.simps [simp del]

definition fbg_milestone :: "nat \<Rightarrow> event list" where
  "fbg_milestone c =
     (if c = 10 then [Print Stdout ''Thread count suspicious: %d threads'' [c]]
      else if c = 25 then [Print Stdout ''Thread count alarming: %d threads'' [c]]
      else if c = 50 then [Print Stdout ''CRITICAL thread count: %d threads (FORK BOMB!)'' [c]]
      else if c mod 10 = 0 then [Print Stdout ''Thread explosion: %d threads'' [c]]
      else [])"

definition fbg_delay :: "nat \<Rightarrow> nat" where
  "fbg_delay i = (if i < 20 then 500000 else if i < 40 then 300000 else 100000)"

text \<open>Phase 2, lines 67 to 94: a failed creation is reported and ends the loop.\<close>

function fbg_phase2 :: "(nat \<Rightarrow> bool) \<Rightarrow> nat \<Rightarrow> nat \<Rightarrow> fbg_state \<Rightarrow> fbg_state" where
  "fbg_phase2 ok mx i s =
     (if i < mx then
        (if ok i then
           fbg_phase2 ok mx (Suc i)
             (emit ([Thread_create i True] @ fbg_milestone (created_threads s + 1)
                    @ [Sleep (fbg_delay i)])
                (s\<lparr>threads := (threads s)[i := Live],
                   created_threads := created_threads s + 1\<rparr>))
         else
           emit [Thread_create i False,
                 Diag Stdout ''Failed to create thread %d (limit reached)'' [i + 1]] s)
      else s)"
  by pat_completeness auto
termination
  by (relation "measure (\<lambda>(ok, mx, i, s). mx - i)") auto

declare fbg_phase2.simps [simp del]

text \<open>Phase 3, lines 100 to 103.\<close>

function fbg_sustain :: "nat \<Rightarrow> fbg_state \<Rightarrow> fbg_state" where
  "fbg_sustain i s =
     (if i < 10 then
        fbg_sustain (Suc i)
          (emit [Print Stdout ''[%d/10] Maintaining %d threads (ANOMALOUS)'' [i + 1, created_threads s],
                 Sleep second] s)
      else s)"
  by pat_completeness auto
termination
  by (relation "measure (\<lambda>(i, s). 10 - i)") auto

declare fbg_sustain.simps [simp del]

text \<open>Cleanup, lines 117 to 119: the slots \<open>0 .. created_threads - 1\<close> are joined.\<close>

definition join_slot :: "nat \<Rightarrow> slot list \<Rightarrow> slot list" where
  "join_slot i ts = (if ts ! i = Live then ts[i := Joined] else ts)"

function fbg_join :: "nat \<Rightarrow> fbg_state \<Rightarrow> fbg_state" where
  "fbg_join i s =
     (if i < created_threads s then
        fbg_join (Suc i)
          (emit [Thread_join i (threads s ! i)] (s\<lparr>threads := join_slot i (threads s)\<rparr>))
      else s)"
  by pat_completeness auto
termination
  by (relation "measure (\<lambda>(i, s). created_threads s - i)") (auto simp: emit_def)

declare fbg_join.simps [simp del]

definition fbg_after_phase2 :: "string list \<Rightarrow> (nat \<Rightarrow> bool) \<Rightarrow> fbg_state" where
  "fbg_after_phase2 argv ok =
     (let mx = nat (max_threads_of argv);
          s1 = fbg_phase1 ok mx 0 (emit [Print Stdout ''Phase 1/3: Normal startup (1-5 threads)...'' []] fbg_init);
          s2 = fbg_phase2 ok mx 5 (emit [Print Stdout ''Phase 2/3: ATTACK - Rapid thread spawning!'' []] s1)
      in s2)"

definition fbg_main :: "string list \<Rightarrow> (nat \<Rightarrow> bool) \<Rightarrow> int \<times> fbg_state" where
  "fbg_main argv ok =
     (let s2 = fbg_after_phase2 argv ok;
          s3 = fbg_sustain 0
                 (emit [Print Stdout ''Peak thread count: %d threads'' [created_threads s2],
                        Print Stdout ''Phase 3/3: Sustaining high thread count...'' []] s2);
          s4 = fbg_join 0
                 (emit [Print Stdout ''Total Threads Created: %d'' [created_threads s3],
                        Print Stdout ''Shutting down threads...'' []] s3)
      in (0, s4))"

section \<open>Progressive memory leak (\<open>ml_anomaly_tests/memory_leak_progressive.c\<close>)\<close>

text \<open>
  \<open>void* allocations[30]\<close> is a local array without initialiser: entry \<open>i\<close> starts as
  \<open>Uninit (garbage i)\<close>, where \<open>garbage i\<close> is whatever the stack holds there, and
  becomes \<open>Init p\<close> when the program stores \<open>p\<close> in it. \<open>mres i\<close> is what \<open>malloc\<close>
  returns in iteration \<open>i\<close>. The sizes are computed in \<open>int\<close> and stay below
  \<open>2^31\<close> (see \<open>mlp_alloc_size_fits\<close>); \<open>total_allocated\<close> stays below \<open>2^32\<close>.
\<close>

definition stack_array :: "nat \<Rightarrow> (nat \<Rightarrow> nat) \<Rightarrow> nat cell list" where
  "stack_array n garbage = map (\<lambda>i. Uninit (garbage i)) [0..<n]"

record mlp_state = proc +
  allocations :: "nat cell list"
  total_allocated :: nat

definition mlp_init :: "(nat \<Rightarrow> nat) \<Rightarrow> mlp_state" where
  "mlp_init garbage = \<lparr>trace = [], allocations = stack_array 30 garbage, total_allocated = 0\<rparr>"

definition mlp_alloc_size :: "nat \<Rightarrow> nat" where
  "mlp_alloc_size i = (i + 1) * 5 * MB"

definition mlp_warn :: "nat \<Rightarrow> event list" where
  "mlp_warn i =
     (if i = 5 then [Print Stdout ''Memory leak detected! Continuing to worsen...'' []] else [])
     @ (if i = 10 then [Print Stdout ''Critical memory leak! Growth accelerating...'' []] else [])
     @ (if i = 15 then [Print Stdout ''Severe memory leak! System resources depleting...'' []] else [])"

text \<open>The allocation loop, lines 33 to 62.\<close>

function mlp_leak :: "(nat \<Rightarrow> nat) \<Rightarrow> nat \<Rightarrow> mlp_state \<Rightarrow> mlp_state" where
  "mlp_leak mres i s =
     (if i < 25 then
        (let alloc_size = mlp_alloc_size i;
             p = mres i;
             s1 = emit [Malloc alloc_size p] (s\<lparr>allocations := (allocations s)[i := Init p]\<rparr>)
         in if p = 0 then
              emit [Diag Stdout ''[%d/25] Memory allocation FAILED at %zu MB'' [i + 1, alloc_size div MB],
                    Diag Stdout ''(System limit reached - this is expected)'' []] s1
            else
              mlp_leak mres (Suc i)
                (emit ([Memset p 170 alloc_size,
                        Print Stdout ''[%d/25] Leaked %zu MB | Total: %zu MB | Growth: +%zu MB/sec''
                          [i + 1, alloc_size div MB, (total_allocated s + alloc_size) div MB,
                           alloc_size div MB],
                        Sleep second] @ mlp_warn i)
                   (s1\<lparr>total_allocated := total_allocated s + alloc_size\<rparr>)))
      else s)"
  by pat_completeness auto
termination
  by (relation "measure (\<lambda>(mres, i, s). 25 - i)") auto

declare mlp_leak.simps [simp del]

text \<open>The sustain loop, lines 68 to 71.\<close>

function mlp_hold :: "nat \<Rightarrow> mlp_state \<Rightarrow> mlp_state" where
  "mlp_hold i s =
     (if i < 5 then
        mlp_hold (Suc i)
          (emit [Print Stdout ''[%d/5] Memory still leaked: %zu MB'' [i + 1, total_allocated s div MB],
                 Sleep second] s)
      else s)"
  by pat_completeness auto
termination
  by (relation "measure (\<lambda>(i, s). 5 - i)") auto

declare mlp_hold.simps [simp del]

text \<open>The cleanup loop, lines 88 to 92: its bound is 30, the size of the array.\<close>

definition mlp_cleanup :: "nat \<Rightarrow> mlp_state \<Rightarrow> mlp_state fate" where
  "mlp_cleanup i s = free_all (allocations s) 30 i s"

definition mlp_attack :: "(nat \<Rightarrow> nat) \<Rightarrow> (nat \<Rightarrow> nat) \<Rightarrow> mlp_state" where
  "mlp_attack mres garbage =
     mlp_leak mres 0 (emit [Print Stdout ''Phase 1/2: Starting memory leak...'' []] (mlp_init garbage))"

text \<open>Lines 70 to 87: the state in which the cleanup loop starts.\<close>

definition mlp_sustained :: "(nat \<Rightarrow> nat) \<Rightarrow> (nat \<Rightarrow> nat) \<Rightarrow> mlp_state" where
  "mlp_sustained mres garbage =
     (let s1 = mlp_attack mres garbage;
          s2 = mlp_hold 0
                 (emit [Print Stdout ''Phase 2/2: Memory leak sustained (NOT cleaning up)...'' [],
                        Print Stdout ''Holding %zu MB allocated for 5 seconds...'' [total_allocated s1 div MB]] s1)
      in emit [Print Stdout ''Total Memory Leaked: %zu MB'' [total_allocated s2 div MB],
               Print Stdout ''Cleaning up allocations...'' []] s2)"

definition mlp_main :: "(nat \<Rightarrow> nat) \<Rightarrow> (nat \<Rightarrow> nat) \<Rightarrow> outcome \<times> mlp_state" where
  "mlp_main mres garbage = returns 0 (mlp_cleanup 0 (mlp_sustained mres garbage))"

section \<open>Resource exhaustion combo (\<open>ml_anomaly_tests/resource_exhaustion_combo.c\<close>)\<close>

text \<open>
  The operating system as the combo generator sees it: \<open>rec_malloc i\<close> is the result of
  the \<open>malloc\<close> of iteration \<open>i\<close>, \<open>rec_create i j\<close> the outcome of the \<open>j\<close>-th
  \<open>pthread_create\<close> of iteration \<open>i\<close>, \<open>rec_open i\<close> the descriptor that \<open>open\<close>
  returns in iteration \<open>i\<close> (negative on failure), \<open>rec_pid\<close> the process id.
  \<open>memory_leaks\<close> is a local array without initialiser; \<open>threads\<close> (60 slots) and
  \<open>open_fds\<close> (100 entries) are globals, zero at program start. A failed
  \<open>pthread_create\<close> leaves its slot as it was.
\<close>

record rec_os =
  rec_malloc :: "nat \<Rightarrow> nat"
  rec_create :: "nat \<Rightarrow> nat \<Rightarrow> bool"
  rec_open :: "nat \<Rightarrow> int"
  rec_pid :: nat

record rec_state = proc +
  memory_leaks :: "nat cell list"
  leak_count :: nat
  rthreads :: "slot list"
  thread_count :: nat
  open_fds :: "int list"
  file_count :: nat

definition rec_init :: "(nat \<Rightarrow> nat) \<Rightarrow> rec_state" where
  "rec_init garbage =
     \<lparr>trace = [], memory_leaks = stack_array 30 garbage, leak_count = 0,
      rthreads = replicate 60 Unused, thread_count = 0,
      open_fds = replicate 100 0, file_count = 0\<rparr>"

text \<open>Decimal digits of a number, as \<open>%d\<close> prints them.\<close>

function dec :: "nat \<Rightarrow> string" where
  "dec n = (if n < 10 then [char_of (48 + n)] else dec (n div 10) @ [char_of (48 + n mod 10)])"
  by pat_completeness auto
termination
  by (relation "measure (\<lambda>n. n)") auto

declare dec.simps [simp del]

definition exhaust_name :: "nat \<Rightarrow> nat \<Rightarrow> string" where
  "exhaust_name pid k = ''/tmp/exhaust_'' @ dec pid @ ''_'' @ dec k @ ''.tmp''"

definition rec_alloc_size :: "nat \<Rightarrow> nat" where
  "rec_alloc_size k = (k + 1) * 8 * MB"

text \<open>Attack vector 1, lines 60 to 68.\<close>

definition rec_leak :: "rec_os \<Rightarrow> nat \<Rightarrow> rec_state \<Rightarrow> rec_state" where
  "rec_leak os i s =
     (if i mod 2 = 0 \<and> leak_count s < 30 then
        (let alloc = rec_alloc_size (leak_count s);
             p = rec_malloc os i;
             s1 = emit [Malloc alloc p]
                    (s\<lparr>memory_leaks := (memory_leaks s)[leak_count s := Init p]\<rparr>)
         in if p \<noteq> 0 then
              emit [Memset p 187 alloc,
                    Print Stdout ''Memory leak: +%zu MB (total: %d leaks)'' [alloc div MB, leak_count s + 1]]
                (s1\<lparr>leak_count := leak_count s + 1\<rparr>)
            else s1)
      else s)"

text \<open>Attack vector 2, lines 71 to 79.\<close>

function rec_spawn :: "rec_os \<Rightarrow> nat \<Rightarrow> nat \<Rightarrow> rec_state \<Rightarrow> rec_state" where
  "rec_spawn os i j s =
     (if j < 3 \<and> thread_count s < 60 then
        rec_spawn os i (Suc j)
          (if rec_create os i j then
             emit [Thread_create (thread_count s) True]
               (s\<lparr>rthreads := (rthreads s)[thread_count s := Live],
                  thread_count := thread_count s + 1\<rparr>)
           else emit [Thread_create (thread_count s) False] s)
      else s)"
  by pat_completeness auto
termination
  by (relation "measure (\<lambda>(os, i, j, s). 3 - j)") auto

declare rec_spawn.simps [simp del]

definition rec_threads :: "rec_os \<Rightarrow> nat \<Rightarrow> rec_state \<Rightarrow> rec_state" where
  "rec_threads os i s =
     (if i mod 3 = 0 \<and> thread_count s < 60 then
        (let s1 = rec_spawn os i 0 s
         in emit [Print Stdout ''Thread spawn: +3 threads (total: %d threads)'' [thread_count s1]] s1)
      else s)"

text \<open>Attack vector 3, lines 82 to 90.\<close>

definition rec_files :: "rec_os \<Rightarrow> nat \<Rightarrow> rec_state \<Rightarrow> rec_state" where
  "rec_files os i s =
     (if i mod 2 = 1 \<and> file_count s < 100 then
        (let temp_name = exhaust_name (rec_pid os) (file_count s);
             fd = rec_open os i;
             s1 = emit [Open_file temp_name fd]
                    (s\<lparr>open_fds := (open_fds s)[file_count s := fd]\<rparr>)
         in if fd \<ge> 0 then
              emit [Print Stdout ''File opened: %d open files'' [file_count s + 1]]
                (s1\<lparr>file_count := file_count s + 1\<rparr>)
            else s1)
      else s)"

text \<open>Attack vector 4 and the threshold warnings, lines 93 to 106.\<close>

definition rec_cpu :: "rec_state \<Rightarrow> rec_state" where
  "rec_cpu s =
     (if thread_count s > 0 then
        emit [Print Stdout ''CPU spike: %d threads consuming CPU'' [thread_count s]] s
      else s)"

definition rec_warn :: "nat \<Rightarrow> event list" where
  "rec_warn i =
     (if i = 5 then [Print Stdout ''WARNING: Resource consumption elevated'' []] else [])
     @ (if i = 10 then [Print Stdout ''CRITICAL: Multiple resource exhaustion vectors active'' []] else [])
     @ (if i = 15 then [Print Stdout ''SEVERE: System resources critically depleted'' []] else [])"

definition rec_iter :: "rec_os \<Rightarrow> nat \<Rightarrow> rec_state \<Rightarrow> rec_state" where
  "rec_iter os i s =
     emit (rec_warn i @ [Sleep second])
       (rec_cpu (rec_files os i (rec_threads os i (rec_leak os i
          (emit [Print Stdout ''Attack iteration %d/20:'' [i + 1]] s)))))"

function rec_attack :: "rec_os \<Rightarrow> nat \<Rightarrow> rec_state \<Rightarrow> rec_state" where
  "rec_attack os i s = (if i < 20 then rec_attack os (Suc i) (rec_iter os i s) else s)"
  by pat_completeness auto
termination
  by (relation "measure (\<lambda>(os, i, s). 20 - i)") auto

declare rec_attack.simps [simp del]

text \<open>Phase 3, lines 118 to 121.\<close>

function rec_sustain :: "nat \<Rightarrow> rec_state \<Rightarrow> rec_state" where
  "rec_sustain i s =
     (if i < 8 then
        rec_sustain (Suc i)
          (emit [Print Stdout ''[%d/8] All attack vectors active (CRITICAL)'' [i + 1], Sleep second] s)
      else s)"
  by pat_completeness auto
termination
  by (relation "measure (\<lambda>(i, s). 8 - i)") auto

declare rec_sustain.simps [simp del]

text \<open>Cleanup, lines 136 to 158.\<close>

function rec_join :: "nat \<Rightarrow> rec_state \<Rightarrow> rec_state" where
  "rec_join i s =
     (if i < thread_count s then
        rec_join (Suc i)
          (emit [Thread_join i (rthreads s ! i)] (s\<lparr>rthreads := join_slot i (rthreads s)\<rparr>))
      else s)"
  by pat_completeness auto
termination
  by (relation "measure (\<lambda>(i, s). thread_count s - i)") (auto simp: emit_def)

declare rec_join.simps [simp del]

definition rec_free :: "nat \<Rightarrow> rec_state \<Rightarrow> rec_state fate" where
  "rec_free i s = free_all (memory_leaks s) (leak_count s) i s"

function rec_close :: "rec_os \<Rightarrow> nat \<Rightarrow> rec_state \<Rightarrow> rec_state" where
  "rec_close os i s =
     (if i < file_count s then
        rec_close os (Suc i)
          (if open_fds s ! i \<ge> 0 then
             emit [Close_fd (open_fds s ! i), Unlink (exhaust_name (rec_pid os) i)] s
           else s)
      else s)"
  by pat_completeness auto
termination
  by (relation "measure (\<lambda>(os, i, s). file_count s - i)") (auto simp: emit_def)

declare rec_close.simps [simp del]

definition rec_phase2 :: "rec_os \<Rightarrow> (nat \<Rightarrow> nat) \<Rightarrow> rec_state" where
  "rec_phase2 os garbage =
     rec_attack os 0
       (emit [Print Stdout ''Phase 1/3: Normal startup...'' [], Sleep (2 * second),
              Print Stdout ''Phase 2/3: COMBINED ATTACK!'' [],
              Print Stdout ''Triggering all attack vectors simultaneously...'' []] (rec_init garbage))"

definition rec_summary :: "rec_state \<Rightarrow> event list" where
  "rec_summary s =
     [Print Stdout ''Memory Leaks: %d (total leaked memory)'' [leak_count s],
      Print Stdout ''Active Threads: %d (consuming CPU)'' [thread_count s],
      Print Stdout ''Open Files: %d file descriptors'' [file_count s],
      Print Stdout ''Phase 3/3: Sustaining attack for ML detection...'' []]"

definition rec_metrics :: "rec_state \<Rightarrow> event list" where
  "rec_metrics s =
     [Print Stdout ''Memory: %d leaks'' [leak_count s],
      Print Stdout ''Threads: %d active'' [thread_count s],
      Print Stdout ''Files: %d open'' [file_count s],
      Print Stdout ''Shutting down attack...'' []]"

definition rec_main :: "rec_os \<Rightarrow> (nat \<Rightarrow> nat) \<Rightarrow> outcome \<times> rec_state" where
  "rec_main os garbage =
     (let s2 = rec_phase2 os garbage;
          s3 = rec_sustain 0 (emit (rec_summary s2) s2);
          s4 = rec_join 0 (emit (rec_metrics s3) s3)
      in case rec_free 0 s4 of
           Alive s5 \<Rightarrow> (Exit 0, rec_close os 0 s5)
         | Dead s5 \<Rightarrow> (Killed, s5))"

section \<open>I/O storm (\<open>ml_anomaly_tests/io_storm_writer.c\<close>)\<close>

text \<open>
  \<open>ios_malloc\<close> is the buffer that \<open>malloc\<close> returns, \<open>ios_fopen\<close> whether \<open>fopen\<close>
  succeeds, \<open>ios_fwrite k\<close> what the \<open>k\<close>-th call of \<open>fwrite\<close> reports (calls 0 to 2
  belong to phase 1, 3 to 152 to the storm, 153 to 155 to phase 3). \<open>fwrite\<close> never
  reports more items than it was asked to write, which \<open>ios_written\<close> makes explicit. The
  set \<open>files\<close> holds the names that exist in the file system. The calls of \<open>time\<close>
  only feed floating-point figures of the narration and are left out.
\<close>

definition ios_CHUNK_SIZE :: nat where
  "ios_CHUNK_SIZE = 1 * MB"

record ios_os =
  ios_malloc :: nat
  ios_fopen :: bool
  ios_fwrite :: "nat \<Rightarrow> nat"
  ios_pid :: nat

record ios_state = proc +
  total_written :: nat
  files :: "string set"

definition ios_written :: "ios_os \<Rightarrow> nat \<Rightarrow> nat" where
  "ios_written os k = min (ios_fwrite os k) ios_CHUNK_SIZE"

definition ios_name :: "nat \<Rightarrow> string" where
  "ios_name pid = ''/tmp/io_storm_test_'' @ dec pid @ ''.dat''"

text \<open>Phases 1 and 3, lines 49 to 54 and 90 to 95; \<open>base\<close> numbers the calls of \<open>fwrite\<close>.\<close>

function ios_normal :: "ios_os \<Rightarrow> nat \<Rightarrow> nat \<Rightarrow> ios_state \<Rightarrow> ios_state" where
  "ios_normal os base i s =
     (if i < 3 then
        ios_normal os base (Suc i)
          (emit [Fwrite ios_CHUNK_SIZE (ios_written os (base + i)), Fflush,
                 Print Stdout ''[%d/3] Wrote 1 MB (normal rate)'' [i + 1], Sleep second] s)
      else s)"
  by pat_completeness auto
termination
  by (relation "measure (\<lambda>(os, base, i, s). 3 - i)") auto

declare ios_normal.simps [simp del]

text \<open>Phase 2, lines 59 to 77.\<close>

function ios_storm :: "ios_os \<Rightarrow> nat \<Rightarrow> ios_state \<Rightarrow> ios_state" where
  "ios_storm os i s =
     (if i < 150 then
        (let written = ios_written os (3 + i);
             s1 = emit [Fwrite ios_CHUNK_SIZE written, Fflush]
                    (s\<lparr>total_written := total_written s + written\<rparr>)
         in ios_storm os (Suc i)
              (emit ((if i mod 10 = 0 then
                        [Print Stdout ''[%d/150] Written: %zu MB | Rate: %.1f MB/s (ANOMALOUS)''
                           [i + 1, total_written s1 div MB]]
                      else []) @ [Sleep 10000]) s1))
      else s)"
  by pat_completeness auto
termination
  by (relation "measure (\<lambda>(os, i, s). 150 - i)") auto

declare ios_storm.simps [simp del]

definition ios_opened :: "ios_os \<Rightarrow> string set \<Rightarrow> ios_state" where
  "ios_opened os fs0 =
     \<lparr>trace = [Malloc ios_CHUNK_SIZE (ios_malloc os),
               Memset (ios_malloc os) 65 ios_CHUNK_SIZE,
               Print Stdout ''Phase 1/3: Normal I/O (low throughput)...'' [],
               Fopen (ios_name (ios_pid os)) True],
      total_written = 0, files = insert (ios_name (ios_pid os)) fs0\<rparr>"

definition ios_after_storm :: "ios_os \<Rightarrow> string set \<Rightarrow> ios_state" where
  "ios_after_storm os fs0 =
     ios_storm os 0
       (emit [Print Stdout ''Phase 2/3: I/O STORM - Rapid writes!'' []]
          (ios_normal os 0 0 (ios_opened os fs0)))"

definition ios_main :: "ios_os \<Rightarrow> string set \<Rightarrow> int \<times> ios_state" where
  "ios_main os fs0 =
     (if ios_malloc os = 0 then
        (1, \<lparr>trace = [Malloc ios_CHUNK_SIZE 0, Diag Stderr ''Failed to allocate buffer!'' []],
             total_written = 0, files = fs0\<rparr>)
      else if \<not> ios_fopen os then
        (1, \<lparr>trace = [Malloc ios_CHUNK_SIZE (ios_malloc os),
                      Memset (ios_malloc os) 65 ios_CHUNK_SIZE,
                      Print Stdout ''Phase 1/3: Normal I/O (low throughput)...'' [],
                      Fopen (ios_name (ios_pid os)) False,
                      Diag Stderr ''Failed to open temp file: %s'' [],
                      Free (ios_malloc os)],
             total_written = 0, files = fs0\<rparr>)
      else
        (let s3 = ios_after_storm os fs0;
             s4 = ios_normal os 153 0
                    (emit [Print Stdout ''Total Written: %zu MB'' [total_written s3 div MB],
                           Print Stdout ''Phase 3/3: Returning to normal I/O...'' []] s3);
             s5 = emit [Fclose,
                        Print Stdout ''Cleaning up temp file: %s'' [],
                        Unlink (ios_name (ios_pid os)),
                        Free (ios_malloc os)]
                    (s4\<lparr>files := files s4 - {ios_name (ios_pid os)}\<rparr>)
         in (0, s5)))"

section \<open>CPU spike (\<open>ml_anomaly_tests/cpu_spike_attack.c\<close>)\<close>

text \<open>
  Time is virtual. \<open>cpu_clock\<close> is what \<open>clock()\<close> returns, the processor time of the
  process in ticks; \<open>wall\<close> is the time elapsed since the program started, in
  microseconds. \<open>CLOCKS_PER_SEC\<close> comes from \<open>time.h\<close>; POSIX fixes it at one million,
  so that a tick is a microsecond. A sleep advances \<open>wall\<close> by its argument and leaves
  \<open>cpu_clock\<close> alone. One pass of the inner \<open>for\<close> loop of \<open>consume_cpu\<close> (10000
  additions) takes \<open>b\<close> ticks of processor time, a parameter of the machine, and the
  process keeps the processor while it computes, so that \<open>wall\<close> advances by \<open>b\<close> as
  well. All other calls take no time. With \<open>b = 0\<close> the loop of \<open>consume_cpu\<close> would
  never end, hence the result is an option.
\<close>

definition CLOCKS_PER_SEC :: nat where
  "CLOCKS_PER_SEC = 1000000"

record cpu_state = proc +
  cpu_clock :: nat
  wall :: nat

definition usleep :: "nat \<Rightarrow> 'a cpu_state_scheme \<Rightarrow> 'a cpu_state_scheme" where
  "usleep us s = emit [Sleep us] (s\<lparr>wall := wall s + us\<rparr>)"

definition burn :: "nat \<Rightarrow> 'a cpu_state_scheme \<Rightarrow> 'a cpu_state_scheme" where
  "burn b s = emit [Burn b] (s\<lparr>cpu_clock := cpu_clock s + b, wall := wall s + b\<rparr>)"

partial_function (option) consume_loop ::
  "nat \<Rightarrow> nat \<Rightarrow> 'a cpu_state_scheme \<Rightarrow> 'a cpu_state_scheme option" where
  "consume_loop b end_t s =
     (if cpu_clock s < end_t then consume_loop b end_t (burn b s) else Some s)"

definition consume_cpu ::
  "nat \<Rightarrow> nat \<Rightarrow> 'a cpu_state_scheme \<Rightarrow> 'a cpu_state_scheme option" where
  "consume_cpu b duration_sec s =
     consume_loop b (cpu_clock s + duration_sec * CLOCKS_PER_SEC) s"

text \<open>Phase 1, lines 43 to 48.\<close>

function cpu_benign :: "nat \<Rightarrow> nat \<Rightarrow> cpu_state \<Rightarrow> cpu_state option" where
  "cpu_benign b i s =
     (if i < 5 then
        (case consume_cpu b 0
                (usleep 900000 (emit [Print Stdout ''[%d/5] CPU: ~5%% (normal)'' [i + 1]] s)) of
           None \<Rightarrow> None
         | Some s1 \<Rightarrow> cpu_benign b (Suc i) (usleep 100000 s1))
      else Some s)"
  by pat_completeness auto
termination
  by (relation "measure (\<lambda>(b, i, s). 5 - i)") auto

declare cpu_benign.simps [simp del]

text \<open>Phase 2, lines 55 to 58.\<close>

function cpu_attack :: "nat \<Rightarrow> nat \<Rightarrow> cpu_state \<Rightarrow> cpu_state option" where
  "cpu_attack b i s =
     (if i < 15 then
        (case consume_cpu b 1 (emit [Print Stdout ''[%d/15] CPU: 95%%+ (ANOMALOUS)'' [i + 1]] s) of
           None \<Rightarrow> None
         | Some s1 \<Rightarrow> cpu_attack b (Suc i) s1)
      else Some s)"
  by pat_completeness auto
termination
  by (relation "measure (\<lambda>(b, i, s). 15 - i)") auto

declare cpu_attack.simps [simp del]

text \<open>Phase 3, lines 62 to 65.\<close>

function cpu_cooldown :: "nat \<Rightarrow> cpu_state \<Rightarrow> cpu_state" where
  "cpu_cooldown i s =
     (if i < 3 then
        cpu_cooldown (Suc i)
          (usleep second (emit [Print Stdout ''[%d/3] CPU: ~5%% (normal)'' [i + 1]] s))
      else s)"
  by pat_completeness auto
termination
  by (relation "measure (\<lambda>(i, s). 3 - i)") auto

declare cpu_cooldown.simps [simp del]

text \<open>
  Lines 42 to 72, the three phases. \<open>time(NULL)\<close> counts whole seconds; the program is
  taken to start on a second boundary, so that it returns \<open>wall div second\<close> plus
  the time of the start. The result holds the value of \<open>wall\<close> at the end of phase 1
  and at the end of phase 2, and the state after the last \<open>printf\<close>.
\<close>

definition cpu_phases :: "nat \<Rightarrow> cpu_state \<Rightarrow> (nat \<times> nat \<times> cpu_state) option" where
  "cpu_phases b s =
     (case cpu_benign b 0 (emit [Print Stdout ''Phase 1/3: Benign behavior (low CPU)...'' []] s) of
        None \<Rightarrow> None
      | Some s1 \<Rightarrow>
          (case cpu_attack b 0
                  (emit [Print Stdout ''Phase 2/3: ATTACK - CPU SPIKE!'' [],
                         Print Stdout ''Consuming 95%%+ CPU for 15 seconds...'' []] s1) of
             None \<Rightarrow> None
           | Some s2 \<Rightarrow>
               Some (wall s1, wall s2,
                     emit [Print Stdout ''Attack Duration: %ld seconds''
                             [wall s2 div second - wall s1 div second]]
                       (cpu_cooldown 0
                          (emit [Print Stdout ''Phase 3/3: Returning to normal behavior...'' []] s2)))))"

text \<open>
  A call of \<open>printf\<close> is defined when every conversion specification of its format is
  valid and there is an argument for each of them (C11, 7.21.6.1). A specification
  starts with \<open>%\<close>; \<open>%%\<close> prints a percent sign and takes no argument; otherwise flags,
  a width, a precision and a length modifier may follow, and then comes the conversion
  character. \<open>fmt_args\<close> reads a format and returns the number of arguments that it
  takes, or \<open>None\<close> when it meets an invalid specification.

  Line 39 of \<open>main\<close> calls \<open>printf\<close> with no argument and a format in which the percent
  signs are not doubled: \<open>(5%)\<close> is an invalid specification, and \<open>95%+ sustained\<close>
  holds the specification \<open>%+ s\<close>, a string conversion with the flags \<open>+\<close> and space,
  for which no argument is passed. The behaviour of the call is undefined, and the
  model ends the run at this call, as the run ends on a platform where \<open>printf\<close> takes
  the missing string from a register that holds no pointer to text. The format is given without its characters outside ASCII (an emoji, an arrow),
  which play no part in a conversion. All other calls of \<open>printf\<close> in the repository pass
  the arguments that their formats take.
\<close>

datatype scan = Plain | After_percent | In_spec

definition is_flag :: "char \<Rightarrow> bool" where
  "is_flag c = (c \<in> set ''-+ #0'')"

definition is_length :: "char \<Rightarrow> bool" where
  "is_length c = (c \<in> set ''hlqjztL'')"

definition is_conversion :: "char \<Rightarrow> bool" where
  "is_conversion c = (c \<in> set ''diouxXeEfFgGaAcspn'')"

fun fmt_args :: "scan \<Rightarrow> string \<Rightarrow> nat option" where
  "fmt_args Plain [] = Some 0"
| "fmt_args After_percent [] = None"
| "fmt_args In_spec [] = None"
| "fmt_args Plain (c # cs) =
     (if c = CHR ''%'' then fmt_args After_percent cs else fmt_args Plain cs)"
| "fmt_args After_percent (c # cs) =
     (if c = CHR ''%'' then fmt_args Plain cs
      else if is_conversion c then map_option Suc (fmt_args Plain cs)
      else if is_flag c \<or> isdigit c \<or> c = CHR ''.'' \<or> is_length c then fmt_args In_spec cs
      else None)"
| "fmt_args In_spec (c # cs) =
     (if is_conversion c then map_option Suc (fmt_args Plain cs)
      else if is_flag c \<or> isdigit c \<or> c = CHR ''.'' \<or> is_length c then fmt_args In_spec cs
      else None)"

definition printf :: "chan \<Rightarrow> string \<Rightarrow> nat list \<Rightarrow> 'a proc_scheme \<Rightarrow> 'a proc_scheme fate" where
  "printf ch fmt args s =
     (case fmt_args Plain fmt of
        None \<Rightarrow> Dead s
      | Some n \<Rightarrow> if n \<le> length args then Alive (emit [Print ch fmt args] s) else Dead s)"

definition cpu_pattern_line :: string where
  "cpu_pattern_line = ''Pattern: Low CPU (5%) Sudden spike to 95%+ sustained''"

definition cpu_main :: "nat \<Rightarrow> (outcome \<times> cpu_state) option" where
  "cpu_main b =
     (case printf Stdout cpu_pattern_line [] \<lparr>trace = [], cpu_clock = 0, wall = 0\<rparr> of
        Dead s \<Rightarrow> Some (Killed, s)
      | Alive s \<Rightarrow>
          (case cpu_phases b s of
             None \<Rightarrow> None
           | Some r \<Rightarrow> Some (Exit 0, snd (snd r))))"

section \<open>Programs that run until they are stopped\<close>

text \<open>
  The loops of these programs are \<open>while (1)\<close>. They are run with fuel, one unit for
  each iteration: \<open>Running s\<close> says that the fuel is used up and the loop is still
  going, in state \<open>s\<close>; \<open>Exited c s\<close> says that the process has ended with exit code
  \<open>c\<close>.
\<close>

datatype 'a run = Exited int 'a | Running 'a

datatype 'a loop = Broke 'a | Spinning 'a

subsection \<open>File writer (\<open>ui_test_programs/file_writer.c\<close>)\<close>

text \<open>
  \<open>fw_fopen\<close> and \<open>fw_malloc\<close> are the results of the two setup calls, \<open>fw_fwrite k\<close>
  what the \<open>k\<close>-th \<open>fwrite\<close> reports. \<open>total\<close> is an \<open>unsigned long\<close> (64 bits), \<open>count\<close>
  an \<open>unsigned int\<close>. \<open>out_file\<close> is the output file as the file system has it:
  \<open>None\<close> while it does not exist, \<open>Some n\<close> when it exists with \<open>n\<close> bytes handed to
  it. Opening with mode \<open>wb\<close> creates or empties it.
\<close>

definition fw_CHUNK_SIZE :: nat where
  "fw_CHUNK_SIZE = 1048576"

record fw_os =
  fw_fopen :: bool
  fw_malloc :: nat
  fw_fwrite :: "nat \<Rightarrow> nat"

record fw_state = proc +
  total :: "64 word"
  count :: "32 word"
  out_file :: "nat option"

definition fw_grow :: "nat \<Rightarrow> nat option \<Rightarrow> nat option" where
  "fw_grow n f = (case f of None \<Rightarrow> None | Some sz \<Rightarrow> Some (sz + n))"

fun fw_loop :: "nat \<Rightarrow> fw_os \<Rightarrow> nat \<Rightarrow> fw_state \<Rightarrow> fw_state loop" where
  "fw_loop 0 os k s = Spinning s"
| "fw_loop (Suc fuel) os k s =
     (let written = min (fw_fwrite os k) fw_CHUNK_SIZE;
          s1 = emit [Fwrite fw_CHUNK_SIZE written] (s\<lparr>out_file := fw_grow written (out_file s)\<rparr>)
      in if written \<noteq> fw_CHUNK_SIZE then
           Broke (emit [Diag Stderr ''Write failed after %lu MB'' [unat (total s) div (1024 * 1024)]] s1)
         else
           (let s2 = s1\<lparr>total := total s + of_nat written, count := count s + 1\<rparr>;
                s3 = (if count s2 mod 100 = 0 then
                        emit [Print Stdout ''Written: %lu MB'' [unat (total s2) div (1024 * 1024)], Fflush] s2
                      else s2)
            in fw_loop fuel os (Suc k) (emit [Sleep 10000] s3)))"

definition fw_main :: "nat \<Rightarrow> fw_os \<Rightarrow> nat option \<Rightarrow> fw_state run" where
  "fw_main fuel os f0 =
     (let s0 = \<lparr>trace = [Print Stdout ''Starting file write test...'' [],
                         Print Stdout ''Output file: %s'' [],
                         Fopen ''test_output.dat'' (fw_fopen os)],
                total = 0, count = 0, out_file = f0\<rparr>
      in if \<not> fw_fopen os then Exited 1 (emit [Perror ''fopen''] s0)
         else
           (let s1 = emit [Malloc fw_CHUNK_SIZE (fw_malloc os)] (s0\<lparr>out_file := Some 0\<rparr>)
            in if fw_malloc os = 0 then
                 Exited 1 (emit [Diag Stderr ''malloc failed'' [], Fclose] s1)
               else
                 (case fw_loop fuel os 0 (emit [Memset (fw_malloc os) 205 fw_CHUNK_SIZE] s1) of
                    Spinning s \<Rightarrow> Running s
                  | Broke s \<Rightarrow> Exited 0 (emit [Free (fw_malloc os), Fclose] s))))"

subsection \<open>Fork bomb (\<open>ui_test_programs/fork_bomb.c\<close>)\<close>

text \<open>
  \<open>frk k\<close> is what the \<open>k\<close>-th call of \<open>fork\<close> returns: negative when it fails, the
  child's process id in the parent, and 0 in the child, which is a process of its own
  running the same text.
\<close>

record fb_state = proc +
  fb_count :: "32 word"

fun fb_loop :: "nat \<Rightarrow> (nat \<Rightarrow> int) \<Rightarrow> nat \<Rightarrow> fb_state \<Rightarrow> fb_state run" where
  "fb_loop 0 frk k s = Running s"
| "fb_loop (Suc fuel) frk k s =
     (let pid = frk k;
          s1 = emit [Fork pid] s
      in if pid < 0 then
           fb_loop fuel frk (Suc k)
             (emit [Diag Stderr ''Fork failed after %u processes'' [unat (fb_count s)],
                    Perror ''fork'', Sleep second] s1)
         else
           (let s2 = s1\<lparr>fb_count := fb_count s + 1\<rparr>
            in if pid = 0 then Exited 0 (emit [Sleep (60 * second)] s2)
               else
                 fb_loop fuel frk (Suc k)
                   (emit ((if fb_count s2 mod 10 = 0 then
                             [Print Stdout ''Forked %u processes (latest PID: %d)''
                                [unat (fb_count s2), nat pid]]
                           else []) @ [Sleep 50000]) s2)))"

definition fb_main :: "nat \<Rightarrow> (nat \<Rightarrow> int) \<Rightarrow> fb_state run" where
  "fb_main fuel frk =
     fb_loop fuel frk 0
       \<lparr>trace = [Print Stdout ''Starting fork bomb test...'' [],
                 Print Stdout ''WARNING: This will create many processes!'' []],
        fb_count = 0\<rparr>"

subsection \<open>Network test (\<open>ui_test_programs/network_test.c\<close>)\<close>

text \<open>
  \<open>nt_socket k\<close>, \<open>nt_inet_pton k\<close> and \<open>nt_connect k\<close> are the results of the three
  calls in iteration \<open>k\<close>. \<open>attempt\<close> is an \<open>int\<close> that only grows; it would take more
  than two thousand million iterations to overflow, and is an unbounded integer here.
\<close>

record nt_os =
  nt_socket :: "nat \<Rightarrow> int"
  nt_inet_pton :: "nat \<Rightarrow> int"
  nt_connect :: "nat \<Rightarrow> int"

record nt_state = proc +
  attempt :: int

fun nt_loop :: "nat \<Rightarrow> nt_os \<Rightarrow> nat \<Rightarrow> nt_state \<Rightarrow> nt_state run" where
  "nt_loop 0 os k s = Running s"
| "nt_loop (Suc fuel) os k s =
     (let a = attempt s + 1;
          sock = nt_socket os k;
          s1 = emit [Socket sock] (s\<lparr>attempt := a\<rparr>)
      in if sock < 0 then
           nt_loop fuel os (Suc k)
             (emit [Diag Stderr ''Attempt %d: socket() failed'' [nat a], Perror ''socket'',
                    Sleep (2 * second)] s1)
         else
           (let r = nt_inet_pton os k;
                s2 = emit [Inet_pton r] s1
            in if r \<le> 0 then
                 nt_loop fuel os (Suc k)
                   (emit [Diag Stderr ''Attempt %d: Invalid address'' [nat a], Close_fd sock,
                          Sleep (2 * second)] s2)
               else
                 (let c = nt_connect os k;
                      s3 = emit [Print Stdout ''Attempt %d: Connecting...'' [nat a], Connect c] s2;
                      s4 = (if c < 0 then
                              emit [Diag Stderr ''Attempt %d: Connection failed (Network blocked?)'' [nat a],
                                    Perror ''connect''] s3
                            else emit [Print Stdout ''Attempt %d: Connection successful!'' [nat a]] s3)
                  in nt_loop fuel os (Suc k) (emit [Close_fd sock, Sleep (3 * second)] s4))))"

definition nt_main :: "nat \<Rightarrow> nt_os \<Rightarrow> nt_state run" where
  "nt_main fuel os =
     nt_loop fuel os 0
       \<lparr>trace = [Print Stdout ''Starting network connectivity test...'' [],
                 Print Stdout ''Attempting to connect to %s:%d (Google DNS)...'' [53]],
        attempt = 0\<rparr>"

subsection \<open>Memory hog (\<open>ui_test_programs/memory_hog.c\<close>)\<close>

text \<open>
  \<open>mres k\<close> is what the \<open>k\<close>-th \<open>malloc\<close> returns. \<open>total\<close> is an
  \<open>unsigned long\<close>; \<open>count\<close> is an \<open>int\<close> that only grows and is an unbounded
  integer here.
\<close>

definition mh_CHUNK_SIZE :: nat where
  "mh_CHUNK_SIZE = 10 * 1024 * 1024"

record mh_state = proc +
  mh_total :: "64 word"
  mh_count :: int

fun mh_loop :: "nat \<Rightarrow> (nat \<Rightarrow> nat) \<Rightarrow> nat \<Rightarrow> mh_state \<Rightarrow> mh_state loop" where
  "mh_loop 0 mres k s = Spinning s"
| "mh_loop (Suc fuel) mres k s =
     (let block = mres k;
          s1 = emit [Malloc mh_CHUNK_SIZE block] s
      in if block = 0 then
           Broke (emit [Diag Stderr ''malloc failed after %lu MB''
                          [unat (mh_total s) div (1024 * 1024)]] s1)
         else
           (let s2 = (emit [Memset block 171 mh_CHUNK_SIZE] s1)
                       \<lparr>mh_total := mh_total s + of_nat mh_CHUNK_SIZE, mh_count := mh_count s + 1\<rparr>;
                s3 = (if mh_count s2 mod 10 = 0 then
                        emit [Print Stdout ''Allocated: %lu MB (%d chunks)''
                                [unat (mh_total s2) div (1024 * 1024), nat (mh_count s2)],
                              Fflush] s2
                      else s2)
            in mh_loop fuel mres (Suc k) (emit [Sleep 100000] s3)))"

definition mh_main :: "nat \<Rightarrow> (nat \<Rightarrow> nat) \<Rightarrow> mh_state run" where
  "mh_main fuel mres =
     (case mh_loop fuel mres 0
             \<lparr>trace = [Print Stdout ''Starting memory allocation test...'' [], Fflush],
              mh_total = 0, mh_count = 0\<rparr> of
        Spinning s \<Rightarrow> Running s
      | Broke s \<Rightarrow> Exited 1 s)"

subsection \<open>Infinite loop (\<open>ui_test_programs/infinite_loop.c\<close>)\<close>

record il_state = proc +
  counter :: "64 word"

fun il_loop :: "nat \<Rightarrow> il_state \<Rightarrow> il_state run" where
  "il_loop 0 s = Running s"
| "il_loop (Suc fuel) s =
     (let s1 = s\<lparr>counter := counter s + 1\<rparr>
      in il_loop fuel
           (if counter s1 mod 100000000 = 0 then
              emit [Print Stdout ''Counter: %llu'' [unat (counter s1)], Fflush] s1
            else s1))"

definition il_main :: "nat \<Rightarrow> il_state run" where
  "il_main fuel =
     il_loop fuel \<lparr>trace = [Print Stdout ''Starting infinite CPU loop...'' [], Fflush], counter = 0\<rparr>"

section \<open>ML test pattern (\<open>ui_test_programs/ml_test_pattern.c\<close>)\<close>

text \<open>
  Time is virtual as for the CPU spike; \<open>b\<close> is the processor time of one pass of the
  loop of \<open>cpu_burst\<close>. \<open>mres i\<close> is what \<open>malloc\<close> returns in iteration \<open>i\<close>.
  \<open>ptrs\<close> is the local array \<open>void* ptrs[20]\<close> of pattern 3, which has no
  initialiser.
\<close>

record mtp_state = cpu_state +
  ptrs :: "nat cell list"

definition cpu_burst :: "nat \<Rightarrow> nat \<Rightarrow> mtp_state \<Rightarrow> mtp_state option" where
  "cpu_burst b duration_ms s =
     consume_loop b (cpu_clock s + duration_ms * CLOCKS_PER_SEC div 1000) s"

definition allocate_memory :: "nat \<Rightarrow> nat \<Rightarrow> mtp_state \<Rightarrow> mtp_state" where
  "allocate_memory bytes ptr s =
     emit ([Malloc bytes ptr] @ (if ptr \<noteq> 0 then [Memset ptr 170 bytes] else [])) s"

text \<open>Pattern 1, lines 49 to 53.\<close>

function mtp_gradual :: "nat \<Rightarrow> nat \<Rightarrow> mtp_state \<Rightarrow> mtp_state option" where
  "mtp_gradual b i s =
     (if i < 20 then
        (case cpu_burst b (50 + i * 25)
                (emit [Print Stdout ''Iteration %d: CPU load %d%%'' [i + 1, (i + 1) * 5]] s) of
           None \<Rightarrow> None
         | Some s1 \<Rightarrow> mtp_gradual b (Suc i) (usleep second s1))
      else Some s)"
  by pat_completeness auto
termination
  by (relation "measure (\<lambda>(b, i, s). 20 - i)") auto

declare mtp_gradual.simps [simp del]

text \<open>Pattern 2, lines 59 to 68.\<close>

function mtp_spike :: "nat \<Rightarrow> nat \<Rightarrow> mtp_state \<Rightarrow> mtp_state option" where
  "mtp_spike b i s =
     (if i < 15 then
        (case (if i = 7 then
                 cpu_burst b 800 (emit [Print Stdout ''!!! SUDDEN SPIKE at iteration %d !!!'' [i + 1]] s)
               else
                 cpu_burst b 50 (emit [Print Stdout ''Iteration %d: Normal load'' [i + 1]] s)) of
           None \<Rightarrow> None
         | Some s1 \<Rightarrow> mtp_spike b (Suc i) (usleep second s1))
      else Some s)"
  by pat_completeness auto
termination
  by (relation "measure (\<lambda>(b, i, s). 15 - i)") auto

declare mtp_spike.simps [simp del]

text \<open>Pattern 3, lines 75 to 89.\<close>

function mtp_leak :: "(nat \<Rightarrow> nat) \<Rightarrow> nat \<Rightarrow> mtp_state \<Rightarrow> mtp_state" where
  "mtp_leak mres i s =
     (if i < 20 then
        (let bytes = (i + 1) * 5 * 1024 * 1024;
             s1 = allocate_memory bytes (mres i)
                    (emit [Print Stdout ''Iteration %d: Allocating %zu MB (total: %zu MB)''
                             [i + 1, bytes div (1024 * 1024), (i + 1) * (i + 2) div 2 * 5]] s);
             s2 = s1\<lparr>ptrs := (ptrs s1)[i := Init (mres i)]\<rparr>
         in if mres i = 0 then emit [Diag Stdout ''Memory allocation failed!'' []] s2
            else mtp_leak mres (Suc i) (usleep second s2))
      else s)"
  by pat_completeness auto
termination
  by (relation "measure (\<lambda>(mres, i, s). 20 - i)") auto

declare mtp_leak.simps [simp del]

text \<open>The cleanup loop of pattern 3, lines 87 to 89.\<close>

definition mtp_cleanup :: "nat \<Rightarrow> mtp_state \<Rightarrow> mtp_state fate" where
  "mtp_cleanup i s = free_all (ptrs s) 20 i s"

text \<open>Pattern 4, lines 95 to 104.\<close>

function mtp_oscillate :: "nat \<Rightarrow> nat \<Rightarrow> mtp_state \<Rightarrow> mtp_state option" where
  "mtp_oscillate b i s =
     (if i < 20 then
        (case (if i mod 2 = 0 then
                 cpu_burst b 600 (emit [Print Stdout ''Iteration %d: HIGH CPU load'' [i + 1]] s)
               else
                 cpu_burst b 50 (emit [Print Stdout ''Iteration %d: LOW CPU load'' [i + 1]] s)) of
           None \<Rightarrow> None
         | Some s1 \<Rightarrow> mtp_oscillate b (Suc i) (usleep second s1))
      else Some s)"
  by pat_completeness auto
termination
  by (relation "measure (\<lambda>(b, i, s). 20 - i)") auto

declare mtp_oscillate.simps [simp del]

text \<open>
  Pattern 5, lines 110 to 122. The local \<open>mem_ptr\<close> travels with the state.
\<close>

function mtp_combined :: "nat \<Rightarrow> (nat \<Rightarrow> nat) \<Rightarrow> nat \<Rightarrow> nat \<times> mtp_state \<Rightarrow> (nat \<times> mtp_state) option" where
  "mtp_combined b mres i ms =
     (if i < 25 then
        (case (if i = 10 then
                 (case cpu_burst b 700
                         (emit [Print Stdout ''!!! ANOMALY: Simultaneous CPU spike + memory surge !!!'' []]
                            (snd ms)) of
                    None \<Rightarrow> None
                  | Some s1 \<Rightarrow> Some (mres i, allocate_memory (50 * 1024 * 1024) (mres i) s1))
               else
                 (case cpu_burst b 100
                         (emit [Print Stdout ''Iteration %d: Normal behavior'' [i + 1]] (snd ms)) of
                    None \<Rightarrow> None
                  | Some s1 \<Rightarrow> Some (fst ms, s1))) of
           None \<Rightarrow> None
         | Some ms1 \<Rightarrow> mtp_combined b mres (Suc i) (fst ms1, usleep second (snd ms1)))
      else Some ms)"
  by pat_completeness auto
termination
  by (relation "measure (\<lambda>(b, mres, i, ms). 25 - i)") auto

declare mtp_combined.simps [simp del]

definition mtp_pattern :: "string list \<Rightarrow> int" where
  "mtp_pattern argv = (if length argv > 1 then atoi (argv ! 1) else 1)"

definition mtp_done :: "mtp_state \<Rightarrow> (outcome \<times> mtp_state) option" where
  "mtp_done s =
     Some (Exit 0, emit [Print Stdout ''Pattern complete! Check the AI Anomaly Detection tab.'' []] s)"

definition mtp_main ::
  "string list \<Rightarrow> nat \<Rightarrow> (nat \<Rightarrow> nat) \<Rightarrow> (nat \<Rightarrow> nat) \<Rightarrow> (outcome \<times> mtp_state) option" where
  "mtp_main argv b mres garbage =
     (let s0 = \<lparr>trace = [Print Stdout ''ML Test Pattern Generator'' []], cpu_clock = 0, wall = 0,
                ptrs = stack_array 20 garbage\<rparr>;
          pattern = mtp_pattern argv
      in if pattern = 1 then
           (case mtp_gradual b 0
                   (emit [Print Stdout ''Pattern 1: Gradual CPU increase (Normal behavior)'' []] s0) of
              None \<Rightarrow> None | Some s \<Rightarrow> mtp_done s)
         else if pattern = 2 then
           (case mtp_spike b 0
                   (emit [Print Stdout ''Pattern 2: Sudden CPU spike (Anomalous behavior)'' []] s0) of
              None \<Rightarrow> None | Some s \<Rightarrow> mtp_done s)
         else if pattern = 3 then
           (case mtp_cleanup 0
                   (emit [Print Stdout ''Cleaning up memory...'' []]
                      (mtp_leak mres 0
                         (emit [Print Stdout ''Pattern 3: Memory leak simulation (Anomalous behavior)'' []] s0))) of
              Alive s \<Rightarrow> mtp_done s
            | Dead s \<Rightarrow> Some (Killed, s))
         else if pattern = 4 then
           (case mtp_oscillate b 0
                   (emit [Print Stdout ''Pattern 4: Oscillating behavior (Suspicious pattern)'' []] s0) of
              None \<Rightarrow> None | Some s \<Rightarrow> mtp_done s)
         else if pattern = 5 then
           (case mtp_combined b mres 0
                   (0, emit [Print Stdout ''Pattern 5: Combined CPU + Memory anomaly'' []] s0) of
              None \<Rightarrow> None
            | Some ms \<Rightarrow> mtp_done (if fst ms \<noteq> 0 then emit [Free (fst ms)] (snd ms) else snd ms))
         else
           Some (Exit 1, emit [Print Stdout ''Invalid pattern. Use: %s [1-5]'' []] s0))"

section \<open>Observations on traces\<close>

text \<open>
  \<open>is_attempt\<close> holds of the calls that acquire something from the operating system and
  can fail; \<open>is_diag\<close> of what a program prints on a failure branch.
  \<open>is_acquire\<close> holds of an attempt that succeeded (memory obtained, thread created,
  descriptor opened), \<open>is_release\<close> of a call that gives such a resource back: a
  \<open>free\<close>, a \<open>pthread_join\<close> on a slot that holds a live thread, a \<open>close\<close>.
\<close>

fun is_attempt :: "event \<Rightarrow> bool" where
  "is_attempt (Malloc sz p) = True"
| "is_attempt (Thread_create i ok) = True"
| "is_attempt (Open_file n fd) = True"
| "is_attempt (Fopen n ok) = True"
| "is_attempt (Fwrite n w) = True"
| "is_attempt (Fork pid) = True"
| "is_attempt (Socket fd) = True"
| "is_attempt (Inet_pton r) = True"
| "is_attempt (Connect r) = True"
| "is_attempt e = False"

fun is_diag :: "event \<Rightarrow> bool" where
  "is_diag (Diag c m args) = True"
| "is_diag (Perror m) = True"
| "is_diag e = False"

fun is_acquire :: "event \<Rightarrow> bool" where
  "is_acquire (Malloc sz p) = (p \<noteq> 0)"
| "is_acquire (Thread_create i ok) = ok"
| "is_acquire (Open_file n fd) = (fd \<ge> 0)"
| "is_acquire e = False"

fun is_release :: "event \<Rightarrow> bool" where
  "is_release (Free p) = True"
| "is_release (Thread_join i sl) = (sl = Live)"
| "is_release (Close_fd fd) = True"
| "is_release e = False"

fun is_thread_event :: "event \<Rightarrow> bool" where
  "is_thread_event (Thread_create i ok) = True"
| "is_thread_event (Thread_join i sl) = True"
| "is_thread_event e = False"

definition acquired :: "event list \<Rightarrow> nat" where
  "acquired t = length (filter is_acquire t)"

definition released :: "event list \<Rightarrow> nat" where
  "released t = length (filter is_release t)"

text \<open>
  What a cleanup loop does with one entry of its array: it reads it and, when it is
  not null, passes it to \<open>free\<close>. An entry is \<open>wild\<close> when the program never wrote
  it and it is not null. \<open>halt a n i\<close> is the index after the last entry that a loop
  over \<open>a\<close> with bound \<open>n\<close>, started at \<open>i\<close>, reads: the one after the first wild
  entry, or \<open>n\<close>. \<open>swept a i m\<close> are the events of the entries \<open>i\<close> to \<open>m - 1\<close>.
\<close>

definition cell_events :: "nat \<Rightarrow> nat cell \<Rightarrow> event list" where
  "cell_events i c = [Load i c] @ (if cell_val c \<noteq> 0 then [Free (cell_val c)] else [])"

fun wild :: "nat cell \<Rightarrow> bool" where
  "wild (Uninit g) = (g \<noteq> 0)"
| "wild (Init p) = False"

function halt :: "nat cell list \<Rightarrow> nat \<Rightarrow> nat \<Rightarrow> nat" where
  "halt a n i = (if i < n then (if wild (a ! i) then Suc i else halt a n (Suc i)) else i)"
  by pat_completeness auto
termination
  by (relation "measure (\<lambda>(a, n, i). n - i)") auto

declare halt.simps [simp del]

definition swept :: "nat cell list \<Rightarrow> nat \<Rightarrow> nat \<Rightarrow> event list" where
  "swept a i m = concat (map (\<lambda>k. cell_events k (a ! k)) [i..<m])"

fun reads_entry :: "nat \<Rightarrow> event \<Rightarrow> bool" where
  "reads_entry k (Load i c) = (i = k)"
| "reads_entry k e = False"

text \<open>
  The allocation loop of the progressive memory leak writes entry \<open>i\<close> in iteration
  \<open>i\<close>, whether \<open>malloc\<close> succeeds or not, and stops after the first failure. After a
  run with trace \<open>t\<close> the first entry that it has not written is therefore the one
  after the failed allocation, or 25 when all allocations succeeded.
\<close>

definition mlp_unwritten :: "event list \<Rightarrow> nat" where
  "mlp_unwritten t = (if acquired t < 25 then Suc (acquired t) else 25)"

text \<open>
  The iteration at which the allocation loop of the progressive memory leak stops when
  started at \<open>i\<close>: the first one whose \<open>malloc\<close> fails, or 25.
\<close>

function mlp_stop :: "(nat \<Rightarrow> nat) \<Rightarrow> nat \<Rightarrow> nat" where
  "mlp_stop mres i = (if i < 25 \<and> mres i \<noteq> 0 then mlp_stop mres (Suc i) else i)"
  by pat_completeness auto
termination
  by (relation "measure (\<lambda>(mres, i). 25 - i)") auto

declare mlp_stop.simps [simp del]

text \<open>
  The sizes of the allocations that succeeded, in program order.
\<close>

fun malloc_ok_size :: "event \<Rightarrow> nat list" where
  "malloc_ok_size (Malloc sz p) = (if p \<noteq> 0 then [sz] else [])"
| "malloc_ok_size e = []"

definition succ_sizes :: "event list \<Rightarrow> nat list" where
  "succ_sizes t = concat (map malloc_ok_size t)"

fun is_narration :: "event \<Rightarrow> bool" where
  "is_narration (Print c m args) = True"
| "is_narration (Sleep n) = True"
| "is_narration e = False"

fun is_cleanup :: "event \<Rightarrow> bool" where
  "is_cleanup (Print c m args) = True"
| "is_cleanup (Load i c) = True"
| "is_cleanup (Free p) = True"
| "is_cleanup (Thread_join i sl) = True"
| "is_cleanup (Close_fd fd) = True"
| "is_cleanup (Unlink n) = True"
| "is_cleanup e = False"

definition calm :: "event \<Rightarrow> bool" where
  "calm e = (\<not> is_attempt e \<and> \<not> is_diag e)"

definition grows :: "(event \<Rightarrow> bool) \<Rightarrow> event list \<Rightarrow> event list \<Rightarrow> bool" where
  "grows K t t' = (\<exists>r. t' = t @ r \<and> list_all K r)"

fun is_combo_attack :: "event \<Rightarrow> bool" where
  "is_combo_attack (Print c m args) = True"
| "is_combo_attack (Sleep n) = True"
| "is_combo_attack (Malloc sz p) = True"
| "is_combo_attack (Memset p v n) = True"
| "is_combo_attack (Thread_create i ok) = True"
| "is_combo_attack (Open_file n fd) = True"
| "is_combo_attack e = False"

definition rec_inv :: "rec_state \<Rightarrow> bool" where
  "rec_inv s =
     (length (memory_leaks s) = 30 \<and> leak_count s \<le> 30
      \<and> (\<forall>k<leak_count s. cell_val (memory_leaks s ! k) \<noteq> 0)
      \<and> (\<forall>k<leak_count s. \<not> wild (memory_leaks s ! k))
      \<and> length (rthreads s) = 60 \<and> thread_count s \<le> 60
      \<and> (\<forall>k<thread_count s. rthreads s ! k = Live)
      \<and> length (open_fds s) = 100 \<and> file_count s \<le> 100
      \<and> (\<forall>k<file_count s. open_fds s ! k \<ge> 0)
      \<and> succ_sizes (trace s) = map rec_alloc_size [0..<leak_count s]
      \<and> acquired (trace s) = leak_count s + thread_count s + file_count s)"

text \<open>Two behaviours of the operating system used as concrete inputs.\<close>

definition os_fine :: rec_os where
  "os_fine = \<lparr>rec_malloc = (\<lambda>i. Suc i), rec_create = (\<lambda>i j. True),
              rec_open = (\<lambda>i. 3 + int i), rec_pid = 4242\<rparr>"

definition os_refusing :: rec_os where
  "os_refusing = \<lparr>rec_malloc = (\<lambda>i. 0), rec_create = (\<lambda>i j. False),
                  rec_open = (\<lambda>i. - 1), rec_pid = 4242\<rparr>"

text \<open>How a run of a program that loops until stopped ended, and its last state.\<close>

fun exit_code :: "'a run \<Rightarrow> int option" where
  "exit_code (Exited c s) = Some c"
| "exit_code (Running s) = None"

fun final :: "'a run \<Rightarrow> 'a" where
  "final (Exited c s) = s"
| "final (Running s) = s"

fun is_unlink :: "event \<Rightarrow> bool" where
  "is_unlink (Unlink n) = True"
| "is_unlink e = False"

text \<open>Concrete inputs for the file writer and the I/O storm.\<close>

definition os_full :: fw_os where
  "os_full = \<lparr>fw_fopen = True, fw_malloc = 1, fw_fwrite = (\<lambda>k. 0)\<rparr>"

definition os_short :: ios_os where
  "os_short = \<lparr>ios_malloc = 1, ios_fopen = True,
               ios_fwrite = (\<lambda>k. if k = 3 then 524288 else 1048576), ios_pid = 4242\<rparr>"

text \<open>
  \<open>call_of\<close> gives the function and the arguments of a call that can fail, without
  its result. A call has failed when its result is the failure value of its function:
  a null pointer from \<open>malloc\<close>, a non-zero code from \<open>pthread_create\<close>, a negative
  value from \<open>open\<close>, \<open>fork\<close>, \<open>socket\<close> and \<open>connect\<close>, a null stream from
  \<open>fopen\<close>, a count below the requested one from \<open>fwrite\<close>, a value that is not
  positive from \<open>inet_pton\<close>. Two events are the same call when they are calls of
  the same function with the same arguments. The arguments kept are those that vary in
  the programs: the size of a \<open>malloc\<close> and of an \<open>fwrite\<close>, the slot of the
  thread array that \<open>pthread_create\<close> fills, the name of a file. \<open>fork\<close> takes none;
  \<open>socket\<close>, \<open>inet_pton\<close> and \<open>connect\<close> are called with the same constants
  each time, \<open>connect\<close> on the socket that was just created.

  A program issues a failed call again when its trace holds a failed call and, later,
  the same call. It retries after a report when, after it has reported a failure, it
  makes another attempt.
\<close>

datatype call =
    Call_malloc nat
  | Call_pthread_create nat
  | Call_open string
  | Call_fopen string
  | Call_fwrite nat
  | Call_fork
  | Call_socket
  | Call_inet_pton
  | Call_connect

fun call_of :: "event \<Rightarrow> call option" where
  "call_of (Malloc sz p) = Some (Call_malloc sz)"
| "call_of (Thread_create i ok) = Some (Call_pthread_create i)"
| "call_of (Open_file n fd) = Some (Call_open n)"
| "call_of (Fopen n ok) = Some (Call_fopen n)"
| "call_of (Fwrite n w) = Some (Call_fwrite n)"
| "call_of (Fork pid) = Some Call_fork"
| "call_of (Socket fd) = Some Call_socket"
| "call_of (Inet_pton r) = Some Call_inet_pton"
| "call_of (Connect r) = Some Call_connect"
| "call_of e = None"

fun failed :: "event \<Rightarrow> bool" where
  "failed (Malloc sz p) = (p = 0)"
| "failed (Thread_create i ok) = (\<not> ok)"
| "failed (Open_file n fd) = (fd < 0)"
| "failed (Fopen n ok) = (\<not> ok)"
| "failed (Fwrite n w) = (w < n)"
| "failed (Fork pid) = (pid < 0)"
| "failed (Socket fd) = (fd < 0)"
| "failed (Inet_pton r) = (r \<le> 0)"
| "failed (Connect r) = (r < 0)"
| "failed e = False"

definition same_call :: "event \<Rightarrow> event \<Rightarrow> bool" where
  "same_call e e' = (call_of e \<noteq> None \<and> call_of e' = call_of e)"

fun reissues :: "event list \<Rightarrow> bool" where
  "reissues [] = False"
| "reissues (e # t) = ((failed e \<and> list_ex (same_call e) t) \<or> reissues t)"

fun retries :: "event list \<Rightarrow> bool" where
  "retries [] = False"
| "retries (e # t) = ((is_diag e \<and> list_ex is_attempt t) \<or> retries t)"

text \<open>
  A trace stops at a failure when no call follows a failed call. The calls of a trace
  are thread creations on slots below \<open>n\<close> when it holds no other call.
\<close>

fun stops :: "event list \<Rightarrow> bool" where
  "stops [] = True"
| "stops (e # t) = ((failed e \<longrightarrow> \<not> list_ex is_attempt t) \<and> stops t)"

fun creates_below :: "nat \<Rightarrow> event \<Rightarrow> bool" where
  "creates_below n (Thread_create i ok) = (i < n)"
| "creates_below n e = (\<not> is_attempt e)"

text \<open>
  A trace is settled when it splits into a part without a reported failure and a part
  without an attempt: whatever is reported, no attempt follows it.
\<close>

definition settled :: "event list \<Rightarrow> bool" where
  "settled tr = (\<exists>t r. tr = t @ r \<and> \<not> list_ex is_diag t \<and> \<not> list_ex is_attempt r)"

fun is_burn :: "event \<Rightarrow> bool" where
  "is_burn (Burn b) = True"
| "is_burn e = False"

section \<open>Basic facts\<close>

lemma trace_emit [simp]: "trace (emit es s) = trace s @ es"
  by (simp add: emit_def)

lemma acquired_append [simp]: "acquired (t @ u) = acquired t + acquired u"
  by (simp add: acquired_def)

lemma released_append [simp]: "released (t @ u) = released t + released u"
  by (simp add: released_def)

lemma acquired_Nil [simp]: "acquired [] = 0"
  by (simp add: acquired_def)

lemma released_Nil [simp]: "released [] = 0"
  by (simp add: released_def)

lemma acquired_Cons [simp]: "acquired (e # t) = (if is_acquire e then 1 else 0) + acquired t"
  by (simp add: acquired_def)

lemma released_Cons [simp]: "released (e # t) = (if is_release e then 1 else 0) + released t"
  by (simp add: released_def)

lemma fbg_emit [simp]:
  "threads (emit es s) = threads s" "created_threads (emit es s) = created_threads s"
  by (simp_all add: emit_def)

lemma mlp_emit [simp]:
  "allocations (emit es s) = allocations s" "total_allocated (emit es s) = total_allocated s"
  by (simp_all add: emit_def)

lemma length_stack_array [simp]: "length (stack_array n g) = n"
  by (simp add: stack_array_def)

lemma nth_stack_array [simp]: "k < n \<Longrightarrow> stack_array n g ! k = Uninit (g k)"
  by (simp add: stack_array_def)

lemma mlp_warn_counts [simp]: "acquired (mlp_warn i) = 0" "released (mlp_warn i) = 0"
  by (simp_all add: mlp_warn_def)

lemma mlp_stop_step: "i < 25 \<Longrightarrow> mres i \<noteq> 0 \<Longrightarrow> mlp_stop mres i = mlp_stop mres (Suc i)"
  by (subst mlp_stop.simps) simp

lemma mlp_stop_done: "\<not> (i < 25 \<and> mres i \<noteq> 0) \<Longrightarrow> mlp_stop mres i = i"
  by (subst mlp_stop.simps) auto

lemma mlp_stop_bounds: "i \<le> 25 \<Longrightarrow> i \<le> mlp_stop mres i \<and> mlp_stop mres i \<le> 25"
proof (induction mres i rule: mlp_stop.induct)
  case (1 mres i)
  then show ?case by (subst (1 2) mlp_stop.simps) auto
qed

lemma mlp_stop_ok: "i \<le> k \<Longrightarrow> k < mlp_stop mres i \<Longrightarrow> mres k \<noteq> 0"
proof (induction mres i rule: mlp_stop.induct)
  case (1 mres i)
  have c: "i < 25 \<and> mres i \<noteq> 0"
  proof (rule ccontr)
    assume "\<not> (i < 25 \<and> mres i \<noteq> 0)"
    then have "mlp_stop mres i = i" by (rule mlp_stop_done)
    with "1.prems" show False by simp
  qed
  then have "mlp_stop mres i = mlp_stop mres (Suc i)" by (simp add: mlp_stop_step)
  with "1.IH" [OF c] "1.prems" c show ?case by (cases "k = i") auto
qed

lemma mlp_stop_fail: "i \<le> 25 \<Longrightarrow> mlp_stop mres i < 25 \<Longrightarrow> mres (mlp_stop mres i) = 0"
proof (induction mres i rule: mlp_stop.induct)
  case (1 mres i)
  show ?case
  proof (cases "i < 25 \<and> mres i \<noteq> 0")
    case True
    then have e: "mlp_stop mres i = mlp_stop mres (Suc i)" by (simp add: mlp_stop_step)
    with "1.IH" [OF True] "1.prems" True show ?thesis by simp
  next
    case False
    then have e: "mlp_stop mres i = i" by (rule mlp_stop_done)
    with False "1.prems" show ?thesis by auto
  qed
qed

lemma mlp_leak_done: "\<not> i < 25 \<Longrightarrow> mlp_leak mres i s = s"
  by (subst mlp_leak.simps) simp

lemma mlp_leak_fail:
  "i < 25 \<Longrightarrow> mres i = 0 \<Longrightarrow>
   mlp_leak mres i s =
     emit [Malloc (mlp_alloc_size i) 0,
           Diag Stdout ''[%d/25] Memory allocation FAILED at %zu MB'' [i + 1, mlp_alloc_size i div MB],
           Diag Stdout ''(System limit reached - this is expected)'' []]
       (s\<lparr>allocations := (allocations s)[i := Init 0]\<rparr>)"
  by (subst mlp_leak.simps) (simp add: Let_def emit_def)

lemma mlp_leak_step:
  "i < 25 \<Longrightarrow> mres i \<noteq> 0 \<Longrightarrow>
   mlp_leak mres i s =
     mlp_leak mres (Suc i)
       (emit ([Memset (mres i) 170 (mlp_alloc_size i),
               Print Stdout ''[%d/25] Leaked %zu MB | Total: %zu MB | Growth: +%zu MB/sec''
                 [i + 1, mlp_alloc_size i div MB, (total_allocated s + mlp_alloc_size i) div MB,
                  mlp_alloc_size i div MB],
               Sleep second] @ mlp_warn i)
          ((emit [Malloc (mlp_alloc_size i) (mres i)]
              (s\<lparr>allocations := (allocations s)[i := Init (mres i)]\<rparr>))
           \<lparr>total_allocated := total_allocated s + mlp_alloc_size i\<rparr>))"
  by (subst mlp_leak.simps) (simp add: Let_def)

lemma mlp_leak_cases:
  obtains (over) "\<not> i < 25" | (fail) "i < 25" "mres i = 0" | (step) "i < 25" "mres i \<noteq> 0"
  by blast

lemma mlp_leak_length [simp]: "length (allocations (mlp_leak mres i s)) = length (allocations s)"
proof (induction mres i s rule: mlp_leak.induct)
  case (1 mres i s)
  show ?case
  proof (cases rule: mlp_leak_cases [where i = i and mres = mres])
    case over
    then show ?thesis by (simp add: mlp_leak_done)
  next
    case fail
    then show ?thesis by (simp add: mlp_leak_fail)
  next
    case step
    then show ?thesis using "1.IH" [OF step(1) refl refl refl] by (simp add: mlp_leak_step)
  qed
qed

lemma mlp_leak_counts:
  "i \<le> 25 \<Longrightarrow>
   acquired (trace (mlp_leak mres i s)) = acquired (trace s) + (mlp_stop mres i - i)
   \<and> released (trace (mlp_leak mres i s)) = released (trace s)"
proof (induction mres i s rule: mlp_leak.induct)
  case (1 mres i s)
  show ?case
  proof (cases rule: mlp_leak_cases [where i = i and mres = mres])
    case over
    then show ?thesis by (simp add: mlp_leak_done mlp_stop_done)
  next
    case fail
    then show ?thesis by (simp add: mlp_leak_fail mlp_stop_done)
  next
    case step
    have "Suc i \<le> mlp_stop mres (Suc i)" using mlp_stop_bounds [of "Suc i" mres] step by simp
    then show ?thesis
      using "1.IH" [OF step(1) refl refl refl] step
      by (simp add: mlp_leak_step mlp_stop_step)
  qed
qed

lemma mlp_leak_nth:
  "i \<le> 25 \<Longrightarrow> length (allocations s) = 30 \<Longrightarrow> k < 30 \<Longrightarrow>
   allocations (mlp_leak mres i s) ! k =
     (if i \<le> k \<and> k \<le> mlp_stop mres i \<and> k < 25 then Init (mres k) else allocations s ! k)"
proof (induction mres i s arbitrary: k rule: mlp_leak.induct)
  case (1 mres i s)
  show ?case
  proof (cases rule: mlp_leak_cases [where i = i and mres = mres])
    case over
    then show ?thesis using "1.prems" by (auto simp add: mlp_leak_done mlp_stop_done)
  next
    case fail
    then show ?thesis using "1.prems" by (auto simp add: mlp_leak_fail mlp_stop_done nth_list_update)
  next
    case step
    have "Suc i \<le> mlp_stop mres (Suc i)" using mlp_stop_bounds [of "Suc i" mres] step by simp
    then show ?thesis
      using "1.IH" [OF step(1) refl refl refl, of k] step "1.prems"
      by (auto simp add: mlp_leak_step mlp_stop_step nth_list_update)
  qed
qed


lemma mlp_hold_fields [simp]:
  "allocations (mlp_hold i s) = allocations s"
  "acquired (trace (mlp_hold i s)) = acquired (trace s)"
  "released (trace (mlp_hold i s)) = released (trace s)"
proof (induction i s rule: mlp_hold.induct)
  case (1 i s)
  { case 1 show ?case using "1.IH" by (subst mlp_hold.simps) simp }
  { case 2 show ?case using "1.IH" by (subst mlp_hold.simps) simp }
  { case 3 show ?case using "1.IH" by (subst mlp_hold.simps) simp }
qed

lemma emit_emit [simp]: "emit b (emit a s) = emit (a @ b) s"
  by (simp add: emit_def)

lemma emit_Nil [simp]: "emit [] s = s"
  by (simp add: emit_def)

lemma free_if_set_eq:
  "free_if_set i c s =
     (if wild c then Dead (emit (cell_events i c) s) else Alive (emit (cell_events i c) s))"
  by (cases c) (simp_all add: free_if_set_def cell_events_def)

lemma free_all_done: "\<not> i < n \<Longrightarrow> free_all a n i s = Alive s"
  by (subst free_all.simps) simp

lemma free_all_wild:
  "i < n \<Longrightarrow> wild (a ! i) \<Longrightarrow> free_all a n i s = Dead (emit (cell_events i (a ! i)) s)"
  by (subst free_all.simps) (simp add: free_if_set_eq)

lemma free_all_next:
  "i < n \<Longrightarrow> \<not> wild (a ! i) \<Longrightarrow>
   free_all a n i s = free_all a n (Suc i) (emit (cell_events i (a ! i)) s)"
  by (subst free_all.simps) (simp add: free_if_set_eq)

lemma halt_done: "\<not> i < n \<Longrightarrow> halt a n i = i"
  by (subst halt.simps) simp

lemma halt_wild: "i < n \<Longrightarrow> wild (a ! i) \<Longrightarrow> halt a n i = Suc i"
  by (subst halt.simps) simp

lemma halt_next: "i < n \<Longrightarrow> \<not> wild (a ! i) \<Longrightarrow> halt a n i = halt a n (Suc i)"
  by (subst halt.simps) simp

lemma halt_bounds: "i \<le> n \<Longrightarrow> i \<le> halt a n i \<and> halt a n i \<le> n"
proof (induction "n - i" arbitrary: i)
  case 0
  then show ?case by (simp add: halt_done)
next
  case (Suc d)
  then have i: "i < n" by simp
  show ?case
  proof (cases "wild (a ! i)")
    case True
    then show ?thesis using i by (simp add: halt_wild)
  next
    case False
    have "Suc i \<le> halt a n (Suc i) \<and> halt a n (Suc i) \<le> n"
      using Suc(2) i by (intro Suc(1)) simp_all
    then show ?thesis using i False by (simp add: halt_next)
  qed
qed

lemma halt_none:
  "i \<le> n \<Longrightarrow> (\<And>k. i \<le> k \<Longrightarrow> k < n \<Longrightarrow> \<not> wild (a ! k)) \<Longrightarrow> halt a n i = n"
proof (induction "n - i" arbitrary: i)
  case 0
  then show ?case by (simp add: halt_done)
next
  case (Suc d)
  then have i: "i < n" by simp
  have "halt a n (Suc i) = n"
    using Suc(2) i Suc(4) by (intro Suc(1)) simp_all
  then show ?case using i Suc(4) [of i] by (simp add: halt_next)
qed

lemma halt_first:
  "i \<le> w \<Longrightarrow> w < n \<Longrightarrow> wild (a ! w) \<Longrightarrow> (\<And>k. i \<le> k \<Longrightarrow> k < w \<Longrightarrow> \<not> wild (a ! k)) \<Longrightarrow>
   halt a n i = Suc w"
proof (induction "w - i" arbitrary: i)
  case 0
  then have "i = w" by simp
  then show ?case using 0 by (simp add: halt_wild)
next
  case (Suc d)
  then have i: "i < w" by simp
  have "halt a n (Suc i) = Suc w"
    using Suc(2) i Suc(4,5,6) by (intro Suc(1)) simp_all
  then show ?case using i Suc(4) Suc(6) [of i] by (simp add: halt_next)
qed

lemma halt_cases:
  obtains (none) "\<And>k. k < n \<Longrightarrow> \<not> wild (a ! k)" "halt a n 0 = n"
  | (first) w where "w < n" "wild (a ! w)" "\<And>k. k < w \<Longrightarrow> \<not> wild (a ! k)"
      "halt a n 0 = Suc w"
proof (cases "\<exists>k. k < n \<and> wild (a ! k)")
  case False
  then have h: "\<And>k. k < n \<Longrightarrow> \<not> wild (a ! k)" by blast
  have "halt a n 0 = n" by (rule halt_none) (simp_all add: h)
  then show ?thesis using none h by blast
next
  case True
  define w where "w = (LEAST k. k < n \<and> wild (a ! k))"
  have p: "w < n \<and> wild (a ! w)"
    unfolding w_def using True by (rule LeastI_ex)
  have m: "\<not> wild (a ! k)" if "k < w" for k
  proof
    assume "wild (a ! k)"
    then have "k < n \<and> wild (a ! k)" using that p by simp
    then have "w \<le> k" unfolding w_def by (rule Least_le)
    with that show False by simp
  qed
  have "halt a n 0 = Suc w" using p m by (intro halt_first) simp_all
  then show ?thesis using first [of w] p m by blast
qed

lemma swept_Nil [simp]: "swept a i i = []"
  by (simp add: swept_def)

lemma swept_Cons: "i < m \<Longrightarrow> swept a i m = cell_events i (a ! i) @ swept a (Suc i) m"
  by (simp add: swept_def upt_conv_Cons)

lemma swept_snoc: "i \<le> m \<Longrightarrow> swept a i (Suc m) = swept a i m @ cell_events m (a ! m)"
  by (simp add: swept_def)

lemma free_all_eq:
  "i \<le> n \<Longrightarrow>
   free_all a n i s =
     (if \<forall>k. i \<le> k \<and> k < n \<longrightarrow> \<not> wild (a ! k)
      then Alive (emit (swept a i (halt a n i)) s)
      else Dead (emit (swept a i (halt a n i)) s))"
proof (induction "n - i" arbitrary: i s)
  case 0
  then show ?case by (simp add: free_all_done halt_done)
next
  case (Suc d)
  then have i: "i < n" by simp
  show ?case
  proof (cases "wild (a ! i)")
    case True
    have "\<not> (\<forall>k. i \<le> k \<and> k < n \<longrightarrow> \<not> wild (a ! k))" using True i by blast
    then show ?thesis using i True by (simp add: free_all_wild halt_wild swept_Cons)
  next
    case False
    have b: "Suc i \<le> halt a n (Suc i)" using halt_bounds [of "Suc i" n a] i by simp
    have q: "(\<forall>k. i \<le> k \<and> k < n \<longrightarrow> \<not> wild (a ! k))
               = (\<forall>k. Suc i \<le> k \<and> k < n \<longrightarrow> \<not> wild (a ! k))"
    proof
      assume "\<forall>k. i \<le> k \<and> k < n \<longrightarrow> \<not> wild (a ! k)"
      then show "\<forall>k. Suc i \<le> k \<and> k < n \<longrightarrow> \<not> wild (a ! k)" by simp
    next
      assume h: "\<forall>k. Suc i \<le> k \<and> k < n \<longrightarrow> \<not> wild (a ! k)"
      show "\<forall>k. i \<le> k \<and> k < n \<longrightarrow> \<not> wild (a ! k)"
      proof (intro allI impI)
        fix k assume k: "i \<le> k \<and> k < n"
        show "\<not> wild (a ! k)"
        proof (cases "k = i")
          case True
          then show ?thesis using False by simp
        next
          case False
          then have "Suc i \<le> k \<and> k < n" using k by simp
          then show ?thesis using h by blast
        qed
      qed
    qed
    have ih: "free_all a n (Suc i) (emit (cell_events i (a ! i)) s) =
        (if \<forall>k. Suc i \<le> k \<and> k < n \<longrightarrow> \<not> wild (a ! k)
         then Alive (emit (swept a (Suc i) (halt a n (Suc i))) (emit (cell_events i (a ! i)) s))
         else Dead (emit (swept a (Suc i) (halt a n (Suc i))) (emit (cell_events i (a ! i)) s)))"
      using Suc(2) i by (intro Suc(1)) simp_all
    have sw: "swept a i (halt a n (Suc i)) = cell_events i (a ! i) @ swept a (Suc i) (halt a n (Suc i))"
      using b by (intro swept_Cons) simp
    have st: "free_all a n i s = free_all a n (Suc i) (emit (cell_events i (a ! i)) s)"
      using i False by (rule free_all_next)
    have hn: "halt a n i = halt a n (Suc i)" using i False by (rule halt_next)
    show ?thesis
      unfolding st ih hn q sw by simp
  qed
qed

lemma free_all_state:
  "i \<le> n \<Longrightarrow> state_of (free_all a n i s) = emit (swept a i (halt a n i)) s"
  by (simp add: free_all_eq)

lemma free_all_alive:
  "i \<le> n \<Longrightarrow> (\<And>k. i \<le> k \<Longrightarrow> k < n \<Longrightarrow> \<not> wild (a ! k)) \<Longrightarrow>
   free_all a n i s = Alive (emit (swept a i n) s)"
  using halt_none [of i n a] by (simp add: free_all_eq)

lemma cell_events_counts [simp]:
  "acquired (cell_events i c) = 0"
  "released (cell_events i c) = (if cell_val c \<noteq> 0 then 1 else 0)"
  by (simp_all add: cell_events_def)

lemma cell_events_cleanup: "list_all is_cleanup (cell_events i c)"
  by (simp add: cell_events_def)

lemma swept_cleanup: "list_all is_cleanup (swept a i m)"
  by (simp add: swept_def list_all_iff cell_events_def)

lemma swept_acquired [simp]: "acquired (swept a i m) = 0"
proof (induction m)
  case 0
  then show ?case by (simp add: swept_def)
next
  case (Suc m)
  show ?case
  proof (cases "i \<le> m")
    case True
    then show ?thesis using Suc by (simp add: swept_snoc)
  next
    case False
    then show ?thesis by (simp add: swept_def)
  qed
qed

lemma swept_released:
  "released (swept a i m) = length (filter (\<lambda>k. cell_val (a ! k) \<noteq> 0) [i..<m])"
proof (induction m)
  case 0
  then show ?case by (simp add: swept_def)
next
  case (Suc m)
  show ?case
  proof (cases "i \<le> m")
    case True
    then show ?thesis using Suc by (simp add: swept_snoc)
  next
    case False
    then show ?thesis by (simp add: swept_def)
  qed
qed

lemma swept_reads:
  "list_ex (reads_entry k) (swept a i m) = (i \<le> k \<and> k < m)"
  by (auto simp: swept_def list_ex_iff cell_events_def split: if_splits)

lemma swept_loads:
  "(Load k c \<in> set (swept a i m)) = (i \<le> k \<and> k < m \<and> c = a ! k)"
  by (auto simp: swept_def cell_events_def split: if_splits)

lemma mlp_attack_counts:
  "acquired (trace (mlp_attack mres g)) = mlp_stop mres 0"
  "released (trace (mlp_attack mres g)) = 0"
  using mlp_leak_counts [of 0 mres "emit [Print Stdout ''Phase 1/2: Starting memory leak...'' []] (mlp_init g)"]
  by (simp_all add: mlp_attack_def mlp_init_def)

lemma mlp_attack_nth:
  "k < 30 \<Longrightarrow>
   allocations (mlp_attack mres g) ! k =
     (if k \<le> mlp_stop mres 0 \<and> k < 25 then Init (mres k) else Uninit (g k))"
  using mlp_leak_nth [of 0 "emit [Print Stdout ''Phase 1/2: Starting memory leak...'' []] (mlp_init g)" k mres]
  by (simp add: mlp_attack_def mlp_init_def)

lemma returns_simps [simp]:
  "snd (returns c f) = state_of f"
  "fst (returns c (Alive s)) = Exit c" "fst (returns c (Dead s)) = Killed"
  by (cases f) (simp_all add: returns_def)

lemma mlp_sustained_allocations [simp]:
  "allocations (mlp_sustained mres g) = allocations (mlp_attack mres g)"
  by (simp add: mlp_sustained_def Let_def)

lemma mlp_attack_length [simp]: "length (allocations (mlp_attack mres g)) = 30"
  by (simp add: mlp_attack_def mlp_init_def)

lemma mlp_sustained_counts:
  "acquired (trace (mlp_sustained mres g)) = mlp_stop mres 0"
  "released (trace (mlp_sustained mres g)) = 0"
  by (simp_all add: mlp_sustained_def Let_def mlp_attack_counts)

lemma mlp_main_state:
  "snd (mlp_main mres g) =
     emit (swept (allocations (mlp_attack mres g)) 0 (halt (allocations (mlp_attack mres g)) 30 0))
       (mlp_sustained mres g)"
  by (simp add: mlp_main_def mlp_cleanup_def free_all_state)

lemma mlp_main_allocations [simp]:
  "allocations (snd (mlp_main mres g)) = allocations (mlp_attack mres g)"
  by (simp add: mlp_main_state)

lemma mlp_main_counts:
  "acquired (trace (snd (mlp_main mres g))) = mlp_stop mres 0"
  "released (trace (snd (mlp_main mres g))) =
     length (filter (\<lambda>k. cell_val (allocations (mlp_attack mres g) ! k) \<noteq> 0)
               [0..<halt (allocations (mlp_attack mres g)) 30 0])"
  by (simp_all add: mlp_main_state mlp_sustained_counts swept_released)

lemma mlp_unwritten_eq:
  "mlp_unwritten (trace (snd (mlp_main mres g))) =
     (if mlp_stop mres 0 < 25 then Suc (mlp_stop mres 0) else 25)"
  by (simp add: mlp_unwritten_def mlp_main_counts)

lemma mlp_unwritten_cell:
  "k < 30 \<Longrightarrow>
   allocations (mlp_attack mres g) ! k =
     (if k < mlp_unwritten (trace (snd (mlp_main mres g))) then Init (mres k) else Uninit (g k))"
  using mlp_stop_bounds [of 0 mres] by (auto simp: mlp_unwritten_eq mlp_attack_nth)

lemma mlp_written_val:
  "k < mlp_unwritten (trace (snd (mlp_main mres g))) \<Longrightarrow>
   (mres k \<noteq> 0) = (k < acquired (trace (snd (mlp_main mres g))))"
proof -
  assume k: "k < mlp_unwritten (trace (snd (mlp_main mres g)))"
  let ?n = "mlp_stop mres 0"
  have n: "?n \<le> 25" using mlp_stop_bounds [of 0 mres] by simp
  show ?thesis
  proof (cases "k < ?n")
    case True
    then show ?thesis using mlp_stop_ok [of 0 k mres] by (simp add: mlp_main_counts)
  next
    case False
    then have "k = ?n" "?n < 25" using k n by (auto simp: mlp_unwritten_eq split: if_splits)
    then show ?thesis using mlp_stop_fail [of 0 mres] by (simp add: mlp_main_counts)
  qed
qed

lemma mlp_wild:
  "k < 30 \<Longrightarrow>
   wild (allocations (mlp_attack mres g) ! k) =
     (mlp_unwritten (trace (snd (mlp_main mres g))) \<le> k \<and> g k \<noteq> 0)"
  by (simp add: mlp_unwritten_cell)

lemma mlp_live:
  "k < 30 \<Longrightarrow>
   (0 < cell_val (allocations (mlp_attack mres g) ! k)) =
     (k < acquired (trace (snd (mlp_main mres g)))
      \<or> mlp_unwritten (trace (snd (mlp_main mres g))) \<le> k \<and> g k \<noteq> 0)"
proof -
  assume k: "k < 30"
  have "acquired (trace (snd (mlp_main mres g))) < mlp_unwritten (trace (snd (mlp_main mres g)))
        \<or> acquired (trace (snd (mlp_main mres g))) = 25"
    using mlp_stop_bounds [of 0 mres] by (auto simp: mlp_unwritten_def mlp_main_counts)
  then show ?thesis
    using k mlp_written_val [of k mres g] by (auto simp: mlp_unwritten_cell mlp_unwritten_def split: if_splits)
qed

lemma mlp_halt_cases:
  obtains (clean) "\<And>k. mlp_unwritten (trace (snd (mlp_main mres g))) \<le> k \<Longrightarrow> k < 30 \<Longrightarrow> g k = 0"
      "halt (allocations (mlp_attack mres g)) 30 0 = 30"
  | (wild) w where "mlp_unwritten (trace (snd (mlp_main mres g))) \<le> w" "w < 30" "g w \<noteq> 0"
      "\<And>k. mlp_unwritten (trace (snd (mlp_main mres g))) \<le> k \<Longrightarrow> k < w \<Longrightarrow> g k = 0"
      "halt (allocations (mlp_attack mres g)) 30 0 = Suc w"
proof (cases rule: halt_cases [where n = 30 and a = "allocations (mlp_attack mres g)"])
  case none
  have "g k = 0" if "mlp_unwritten (trace (snd (mlp_main mres g))) \<le> k" "k < 30" for k
    using none(1) [of k] that by (simp add: mlp_wild)
  then show ?thesis using clean none(2) by blast
next
  case (first w)
  have a: "mlp_unwritten (trace (snd (mlp_main mres g))) \<le> w \<and> g w \<noteq> 0"
    using first(1,2) by (simp add: mlp_wild)
  have b: "g k = 0" if "mlp_unwritten (trace (snd (mlp_main mres g))) \<le> k" "k < w" for k
    using first(3) [of k] first(1) that by (simp add: mlp_wild)
  show ?thesis using wild [of w] a b first(1,4) by blast
qed

lemma mlp_main_fate:
  "fst (mlp_main mres g) =
     (if \<exists>k. mlp_unwritten (trace (snd (mlp_main mres g))) \<le> k \<and> k < 30 \<and> g k \<noteq> 0
      then Killed else Exit 0)"
proof -
  have "(\<exists>k. mlp_unwritten (trace (snd (mlp_main mres g))) \<le> k \<and> k < 30 \<and> g k \<noteq> 0)
          = (\<not> (\<forall>k. 0 \<le> k \<and> k < 30 \<longrightarrow> \<not> wild (allocations (mlp_attack mres g) ! k)))"
    using mlp_wild [of _ mres g] by auto
  then show ?thesis
    by (simp add: mlp_main_def mlp_cleanup_def free_all_eq)
qed

lemma count_upt_card:
  "length (filter P [i..<m]) = card {k. i \<le> k \<and> k < m \<and> P k}"
proof -
  have "length (filter P [i..<m]) = card (set (filter P [i..<m]))"
    by (rule distinct_card [symmetric]) simp
  also have "set (filter P [i..<m]) = {k. i \<le> k \<and> k < m \<and> P k}" by auto
  finally show ?thesis .
qed

lemma mlp_balance:
  "released (trace (snd (mlp_main mres g))) =
     acquired (trace (snd (mlp_main mres g)))
     + (if list_ex (\<lambda>k. g k \<noteq> 0) [mlp_unwritten (trace (snd (mlp_main mres g)))..<30] then 1 else 0)"
proof -
  let ?t = "trace (snd (mlp_main mres g))"
  let ?a = "allocations (mlp_attack mres g)"
  let ?P = "\<lambda>k. cell_val (?a ! k) \<noteq> 0"
  have n: "acquired ?t \<le> 25" "acquired ?t \<le> mlp_unwritten ?t" "mlp_unwritten ?t \<le> 25"
    using mlp_stop_bounds [of 0 mres] by (auto simp: mlp_main_counts mlp_unwritten_def)
  have r: "released ?t = card {k. 0 \<le> k \<and> k < halt ?a 30 0 \<and> ?P k}"
    by (simp only: mlp_main_counts count_upt_card)
  show ?thesis
  proof (cases rule: mlp_halt_cases [of mres g])
    case clean
    have "{k. 0 \<le> k \<and> k < halt ?a 30 0 \<and> ?P k} = {0..<acquired ?t}"
      using clean n by (auto simp: mlp_live)
    moreover have "\<not> list_ex (\<lambda>k. g k \<noteq> 0) [mlp_unwritten ?t..<30]"
      using clean(1) by (auto simp: list_ex_iff)
    ultimately show ?thesis using r by simp
  next
    case (wild w)
    have "{k. 0 \<le> k \<and> k < halt ?a 30 0 \<and> ?P k} = insert w {0..<acquired ?t}"
    proof (rule set_eqI)
      fix k
      show "(k \<in> {k. 0 \<le> k \<and> k < halt ?a 30 0 \<and> ?P k}) = (k \<in> insert w {0..<acquired ?t})"
        using wild n mlp_live [of k mres g] by (cases "k = w"; cases "k < w") auto
    qed
    moreover have "w \<notin> {0..<acquired ?t}" using wild(1) n by simp
    moreover have "list_ex (\<lambda>k. g k \<noteq> 0) [mlp_unwritten ?t..<30]"
      using wild(1,2,3) by (auto simp: list_ex_iff)
    ultimately show ?thesis using r by simp
  qed
qed

lemma mlp_stop_all_ok: "(\<And>k. k < 25 \<Longrightarrow> mres k \<noteq> 0) \<Longrightarrow> mlp_stop mres 0 = 25"
  using mlp_stop_fail [of 0 mres] mlp_stop_bounds [of 0 mres]
  by (metis le_neq_implies_less zero_le)

section \<open>How traces grow\<close>

lemma grows_refl [simp]: "grows K t t"
  by (simp add: grows_def)

lemma grows_trans: "grows K t u \<Longrightarrow> grows K u v \<Longrightarrow> grows K t v"
  by (auto simp: grows_def)

lemma grows_emit: "list_all K es \<Longrightarrow> grows K (trace s) (trace (emit es s))"
  by (simp add: grows_def)

lemma grows_emit_trans: "list_all K es \<Longrightarrow> grows K (trace (emit es s)) t \<Longrightarrow> grows K (trace s) t"
  using grows_trans [OF grows_emit] by blast

lemma grows_append: "grows K (t @ es) u \<Longrightarrow> list_all K es \<Longrightarrow> grows K t u"
  by (auto simp: grows_def)

lemma grows_weaken: "grows K t u \<Longrightarrow> (\<And>e. K e \<Longrightarrow> K' e) \<Longrightarrow> grows K' t u"
  by (auto simp: grows_def list_all_iff)

lemma grows_set: "grows K t u \<Longrightarrow> set t \<subseteq> set u"
  by (auto simp: grows_def)

lemma narration_calm: "is_narration e \<Longrightarrow> calm e"
  by (cases e) (simp_all add: calm_def)

lemma cleanup_calm: "is_cleanup e \<Longrightarrow> calm e"
  by (cases e) (simp_all add: calm_def)

lemma succ_sizes_append [simp]: "succ_sizes (t @ u) = succ_sizes t @ succ_sizes u"
  by (simp add: succ_sizes_def)

lemma succ_sizes_Nil [simp]: "succ_sizes [] = []"
  by (simp add: succ_sizes_def)

lemma succ_sizes_Cons [simp]: "succ_sizes (e # t) = malloc_ok_size e @ succ_sizes t"
  by (simp add: succ_sizes_def)

lemma calm_sizes: "list_all calm r \<Longrightarrow> succ_sizes r = []"
proof (induction r)
  case Nil
  then show ?case by simp
next
  case (Cons e r)
  then show ?case by (cases e) (simp_all add: calm_def)
qed

lemma calm_acquired: "list_all calm r \<Longrightarrow> acquired r = 0"
proof (induction r)
  case Nil
  then show ?case by simp
next
  case (Cons e r)
  then show ?case by (cases e) (simp_all add: calm_def)
qed

lemma calm_no_attempt: "list_all calm r \<Longrightarrow> \<not> list_ex is_attempt r"
  by (auto simp: list_all_iff list_ex_iff calm_def)

lemma calm_no_diag: "list_all calm r \<Longrightarrow> \<not> list_ex is_diag r"
  by (auto simp: list_all_iff list_ex_iff calm_def)

section \<open>Facts about the progressive memory leak\<close>

lemma mlp_hold_grows: "grows is_narration (trace s) (trace (mlp_hold i s))"
proof (induction i s rule: mlp_hold.induct)
  case (1 i s)
  show ?case
  proof (cases "i < 5")
    case True
    show ?thesis
      using "1.IH" [OF True] True
      by (subst mlp_hold.simps) (auto elim!: grows_append)
  next
    case False
    then show ?thesis by (subst mlp_hold.simps) simp
  qed
qed

lemma mlp_sustained_grows:
  "\<exists>r. trace (mlp_sustained mres g) = trace (mlp_attack mres g) @ r
       \<and> list_all is_narration r \<and> Print Stdout ''Cleaning up allocations...'' [] \<in> set r"
proof -
  let ?s1 = "mlp_attack mres g"
  let ?a = "emit [Print Stdout ''Phase 2/2: Memory leak sustained (NOT cleaning up)...'' [],
                  Print Stdout ''Holding %zu MB allocated for 5 seconds...'' [total_allocated ?s1 div MB]] ?s1"
  let ?s2 = "mlp_hold 0 ?a"
  obtain r1 where r1: "trace ?s2 = trace ?a @ r1" "list_all is_narration r1"
    using mlp_hold_grows [of ?a 0] by (auto simp: grows_def)
  let ?r = "[Print Stdout ''Phase 2/2: Memory leak sustained (NOT cleaning up)...'' [],
             Print Stdout ''Holding %zu MB allocated for 5 seconds...'' [total_allocated ?s1 div MB]]
            @ r1 @ [Print Stdout ''Total Memory Leaked: %zu MB'' [total_allocated ?s2 div MB],
                    Print Stdout ''Cleaning up allocations...'' []]"
  have "trace (mlp_sustained mres g) = trace ?s1 @ ?r"
    using r1(1) by (simp add: mlp_sustained_def Let_def)
  moreover have "list_all is_narration ?r" using r1(2) by simp
  moreover have "Print Stdout ''Cleaning up allocations...'' [] \<in> set ?r" by simp
  ultimately show ?thesis by blast
qed

lemma mlp_epilogue:
  "\<exists>r. trace (snd (mlp_main mres g)) = trace (mlp_attack mres g) @ r
       \<and> list_all calm r \<and> Print Stdout ''Cleaning up allocations...'' [] \<in> set r"
proof -
  let ?a = "allocations (mlp_attack mres g)"
  obtain r where r: "trace (mlp_sustained mres g) = trace (mlp_attack mres g) @ r"
      "list_all is_narration r" "Print Stdout ''Cleaning up allocations...'' [] \<in> set r"
    using mlp_sustained_grows [of mres g] by blast
  have c1: "list_all calm r" using r(2) by (auto simp: list_all_iff narration_calm)
  have c2: "list_all calm (swept ?a 0 (halt ?a 30 0))"
    using swept_cleanup [of ?a 0 "halt ?a 30 0"] by (auto simp: list_all_iff cleanup_calm)
  have "trace (snd (mlp_main mres g)) = trace (mlp_attack mres g) @ (r @ swept ?a 0 (halt ?a 30 0))"
    using r(1) by (simp add: mlp_main_state)
  moreover have "list_all calm (r @ swept ?a 0 (halt ?a 30 0))" using c1 c2 by simp
  moreover have "Print Stdout ''Cleaning up allocations...'' [] \<in> set (r @ swept ?a 0 (halt ?a 30 0))"
    using r(3) by simp
  ultimately show ?thesis by blast
qed

lemma mlp_leak_no_reads:
  "\<not> list_ex (reads_entry k) (trace s) \<Longrightarrow> \<not> list_ex (reads_entry k) (trace (mlp_leak mres i s))"
proof (induction mres i s rule: mlp_leak.induct)
  case (1 mres i s)
  show ?case
  proof (cases rule: mlp_leak_cases [where i = i and mres = mres])
    case over
    then show ?thesis using "1.prems" by (simp add: mlp_leak_done)
  next
    case fail
    then show ?thesis using "1.prems" by (simp add: mlp_leak_fail)
  next
    case step
    then show ?thesis
      using "1.IH" [OF step(1) refl refl refl] "1.prems" by (simp add: mlp_leak_step mlp_warn_def)
  qed
qed

lemma narration_no_reads: "list_all is_narration r \<Longrightarrow> \<not> list_ex (reads_entry k) r"
proof (induction r)
  case Nil
  then show ?case by simp
next
  case (Cons e r)
  then show ?case by (cases e) simp_all
qed

lemma mlp_sustained_no_reads: "\<not> list_ex (reads_entry k) (trace (mlp_sustained mres g))"
proof -
  obtain r where r: "trace (mlp_sustained mres g) = trace (mlp_attack mres g) @ r"
      "list_all is_narration r"
    using mlp_sustained_grows [of mres g] by blast
  have "\<not> list_ex (reads_entry k) (trace (mlp_attack mres g))"
    unfolding mlp_attack_def by (rule mlp_leak_no_reads) (simp add: mlp_init_def)
  then show ?thesis using r narration_no_reads [of r k] by simp
qed

lemma load_reads: "Load k c \<in> set t \<Longrightarrow> list_ex (reads_entry k) t"
  by (auto simp: list_ex_iff intro: bexI [of _ "Load k c"])

lemma mlp_main_reads:
  "list_ex (reads_entry k) (trace (snd (mlp_main mres g)))
     = (k < halt (allocations (mlp_attack mres g)) 30 0)"
  using mlp_sustained_no_reads [of k mres g] by (simp add: mlp_main_state swept_reads)

lemma mlp_main_loads:
  "(Load k c \<in> set (trace (snd (mlp_main mres g))))
     = (k < halt (allocations (mlp_attack mres g)) 30 0 \<and> c = allocations (mlp_attack mres g) ! k)"
  using mlp_sustained_no_reads [of k mres g] load_reads [of k c "trace (mlp_sustained mres g)"]
  by (auto simp: mlp_main_state swept_loads)

lemma mlp_reads_iff:
  "k < 30 \<Longrightarrow>
   list_ex (reads_entry k) (trace (snd (mlp_main mres g)))
     = (\<forall>j. mlp_unwritten (trace (snd (mlp_main mres g))) \<le> j \<and> j < k \<longrightarrow> g j = 0)"
proof (cases rule: mlp_halt_cases [of mres g])
  case clean
  assume "k < 30"
  then show ?thesis using clean by (simp add: mlp_main_reads)
next
  case (wild w)
  assume "k < 30"
  show ?thesis
  proof (cases "k \<le> w")
    case True
    then show ?thesis using wild by (simp add: mlp_main_reads)
  next
    case False
    then have "mlp_unwritten (trace (snd (mlp_main mres g))) \<le> w \<and> w < k \<and> g w \<noteq> 0"
      using wild by simp
    then show ?thesis using False wild(5) by (auto simp: mlp_main_reads)
  qed
qed

lemma mlp_killed_tail:
  "mlp_unwritten (trace (snd (mlp_main mres g))) \<le> k \<Longrightarrow> k < 30 \<Longrightarrow> g k \<noteq> 0 \<Longrightarrow>
   (\<And>j. mlp_unwritten (trace (snd (mlp_main mres g))) \<le> j \<Longrightarrow> j < k \<Longrightarrow> g j = 0) \<Longrightarrow>
   \<exists>t. trace (snd (mlp_main mres g)) = t @ [Load k (Uninit (g k)), Free (g k)]"
proof -
  assume k: "mlp_unwritten (trace (snd (mlp_main mres g))) \<le> k" "k < 30" "g k \<noteq> 0"
    and z: "\<And>j. mlp_unwritten (trace (snd (mlp_main mres g))) \<le> j \<Longrightarrow> j < k \<Longrightarrow> g j = 0"
  let ?a = "allocations (mlp_attack mres g)"
  have w: "wild (?a ! k)" using k by (simp add: mlp_wild)
  have "\<not> wild (?a ! j)" if "j < k" for j
    using that k(2) z [of j] by (simp add: mlp_wild)
  then have h: "halt ?a 30 0 = Suc k" using w k(2) by (intro halt_first) simp_all
  have c: "?a ! k = Uninit (g k)" using k by (simp add: mlp_unwritten_cell)
  have "trace (snd (mlp_main mres g)) =
      (trace (mlp_sustained mres g) @ swept ?a 0 k) @ [Load k (Uninit (g k)), Free (g k)]"
    using k(3) by (simp add: mlp_main_state h swept_snoc c cell_events_def)
  then show ?thesis by blast
qed

lemma mlp_warn_sizes [simp]: "succ_sizes (mlp_warn i) = []"
  by (simp add: mlp_warn_def)

lemma mlp_leak_sizes:
  "i \<le> 25 \<Longrightarrow>
   succ_sizes (trace (mlp_leak mres i s)) =
     succ_sizes (trace s) @ map mlp_alloc_size [i..<mlp_stop mres i]"
proof (induction mres i s rule: mlp_leak.induct)
  case (1 mres i s)
  show ?case
  proof (cases rule: mlp_leak_cases [where i = i and mres = mres])
    case over
    then show ?thesis by (simp add: mlp_leak_done mlp_stop_done)
  next
    case fail
    then show ?thesis by (simp add: mlp_leak_fail mlp_stop_done)
  next
    case step
    have "Suc i \<le> mlp_stop mres (Suc i)" using mlp_stop_bounds [of "Suc i" mres] step by simp
    then have "[i..<mlp_stop mres (Suc i)] = i # [Suc i..<mlp_stop mres (Suc i)]"
      by (intro upt_conv_Cons) simp
    then show ?thesis
      using "1.IH" [OF step(1) refl refl refl] step
      by (simp add: mlp_leak_step mlp_stop_step)
  qed
qed

lemma mlp_main_sizes:
  "succ_sizes (trace (snd (mlp_main mres g))) = map mlp_alloc_size [0..<mlp_stop mres 0]"
proof -
  obtain r where r: "trace (snd (mlp_main mres g)) = trace (mlp_attack mres g) @ r" "list_all calm r"
    using mlp_epilogue [of mres g] by blast
  have "succ_sizes (trace (mlp_attack mres g)) = map mlp_alloc_size [0..<mlp_stop mres 0]"
    using mlp_leak_sizes [of 0 mres] by (simp add: mlp_attack_def mlp_init_def)
  then show ?thesis using r by (simp add: calm_sizes)
qed

lemma mlp_leak_trace_fail:
  "i \<le> 25 \<Longrightarrow> mlp_stop mres i < 25 \<Longrightarrow>
   \<exists>t. trace (mlp_leak mres i s) =
     t @ [Malloc (mlp_alloc_size (mlp_stop mres i)) 0,
          Diag Stdout ''[%d/25] Memory allocation FAILED at %zu MB''
            [mlp_stop mres i + 1, mlp_alloc_size (mlp_stop mres i) div MB],
          Diag Stdout ''(System limit reached - this is expected)'' []]"
proof (induction mres i s rule: mlp_leak.induct)
  case (1 mres i s)
  show ?case
  proof (cases rule: mlp_leak_cases [where i = i and mres = mres])
    case over
    then show ?thesis using "1.prems" by (simp add: mlp_stop_done)
  next
    case fail
    then show ?thesis by (simp add: mlp_leak_fail mlp_stop_done)
  next
    case step
    then show ?thesis
      using "1.IH" [OF step(1) refl refl refl] step "1.prems"
      by (simp add: mlp_leak_step mlp_stop_step)
  qed
qed

lemma mlp_stop_first_fail:
  "i < 25 \<Longrightarrow> mres i = 0 \<Longrightarrow> (\<And>j. j < i \<Longrightarrow> mres j \<noteq> 0) \<Longrightarrow> mlp_stop mres 0 = i"
proof -
  assume i: "i < 25" and z: "mres i = 0" and ok: "\<And>j. j < i \<Longrightarrow> mres j \<noteq> 0"
  let ?n = "mlp_stop mres 0"
  have "\<not> i < ?n" using mlp_stop_ok [of 0 i mres] z by auto
  moreover have "\<not> ?n < i"
  proof
    assume l: "?n < i"
    then have "mres ?n = 0" using mlp_stop_fail [of 0 mres] i by simp
    with ok [OF l] show False by simp
  qed
  ultimately show ?thesis by simp
qed



section \<open>Facts about the combo generator\<close>

declare grows_trans [trans]

lemma rec_emit [simp]:
  "memory_leaks (emit es s) = memory_leaks s" "leak_count (emit es s) = leak_count s"
  "rthreads (emit es s) = rthreads s" "thread_count (emit es s) = thread_count s"
  "open_fds (emit es s) = open_fds s" "file_count (emit es s) = file_count s"
  by (simp_all add: emit_def)

lemma rec_inv_emit:
  "rec_inv s \<Longrightarrow> list_all is_narration es \<Longrightarrow> rec_inv (emit es s)"
  by (simp add: rec_inv_def calm_sizes calm_acquired list_all_iff narration_calm)

lemma rec_inv_init: "rec_inv (rec_init g)"
  by (simp add: rec_inv_def rec_init_def)

lemma rec_leak_inv: "rec_inv s \<Longrightarrow> rec_inv (rec_leak os i s)"
  by (auto simp: rec_inv_def rec_leak_def Let_def nth_list_update less_Suc_eq)

lemma rec_leak_grows: "grows is_combo_attack (trace s) (trace (rec_leak os i s))"
  by (auto simp: rec_leak_def Let_def grows_def)

lemma rec_spawn_inv: "rec_inv s \<Longrightarrow> rec_inv (rec_spawn os i j s)"
proof (induction os i j s rule: rec_spawn.induct)
  case (1 os i j s)
  show ?case
  proof (cases "j < 3 \<and> thread_count s < 60")
    case True
    have "rec_inv (if rec_create os i j then
             emit [Thread_create (thread_count s) True]
               (s\<lparr>rthreads := (rthreads s)[thread_count s := Live],
                  thread_count := thread_count s + 1\<rparr>)
           else emit [Thread_create (thread_count s) False] s)"
      using "1.prems" True by (auto simp: rec_inv_def nth_list_update less_Suc_eq)
    then show ?thesis using "1.IH" [OF True] True by (subst rec_spawn.simps) simp
  next
    case False
    then show ?thesis using "1.prems" by (subst rec_spawn.simps) auto
  qed
qed

lemma rec_spawn_grows: "grows is_combo_attack (trace s) (trace (rec_spawn os i j s))"
proof (induction os i j s rule: rec_spawn.induct)
  case (1 os i j s)
  show ?case
  proof (cases "j < 3 \<and> thread_count s < 60")
    case True
    show ?thesis using "1.IH" [OF True] True
      by (subst rec_spawn.simps) (auto elim!: grows_append split: if_splits)
  next
    case False
    then show ?thesis by (subst rec_spawn.simps) auto
  qed
qed

lemma rec_threads_inv: "rec_inv s \<Longrightarrow> rec_inv (rec_threads os i s)"
  by (simp add: rec_threads_def Let_def rec_spawn_inv rec_inv_emit)

lemma rec_threads_grows: "grows is_combo_attack (trace s) (trace (rec_threads os i s))"
  using rec_spawn_grows [of s os i 0]
  by (auto simp: rec_threads_def Let_def grows_def)

lemma rec_files_inv: "rec_inv s \<Longrightarrow> rec_inv (rec_files os i s)"
  by (auto simp: rec_inv_def rec_files_def Let_def nth_list_update less_Suc_eq)

lemma rec_files_grows: "grows is_combo_attack (trace s) (trace (rec_files os i s))"
  by (auto simp: rec_files_def Let_def grows_def)

lemma rec_cpu_inv: "rec_inv s \<Longrightarrow> rec_inv (rec_cpu s)"
  by (simp add: rec_cpu_def rec_inv_emit)

lemma rec_cpu_grows: "grows is_combo_attack (trace s) (trace (rec_cpu s))"
  by (auto simp: rec_cpu_def grows_def)

lemma rec_warn_narration: "list_all is_narration (rec_warn i)"
  by (simp add: rec_warn_def)

lemma rec_iter_inv: "rec_inv s \<Longrightarrow> rec_inv (rec_iter os i s)"
  by (simp add: rec_iter_def rec_inv_emit rec_cpu_inv rec_files_inv rec_threads_inv rec_leak_inv
      rec_warn_narration)

lemma narration_combo: "is_narration e \<Longrightarrow> is_combo_attack e"
  by (cases e) simp_all

lemma rec_iter_grows:
  "grows is_combo_attack (trace s @ [Print Stdout ''Attack iteration %d/20:'' [i + 1]])
     (trace (rec_iter os i s))"
proof -
  let ?s0 = "emit [Print Stdout ''Attack iteration %d/20:'' [i + 1]] s"
  let ?s1 = "rec_leak os i ?s0"
  let ?s2 = "rec_threads os i ?s1"
  let ?s3 = "rec_files os i ?s2"
  let ?s4 = "rec_cpu ?s3"
  have "grows is_combo_attack (trace ?s0) (trace ?s1)" by (rule rec_leak_grows)
  also have "grows is_combo_attack (trace ?s1) (trace ?s2)" by (rule rec_threads_grows)
  also have "grows is_combo_attack (trace ?s2) (trace ?s3)" by (rule rec_files_grows)
  also have "grows is_combo_attack (trace ?s3) (trace ?s4)" by (rule rec_cpu_grows)
  finally have "grows is_combo_attack (trace ?s0) (trace ?s4)" .
  moreover have "grows is_combo_attack (trace ?s4) (trace (emit (rec_warn i @ [Sleep second]) ?s4))"
    using rec_warn_narration [of i]
    by (intro grows_emit) (auto simp: list_all_iff narration_combo)
  ultimately have "grows is_combo_attack (trace ?s0) (trace (rec_iter os i s))"
    unfolding rec_iter_def by (rule grows_trans)
  then show ?thesis by simp
qed

lemma rec_attack_inv: "rec_inv s \<Longrightarrow> rec_inv (rec_attack os i s)"
proof (induction os i s rule: rec_attack.induct)
  case (1 os i s)
  show ?case
    using "1.IH" "1.prems" by (subst rec_attack.simps) (auto simp: rec_iter_inv)
qed

lemma rec_attack_grows: "grows is_combo_attack (trace s) (trace (rec_attack os i s))"
proof (induction os i s rule: rec_attack.induct)
  case (1 os i s)
  show ?case
  proof (cases "i < 20")
    case True
    have "grows is_combo_attack (trace s) (trace (rec_iter os i s))"
      using rec_iter_grows [of s i os] by (rule grows_append) simp
    then show ?thesis using "1.IH" [OF True] True
      by (subst rec_attack.simps) (auto intro: grows_trans)
  next
    case False
    then show ?thesis by (subst rec_attack.simps) simp
  qed
qed

lemma rec_attack_iterations:
  "i \<le> k \<Longrightarrow> k < 20 \<Longrightarrow>
   Print Stdout ''Attack iteration %d/20:'' [k + 1] \<in> set (trace (rec_attack os i s))"
proof (induction os i s rule: rec_attack.induct)
  case (1 os i s)
  have lt: "i < 20" using "1.prems" by simp
  show ?case
  proof (cases "k = i")
    case True
    have "Print Stdout ''Attack iteration %d/20:'' [i + 1] \<in> set (trace (rec_iter os i s))"
      using grows_set [OF rec_iter_grows [of s i os]] by auto
    then have "Print Stdout ''Attack iteration %d/20:'' [i + 1]
                 \<in> set (trace (rec_attack os (Suc i) (rec_iter os i s)))"
      using grows_set [OF rec_attack_grows] by blast
    then show ?thesis using True lt by (subst rec_attack.simps) simp
  next
    case False
    then show ?thesis using "1.IH" [OF lt] "1.prems" lt by (subst rec_attack.simps) simp
  qed
qed


lemma rec_sustain_fields [simp]:
  "memory_leaks (rec_sustain i s) = memory_leaks s" "leak_count (rec_sustain i s) = leak_count s"
  "rthreads (rec_sustain i s) = rthreads s" "thread_count (rec_sustain i s) = thread_count s"
  "open_fds (rec_sustain i s) = open_fds s" "file_count (rec_sustain i s) = file_count s"
proof (induction i s rule: rec_sustain.induct)
  case (1 i s)
  { case 1 show ?case using "1.IH" by (subst rec_sustain.simps) simp }
  { case 2 show ?case using "1.IH" by (subst rec_sustain.simps) simp }
  { case 3 show ?case using "1.IH" by (subst rec_sustain.simps) simp }
  { case 4 show ?case using "1.IH" by (subst rec_sustain.simps) simp }
  { case 5 show ?case using "1.IH" by (subst rec_sustain.simps) simp }
  { case 6 show ?case using "1.IH" by (subst rec_sustain.simps) simp }
qed

lemma rec_sustain_grows: "grows is_narration (trace s) (trace (rec_sustain i s))"
proof (induction i s rule: rec_sustain.induct)
  case (1 i s)
  show ?case
  proof (cases "i < 8")
    case True
    show ?thesis using "1.IH" [OF True] True
      by (subst rec_sustain.simps) (auto elim!: grows_append)
  next
    case False
    then show ?thesis by (subst rec_sustain.simps) simp
  qed
qed

lemma rec_join_fields [simp]:
  "memory_leaks (rec_join i s) = memory_leaks s" "leak_count (rec_join i s) = leak_count s"
  "thread_count (rec_join i s) = thread_count s"
  "open_fds (rec_join i s) = open_fds s" "file_count (rec_join i s) = file_count s"
proof (induction i s rule: rec_join.induct)
  case (1 i s)
  { case 1 show ?case using "1.IH" by (subst rec_join.simps) simp }
  { case 2 show ?case using "1.IH" by (subst rec_join.simps) simp }
  { case 3 show ?case using "1.IH" by (subst rec_join.simps) simp }
  { case 4 show ?case using "1.IH" by (subst rec_join.simps) simp }
  { case 5 show ?case using "1.IH" by (subst rec_join.simps) simp }
qed

lemma rec_join_grows: "grows is_cleanup (trace s) (trace (rec_join i s))"
proof (induction i s rule: rec_join.induct)
  case (1 i s)
  show ?case
  proof (cases "i < thread_count s")
    case True
    show ?thesis using "1.IH" [OF True] True
      by (subst rec_join.simps) (auto elim!: grows_append)
  next
    case False
    then show ?thesis by (subst rec_join.simps) simp
  qed
qed

lemma rec_join_released:
  "length (rthreads s) = 60 \<Longrightarrow> thread_count s \<le> 60 \<Longrightarrow>
   (\<forall>k. i \<le> k \<and> k < thread_count s \<longrightarrow> rthreads s ! k = Live) \<Longrightarrow>
   released (trace (rec_join i s)) = released (trace s) + (thread_count s - i)"
proof (induction i s rule: rec_join.induct)
  case (1 i s)
  show ?case
  proof (cases "i < thread_count s")
    case True
    let ?s' = "emit [Thread_join i (rthreads s ! i)] (s\<lparr>rthreads := join_slot i (rthreads s)\<rparr>)"
    have live: "rthreads s ! i = Live" using "1.prems" True by simp
    have "released (trace (rec_join (Suc i) ?s')) = released (trace ?s') + (thread_count ?s' - Suc i)"
      using "1.prems" True by (intro "1.IH" [OF True]) (auto simp: join_slot_def)
    then show ?thesis using True live by (subst rec_join.simps) simp
  next
    case False
    then show ?thesis by (subst rec_join.simps) simp
  qed
qed

lemma rec_free_alive:
  "(\<forall>k<leak_count s. \<not> wild (memory_leaks s ! k)) \<Longrightarrow>
   rec_free 0 s = Alive (emit (swept (memory_leaks s) 0 (leak_count s)) s)"
  by (simp add: rec_free_def free_all_alive)

lemma rec_close_grows: "grows is_cleanup (trace s) (trace (rec_close os i s))"
proof (induction os i s rule: rec_close.induct)
  case (1 os i s)
  show ?case
  proof (cases "i < file_count s")
    case True
    show ?thesis using "1.IH" [OF True] True
      by (subst rec_close.simps) (auto elim!: grows_append split: if_splits)
  next
    case False
    then show ?thesis by (subst rec_close.simps) simp
  qed
qed

lemma rec_close_released:
  "(\<forall>k<file_count s. open_fds s ! k \<ge> 0) \<Longrightarrow>
   released (trace (rec_close os i s)) = released (trace s) + (file_count s - i)"
proof (induction os i s rule: rec_close.induct)
  case (1 os i s)
  show ?case
  proof (cases "i < file_count s")
    case True
    then show ?thesis using "1.IH" [OF True] "1.prems" by (subst rec_close.simps) simp
  next
    case False
    then show ?thesis by (subst rec_close.simps) simp
  qed
qed


lemma grows_calm_narration: "grows is_narration t u \<Longrightarrow> grows calm t u"
  by (erule grows_weaken) (rule narration_calm)

lemma grows_calm_cleanup: "grows is_cleanup t u \<Longrightarrow> grows calm t u"
  by (erule grows_weaken) (rule cleanup_calm)

lemma narration_no_release: "list_all is_narration r \<Longrightarrow> released r = 0"
proof (induction r)
  case Nil
  then show ?case by simp
next
  case (Cons e r)
  then show ?case by (cases e) simp_all
qed

lemma combo_no_release: "list_all is_combo_attack r \<Longrightarrow> released r = 0"
proof (induction r)
  case Nil
  then show ?case by simp
next
  case (Cons e r)
  then show ?case by (cases e) simp_all
qed

lemma combo_no_diag: "list_all is_combo_attack r \<Longrightarrow> \<not> list_ex is_diag r"
proof (induction r)
  case Nil
  then show ?case by simp
next
  case (Cons e r)
  then show ?case by (cases e) simp_all
qed

lemma rec_phase2_inv: "rec_inv (rec_phase2 os g)"
  unfolding rec_phase2_def
  by (intro rec_attack_inv rec_inv_emit rec_inv_init) simp

lemma rec_phase2_trace:
  "list_all is_combo_attack (trace (rec_phase2 os g))"
proof -
  let ?s0 = "emit [Print Stdout ''Phase 1/3: Normal startup...'' [], Sleep (2 * second),
              Print Stdout ''Phase 2/3: COMBINED ATTACK!'' [],
              Print Stdout ''Triggering all attack vectors simultaneously...'' []] (rec_init g)"
  obtain r where "trace (rec_phase2 os g) = trace ?s0 @ r" "list_all is_combo_attack r"
    using rec_attack_grows [of ?s0 os 0] by (auto simp: grows_def rec_phase2_def)
  then show ?thesis by (simp add: rec_init_def)
qed

lemma rec_epilogue:
  "\<exists>r. trace (snd (rec_main os g)) = trace (rec_phase2 os g) @ r
       \<and> list_all calm r \<and> Print Stdout ''Shutting down attack...'' [] \<in> set r
       \<and> released r = leak_count (rec_phase2 os g) + thread_count (rec_phase2 os g)
                        + file_count (rec_phase2 os g)"
proof -
  let ?s2 = "rec_phase2 os g"
  let ?a = "emit (rec_summary ?s2) ?s2"
  let ?s3 = "rec_sustain 0 ?a"
  let ?b = "emit (rec_metrics ?s3) ?s3"
  let ?s4 = "rec_join 0 ?b"
  let ?s5 = "emit (swept (memory_leaks ?s4) 0 (leak_count ?s4)) ?s4"
  let ?s6 = "rec_close os 0 ?s5"
  have inv: "rec_inv ?s2" by (rule rec_phase2_inv)
  obtain r1 where r1: "trace ?s3 = trace ?a @ r1" "list_all is_narration r1"
    using rec_sustain_grows [of ?a 0] by (auto simp: grows_def)
  obtain r2 where r2: "trace ?s4 = trace ?b @ r2" "list_all is_cleanup r2"
    using rec_join_grows [of ?b 0] by (auto simp: grows_def)
  have m: "rec_main os g = (Exit 0, ?s6)"
    using inv by (simp add: rec_main_def Let_def rec_free_alive rec_inv_def)
  obtain r3 where r3: "trace ?s5 = trace ?s4 @ r3" "list_all is_cleanup r3"
    using swept_cleanup [of "memory_leaks ?s4" 0 "leak_count ?s4"] by simp
  obtain r4 where r4: "trace ?s6 = trace ?s5 @ r4" "list_all is_cleanup r4"
    using rec_close_grows [of ?s5 os 0] by (auto simp: grows_def)
  let ?r = "rec_summary ?s2 @ r1 @ rec_metrics ?s3 @ r2 @ r3 @ r4"
  have t: "trace (snd (rec_main os g)) = trace ?s2 @ ?r"
    using r1(1) r2(1) r3(1) r4(1) by (simp add: m)
  have c1: "list_all calm r1" using r1(2) by (auto simp: list_all_iff narration_calm)
  have c2: "list_all calm r2" using r2(2) by (auto simp: list_all_iff cleanup_calm)
  have c3: "list_all calm r3" using r3(2) by (auto simp: list_all_iff cleanup_calm)
  have c4: "list_all calm r4" using r4(2) by (auto simp: list_all_iff cleanup_calm)
  have c: "list_all calm ?r"
    using c1 c2 c3 c4 by (simp add: rec_summary_def rec_metrics_def calm_def)
  have p: "Print Stdout ''Shutting down attack...'' [] \<in> set ?r"
    by (simp add: rec_metrics_def)
  have j: "released (trace ?s4) = released (trace ?b) + thread_count ?s2"
    using rec_join_released [of ?b 0] inv by (simp add: rec_inv_def)
  have "filter (\<lambda>k. cell_val (memory_leaks ?s2 ! k) \<noteq> 0) [0..<leak_count ?s2] = [0..<leak_count ?s2]"
    using inv by (intro filter_True) (simp add: rec_inv_def)
  then have f: "released (trace ?s5) = released (trace ?s4) + leak_count ?s2"
    by (simp add: swept_released)
  have cl: "released (trace ?s6) = released (trace ?s5) + file_count ?s2"
    using rec_close_released [of ?s5 os 0] inv by (simp add: rec_inv_def)
  have "released (trace ?s6) = released (trace ?s2) + released ?r"
    using t by (simp add: m)
  moreover have "released (trace ?b) = released (trace ?s2)"
    using r1 by (simp add: narration_no_release rec_summary_def rec_metrics_def)
  ultimately have "released ?r = leak_count ?s2 + thread_count ?s2 + file_count ?s2"
    using j f cl by linarith
  with t c p show ?thesis by blast
qed

lemma rec_main_exit: "fst (rec_main os g) = Exit 0"
  using rec_phase2_inv [of os g] by (simp add: rec_main_def Let_def rec_free_alive rec_inv_def)

lemma rec_main_sizes:
  "succ_sizes (trace (snd (rec_main os g))) = map rec_alloc_size [0..<leak_count (rec_phase2 os g)]"
proof -
  obtain r where r: "trace (snd (rec_main os g)) = trace (rec_phase2 os g) @ r" "list_all calm r"
    using rec_epilogue [of os g] by blast
  then show ?thesis using rec_phase2_inv [of os g] by (simp add: calm_sizes rec_inv_def)
qed

lemma rec_main_balanced:
  "released (trace (snd (rec_main os g))) = acquired (trace (snd (rec_main os g)))"
proof -
  obtain r where r: "trace (snd (rec_main os g)) = trace (rec_phase2 os g) @ r" "list_all calm r"
    "released r = leak_count (rec_phase2 os g) + thread_count (rec_phase2 os g)
                        + file_count (rec_phase2 os g)"
    using rec_epilogue [of os g] by blast
  have "released (trace (rec_phase2 os g)) = 0"
    using rec_phase2_trace by (rule combo_no_release)
  then show ?thesis using r rec_phase2_inv [of os g] by (simp add: calm_acquired rec_inv_def)
qed

lemma rec_main_no_diag: "\<not> list_ex is_diag (trace (snd (rec_main os g)))"
proof -
  obtain r where r: "trace (snd (rec_main os g)) = trace (rec_phase2 os g) @ r" "list_all calm r"
    using rec_epilogue [of os g] by blast
  then show ?thesis
    using combo_no_diag [OF rec_phase2_trace, of os g] calm_no_diag [of r] by simp
qed

lemma rec_main_iterations:
  "k < 20 \<Longrightarrow> Print Stdout ''Attack iteration %d/20:'' [k + 1] \<in> set (trace (snd (rec_main os g)))"
proof -
  assume k: "k < 20"
  obtain r where r: "trace (snd (rec_main os g)) = trace (rec_phase2 os g) @ r"
    using rec_epilogue [of os g] by blast
  have "Print Stdout ''Attack iteration %d/20:'' [k + 1] \<in> set (trace (rec_phase2 os g))"
    unfolding rec_phase2_def by (rule rec_attack_iterations) (use k in simp_all)
  then show ?thesis using r by simp
qed

lemma rec_leak_count_frames [simp]:
  "leak_count (rec_spawn os i j s) = leak_count s"
  "leak_count (rec_threads os i s) = leak_count s"
  "leak_count (rec_files os i s) = leak_count s"
  "leak_count (rec_cpu s) = leak_count s"
proof -
  show a: "leak_count (rec_spawn os i j s) = leak_count s" for j s
  proof (induction os i j s rule: rec_spawn.induct)
    case (1 os i j s)
    show ?case using "1.IH" by (subst rec_spawn.simps) auto
  qed
  show "leak_count (rec_threads os i s) = leak_count s"
    by (simp add: rec_threads_def Let_def a)
  show "leak_count (rec_files os i s) = leak_count s"
    by (simp add: rec_files_def Let_def)
  show "leak_count (rec_cpu s) = leak_count s"
    by (simp add: rec_cpu_def)
qed

lemma rec_iter_leak_count:
  "leak_count (rec_iter os i s) =
     (if i mod 2 = 0 \<and> leak_count s < 30 \<and> rec_malloc os i \<noteq> 0 then leak_count s + 1
      else leak_count s)"
  by (simp add: rec_iter_def rec_leak_def Let_def)

lemma rec_attack_leak_count:
  "i \<le> 20 \<Longrightarrow> leak_count s \<le> i \<Longrightarrow>
   leak_count (rec_attack os i s) =
     leak_count s + length (filter (\<lambda>k. k mod 2 = 0 \<and> rec_malloc os k \<noteq> 0) [i..<20])"
proof (induction os i s rule: rec_attack.induct)
  case (1 os i s)
  show ?case
  proof (cases "i < 20")
    case True
    have u: "[i..<20] = i # [Suc i..<20]" using True by (intro upt_conv_Cons) simp
    have "leak_count (rec_iter os i s) \<le> Suc i"
      using "1.prems" by (simp add: rec_iter_leak_count)
    then have "leak_count (rec_attack os (Suc i) (rec_iter os i s)) =
        leak_count (rec_iter os i s)
        + length (filter (\<lambda>k. k mod 2 = 0 \<and> rec_malloc os k \<noteq> 0) [Suc i..<20])"
      using True by (intro "1.IH") simp_all
    then show ?thesis
      using True "1.prems" unfolding u
      by (subst rec_attack.simps) (simp add: rec_iter_leak_count)
  next
    case False
    then show ?thesis using "1.prems" by (subst rec_attack.simps) simp
  qed
qed

lemma rec_phase2_leak_count:
  "leak_count (rec_phase2 os g) =
     length (filter (\<lambda>k. k mod 2 = 0 \<and> rec_malloc os k \<noteq> 0) [0..<20])"
  unfolding rec_phase2_def
  by (subst rec_attack_leak_count) (simp_all add: rec_init_def)

section \<open>Facts about the gradual fork bomb\<close>

lemma fbg_sustain_grows: "grows is_narration (trace s) (trace (fbg_sustain i s))"
proof (induction i s rule: fbg_sustain.induct)
  case (1 i s)
  show ?case
  proof (cases "i < 10")
    case True
    show ?thesis using "1.IH" [OF True] True
      by (subst fbg_sustain.simps) (auto elim!: grows_append)
  next
    case False
    then show ?thesis by (subst fbg_sustain.simps) simp
  qed
qed

lemma fbg_join_grows: "grows is_cleanup (trace s) (trace (fbg_join i s))"
proof (induction i s rule: fbg_join.induct)
  case (1 i s)
  show ?case
  proof (cases "i < created_threads s")
    case True
    show ?thesis using "1.IH" [OF True] True
      by (subst fbg_join.simps) (auto elim!: grows_append)
  next
    case False
    then show ?thesis by (subst fbg_join.simps) simp
  qed
qed

lemma fbg_epilogue:
  "\<exists>r. trace (snd (fbg_main argv ok)) = trace (fbg_after_phase2 argv ok) @ r
       \<and> list_all calm r \<and> Print Stdout ''Shutting down threads...'' [] \<in> set r"
proof -
  let ?s2 = "fbg_after_phase2 argv ok"
  let ?a = "emit [Print Stdout ''Peak thread count: %d threads'' [created_threads ?s2],
                  Print Stdout ''Phase 3/3: Sustaining high thread count...'' []] ?s2"
  let ?s3 = "fbg_sustain 0 ?a"
  let ?b = "emit [Print Stdout ''Total Threads Created: %d'' [created_threads ?s3],
                  Print Stdout ''Shutting down threads...'' []] ?s3"
  obtain r1 where r1: "trace ?s3 = trace ?a @ r1" "list_all is_narration r1"
    using fbg_sustain_grows [of ?a 0] by (auto simp: grows_def)
  obtain r2 where r2: "trace (fbg_join 0 ?b) = trace ?b @ r2" "list_all is_cleanup r2"
    using fbg_join_grows [of ?b 0] by (auto simp: grows_def)
  have c1: "list_all calm r1" using r1(2) by (auto simp: list_all_iff narration_calm)
  have c2: "list_all calm r2" using r2(2) by (auto simp: list_all_iff cleanup_calm)
  let ?r = "[Print Stdout ''Peak thread count: %d threads'' [created_threads ?s2],
             Print Stdout ''Phase 3/3: Sustaining high thread count...'' []] @ r1
            @ [Print Stdout ''Total Threads Created: %d'' [created_threads ?s3],
               Print Stdout ''Shutting down threads...'' []] @ r2"
  have "trace (snd (fbg_main argv ok)) = trace ?s2 @ ?r"
    using r1(1) r2(1) by (simp add: fbg_main_def Let_def)
  moreover have "list_all calm ?r" using c1 c2 by (simp add: calm_def)
  moreover have "Print Stdout ''Shutting down threads...'' [] \<in> set ?r" by simp
  ultimately show ?thesis by blast
qed

lemma fbg_phase2_fail:
  "i0 \<le> i \<Longrightarrow> i < mx \<Longrightarrow> \<not> ok i \<Longrightarrow> (\<And>j. i0 \<le> j \<Longrightarrow> j < i \<Longrightarrow> ok j) \<Longrightarrow>
   \<exists>t. trace (fbg_phase2 ok mx i0 s) =
         t @ [Thread_create i False, Diag Stdout ''Failed to create thread %d (limit reached)'' [i + 1]]"
proof (induction ok mx i0 s rule: fbg_phase2.induct)
  case (1 ok mx i0 s)
  have lt: "i0 < mx" using "1.prems" by simp
  show ?case
  proof (cases "i0 = i")
    case True
    then show ?thesis using "1.prems" lt by (subst fbg_phase2.simps) simp
  next
    case False
    then have okk: "ok i0" using "1.prems" by simp
    have "\<exists>t. trace (fbg_phase2 ok mx (Suc i0)
             (emit ([Thread_create i0 True] @ fbg_milestone (created_threads s + 1)
                    @ [Sleep (fbg_delay i0)])
                (s\<lparr>threads := (threads s)[i0 := Live],
                   created_threads := created_threads s + 1\<rparr>))) =
         t @ [Thread_create i False, Diag Stdout ''Failed to create thread %d (limit reached)'' [i + 1]]"
      using "1.prems" False by (intro "1.IH" [OF lt okk]) simp_all
    then show ?thesis using lt okk by (subst fbg_phase2.simps) simp
  qed
qed

lemmas atoi_eval = atoi_def strtol_def LONG_MAX_def LONG_MIN_def isspace_def isdigit_def int32_def Let_def

lemma atoi_no_digits:
  "\<not> isspace c \<Longrightarrow> \<not> isdigit c \<Longrightarrow> c \<noteq> CHR ''-'' \<Longrightarrow> c \<noteq> CHR ''+'' \<Longrightarrow> atoi (c # cs) = 0"
  by (simp add: atoi_def strtol_def LONG_MAX_def LONG_MIN_def int32_def)

lemma max_threads_of_clamp:
  "max_threads_of (prog # a # rest) = max 5 (min 80 (atoi a))"
  by (simp add: max_threads_of_def MAX_THREADS_def Let_def)

lemma max_threads_of_range: "5 \<le> max_threads_of argv \<and> max_threads_of argv \<le> 80"
  by (simp add: max_threads_of_def MAX_THREADS_def Let_def)

lemma fbg_phase1_created:
  "created_threads (fbg_phase1 ok mx i s) \<le> created_threads s + (min 5 mx - i)"
proof (induction ok mx i s rule: fbg_phase1.induct)
  case (1 ok mx i s)
  show ?case
    using "1.IH" by (subst fbg_phase1.simps) (auto simp: min_def)
qed

lemma fbg_phase2_created:
  "created_threads (fbg_phase2 ok mx i s) \<le> created_threads s + (mx - i)"
proof (induction ok mx i s rule: fbg_phase2.induct)
  case (1 ok mx i s)
  show ?case
    using "1.IH" by (subst fbg_phase2.simps) auto
qed

lemma fbg_created_le_max:
  "int (created_threads (fbg_after_phase2 argv ok)) \<le> max_threads_of argv"
proof -
  let ?mx = "nat (max_threads_of argv)"
  have mx: "5 \<le> ?mx" using max_threads_of_range [of argv] by arith
  let ?s0 = "emit [Print Stdout ''Phase 1/3: Normal startup (1-5 threads)...'' []] fbg_init"
  let ?s1 = "fbg_phase1 ok ?mx 0 ?s0"
  have "created_threads ?s1 \<le> 5"
    using fbg_phase1_created [of ok ?mx 0 ?s0] mx by (simp add: fbg_init_def)
  moreover have "created_threads (fbg_after_phase2 argv ok) \<le> created_threads ?s1 + (?mx - 5)"
    using fbg_phase2_created [of ok ?mx 5 "emit [Print Stdout ''Phase 2/3: ATTACK - Rapid thread spawning!'' []] ?s1"]
    by (simp add: fbg_after_phase2_def Let_def)
  ultimately have "created_threads (fbg_after_phase2 argv ok) \<le> ?mx" using mx by linarith
  then show ?thesis using mx by linarith
qed

lemma fbg_five: "nat (max_threads_of [''fork_bomb_gradual'', ''5'']) = 5"
  by (simp add: max_threads_of_def atoi_eval MAX_THREADS_def Let_def)

lemmas fbg_eval =
  fbg_main_def fbg_after_phase2_def fbg_five fbg_sustain.simps fbg_phase1.simps fbg_phase2.simps
  fbg_join.simps fbg_init_def join_slot_def Let_def nth_list_update

section \<open>Facts about the I/O storm\<close>

lemma ios_emit [simp]:
  "total_written (emit es s) = total_written s" "files (emit es s) = files s"
  by (simp_all add: emit_def)

lemma ios_normal_fields [simp]:
  "total_written (ios_normal os base i s) = total_written s"
  "files (ios_normal os base i s) = files s"
proof (induction os base i s rule: ios_normal.induct)
  case (1 os base i s)
  { case 1 show ?case using "1.IH" by (subst ios_normal.simps) simp }
  { case 2 show ?case using "1.IH" by (subst ios_normal.simps) simp }
qed

lemma ios_normal_trace: "set (trace s) \<subseteq> set (trace (ios_normal os base i s))"
proof (induction os base i s rule: ios_normal.induct)
  case (1 os base i s)
  show ?case using "1.IH" by (subst ios_normal.simps) auto
qed

lemma ios_storm_files [simp]: "files (ios_storm os i s) = files s"
proof (induction os i s rule: ios_storm.induct)
  case (1 os i s)
  show ?case using "1.IH" by (subst ios_storm.simps) (simp add: Let_def)
qed

lemma ios_storm_total:
  "i \<le> 150 \<Longrightarrow>
   total_written (ios_storm os i s) = total_written s + (\<Sum>k = i..<150. ios_written os (3 + k))"
proof (induction os i s rule: ios_storm.induct)
  case (1 os i s)
  show ?case
  proof (cases "i < 150")
    case True
    have "(\<Sum>k = i..<150. ios_written os (3 + k))
            = ios_written os (3 + i) + (\<Sum>k = Suc i..<150. ios_written os (3 + k))"
      using True by (simp add: sum.atLeast_Suc_lessThan)
    then show ?thesis
      using "1.IH" [OF True refl refl] True
      by (subst ios_storm.simps) (simp add: Let_def)
  next
    case False
    then show ?thesis using "1.prems" by (subst ios_storm.simps) simp
  qed
qed

lemma ios_after_storm_total:
  "total_written (ios_after_storm os fs) = (\<Sum>k<150. ios_written os (3 + k))"
  using ios_storm_total [of 0 os]
  by (simp add: ios_after_storm_def ios_opened_def atLeast0LessThan)

lemma ios_after_storm_files:
  "files (ios_after_storm os fs) = insert (ios_name (ios_pid os)) fs"
  by (simp add: ios_after_storm_def ios_opened_def)

lemma ios_written_le: "ios_written os k \<le> ios_CHUNK_SIZE"
  by (simp add: ios_written_def)

lemma ios_total_le: "total_written (ios_after_storm os fs) \<le> ios_CHUNK_SIZE * 150"
proof -
  have "(\<Sum>k<150. ios_written os (3 + k)) \<le> (\<Sum>k<(150::nat). ios_CHUNK_SIZE)"
    by (rule sum_mono) (rule ios_written_le)
  then show ?thesis by (simp add: ios_after_storm_total)
qed

lemma ios_total_complete:
  "(\<And>k. k < 150 \<Longrightarrow> ios_fwrite os (3 + k) = ios_CHUNK_SIZE) \<Longrightarrow>
   total_written (ios_after_storm os fs) = ios_CHUNK_SIZE * 150"
  by (simp add: ios_after_storm_total ios_written_def)

lemma ios_main_success:
  "ios_malloc os \<noteq> 0 \<Longrightarrow> ios_fopen os \<Longrightarrow>
   fst (ios_main os fs) = 0
   \<and> ios_name (ios_pid os) \<notin> files (snd (ios_main os fs))
   \<and> Unlink (ios_name (ios_pid os)) \<in> set (trace (snd (ios_main os fs)))
   \<and> total_written (snd (ios_main os fs)) = total_written (ios_after_storm os fs)"
  by (simp add: ios_main_def Let_def)

section \<open>Facts about the file writer\<close>

lemma fw_emit [simp]:
  "total (emit es s) = total s" "count (emit es s) = count s" "out_file (emit es s) = out_file s"
  by (simp_all add: emit_def)

lemma fw_loop_short:
  "fw_fwrite os k < fw_CHUNK_SIZE \<Longrightarrow>
   fw_loop (Suc fuel) os k s =
     Broke (emit [Fwrite fw_CHUNK_SIZE (fw_fwrite os k),
                  Diag Stderr ''Write failed after %lu MB'' [unat (total s) div (1024 * 1024)]]
              (s\<lparr>out_file := fw_grow (fw_fwrite os k) (out_file s)\<rparr>))"
  by (simp add: Let_def min_def emit_def)

lemma fw_loop_full:
  assumes "fw_CHUNK_SIZE \<le> fw_fwrite os k"
  shows "\<exists>s'. fw_loop (Suc fuel) os k s = fw_loop fuel os (Suc k) s'
        \<and> out_file s' = fw_grow fw_CHUNK_SIZE (out_file s)
        \<and> total s' = total s + of_nat fw_CHUNK_SIZE
        \<and> grows (\<lambda>e. \<not> is_unlink e \<and> \<not> is_diag e) (trace s) (trace s')"
proof -
  define s2 where "s2 =
    (emit [Fwrite fw_CHUNK_SIZE fw_CHUNK_SIZE] (s\<lparr>out_file := fw_grow fw_CHUNK_SIZE (out_file s)\<rparr>))
      \<lparr>total := total s + of_nat fw_CHUNK_SIZE, count := count s + 1\<rparr>"
  define s3 where "s3 =
    (if count s2 mod 100 = 0 then
       emit [Print Stdout ''Written: %lu MB'' [unat (total s2) div (1024 * 1024)], Fflush] s2
     else s2)"
  have "fw_loop (Suc fuel) os k s = fw_loop fuel os (Suc k) (emit [Sleep 10000] s3)"
    using assms by (simp add: Let_def min_def s2_def s3_def)
  moreover have "out_file (emit [Sleep 10000] s3) = fw_grow fw_CHUNK_SIZE (out_file s)"
    by (simp add: s2_def s3_def)
  moreover have "total (emit [Sleep 10000] s3) = total s + of_nat fw_CHUNK_SIZE"
    by (simp add: s2_def s3_def)
  moreover have "grows (\<lambda>e. \<not> is_unlink e \<and> \<not> is_diag e) (trace s) (trace (emit [Sleep 10000] s3))"
    by (simp add: s2_def s3_def grows_def)
  ultimately show ?thesis by blast
qed

lemma fw_loop_full_calls:
  assumes "fw_CHUNK_SIZE \<le> fw_fwrite os k"
  shows "\<exists>s'. fw_loop (Suc fuel) os k s = fw_loop fuel os (Suc k) s'
        \<and> grows (\<lambda>e. \<not> failed e) (trace s) (trace s')"
proof -
  define s2 where "s2 =
    (emit [Fwrite fw_CHUNK_SIZE fw_CHUNK_SIZE] (s\<lparr>out_file := fw_grow fw_CHUNK_SIZE (out_file s)\<rparr>))
      \<lparr>total := total s + of_nat fw_CHUNK_SIZE, count := count s + 1\<rparr>"
  define s3 where "s3 =
    (if count s2 mod 100 = 0 then
       emit [Print Stdout ''Written: %lu MB'' [unat (total s2) div (1024 * 1024)], Fflush] s2
     else s2)"
  have "fw_loop (Suc fuel) os k s = fw_loop fuel os (Suc k) (emit [Sleep 10000] s3)"
    using assms by (simp add: Let_def min_def s2_def s3_def)
  moreover have "grows (\<lambda>e. \<not> failed e) (trace s) (trace (emit [Sleep 10000] s3))"
    by (simp add: s2_def s3_def grows_def)
  ultimately show ?thesis by blast
qed

declare fw_loop.simps(2) [simp del]

lemma fw_grow_grow: "fw_grow a (fw_grow b f) = fw_grow (b + a) f"
  by (cases f) (simp_all add: fw_grow_def)

lemma fw_loop_breaks:
  "fw_fwrite os (k0 + k) < fw_CHUNK_SIZE \<Longrightarrow>
   (\<And>j. j < k \<Longrightarrow> fw_CHUNK_SIZE \<le> fw_fwrite os (k0 + j)) \<Longrightarrow> k < fuel \<Longrightarrow>
   \<exists>s' t. fw_loop fuel os k0 s = Broke s'
      \<and> out_file s' = fw_grow (k * fw_CHUNK_SIZE + fw_fwrite os (k0 + k)) (out_file s)
      \<and> trace s' = trace s @ t @ [Fwrite fw_CHUNK_SIZE (fw_fwrite os (k0 + k)),
            Diag Stderr ''Write failed after %lu MB''
              [unat (total s + of_nat (k * fw_CHUNK_SIZE)) div (1024 * 1024)]]
      \<and> list_all (\<lambda>e. \<not> is_unlink e \<and> \<not> is_diag e) t"
proof (induction k arbitrary: k0 fuel s)
  case 0
  then obtain f where f: "fuel = Suc f" by (cases fuel) auto
  show ?case
    unfolding f using 0
    by (intro exI [of _ "emit [Fwrite fw_CHUNK_SIZE (fw_fwrite os k0),
                  Diag Stderr ''Write failed after %lu MB'' [unat (total s) div (1024 * 1024)]]
              (s\<lparr>out_file := fw_grow (fw_fwrite os k0) (out_file s)\<rparr>)"] exI [of _ "[]"])
       (simp add: fw_loop_short)
next
  case (Suc k)
  then obtain f where f: "fuel = Suc f" by (cases fuel) auto
  have full: "fw_CHUNK_SIZE \<le> fw_fwrite os k0" using Suc.prems(2) [of 0] by simp
  obtain s1 where s1: "fw_loop (Suc f) os k0 s = fw_loop f os (Suc k0) s1"
      "out_file s1 = fw_grow fw_CHUNK_SIZE (out_file s)"
      "total s1 = total s + of_nat fw_CHUNK_SIZE"
      "grows (\<lambda>e. \<not> is_unlink e \<and> \<not> is_diag e) (trace s) (trace s1)"
    using fw_loop_full [OF full, of f s] by blast
  obtain t1 where t1: "trace s1 = trace s @ t1" "list_all (\<lambda>e. \<not> is_unlink e \<and> \<not> is_diag e) t1"
    using s1(4) by (auto simp: grows_def)
  have "\<exists>s' t. fw_loop f os (Suc k0) s1 = Broke s'
      \<and> out_file s' = fw_grow (k * fw_CHUNK_SIZE + fw_fwrite os (Suc k0 + k)) (out_file s1)
      \<and> trace s' = trace s1 @ t @ [Fwrite fw_CHUNK_SIZE (fw_fwrite os (Suc k0 + k)),
            Diag Stderr ''Write failed after %lu MB''
              [unat (total s1 + of_nat (k * fw_CHUNK_SIZE)) div (1024 * 1024)]]
      \<and> list_all (\<lambda>e. \<not> is_unlink e \<and> \<not> is_diag e) t"
  proof (rule Suc.IH)
    show "fw_fwrite os (Suc k0 + k) < fw_CHUNK_SIZE" using Suc.prems(1) by simp
    show "fw_CHUNK_SIZE \<le> fw_fwrite os (Suc k0 + j)" if "j < k" for j
      using Suc.prems(2) [of "Suc j"] that by simp
    show "k < f" using Suc.prems(3) f by simp
  qed
  then obtain s' t where st: "fw_loop f os (Suc k0) s1 = Broke s'"
      "out_file s' = fw_grow (k * fw_CHUNK_SIZE + fw_fwrite os (Suc k0 + k)) (out_file s1)"
      "trace s' = trace s1 @ t @ [Fwrite fw_CHUNK_SIZE (fw_fwrite os (Suc k0 + k)),
            Diag Stderr ''Write failed after %lu MB''
              [unat (total s1 + of_nat (k * fw_CHUNK_SIZE)) div (1024 * 1024)]]"
      "list_all (\<lambda>e. \<not> is_unlink e \<and> \<not> is_diag e) t"
    by blast
  have tot: "total s1 + of_nat (k * fw_CHUNK_SIZE) = total s + of_nat (Suc k * fw_CHUNK_SIZE)"
    by (simp add: s1(3))
  show ?case
  proof (intro exI [of _ s'] exI [of _ "t1 @ t"] conjI)
    show "fw_loop fuel os k0 s = Broke s'" using s1(1) st(1) f by simp
    show "out_file s' = fw_grow (Suc k * fw_CHUNK_SIZE + fw_fwrite os (k0 + Suc k)) (out_file s)"
      using st(2) s1(2) by (simp add: fw_grow_grow add.assoc)
    show "trace s' = trace s @ (t1 @ t) @ [Fwrite fw_CHUNK_SIZE (fw_fwrite os (k0 + Suc k)),
            Diag Stderr ''Write failed after %lu MB''
              [unat (total s + of_nat (Suc k * fw_CHUNK_SIZE)) div (1024 * 1024)]]"
      using st(3) [unfolded tot] t1(1) by simp
    show "list_all (\<lambda>e. \<not> is_unlink e \<and> \<not> is_diag e) (t1 @ t)" using t1(2) st(4) by simp
  qed
qed


lemma fw_main_write_failure:
  assumes "fw_fopen os" "fw_malloc os \<noteq> 0" "fw_fwrite os k < fw_CHUNK_SIZE"
    "\<And>j. j < k \<Longrightarrow> fw_CHUNK_SIZE \<le> fw_fwrite os j" "k < fuel"
  shows "\<exists>s t. fw_main fuel os f0 = Exited 0 s
      \<and> trace s = t @ [Diag Stderr ''Write failed after %lu MB''
                        [unat (of_nat (k * fw_CHUNK_SIZE) :: 64 word) div (1024 * 1024)],
                      Free (fw_malloc os), Fclose]
      \<and> \<not> list_ex is_diag t
      \<and> out_file s = Some (k * fw_CHUNK_SIZE + fw_fwrite os k)
      \<and> \<not> list_ex is_unlink (trace s)"
proof -
  let ?s0 = "\<lparr>trace = [Print Stdout ''Starting file write test...'' [],
                         Print Stdout ''Output file: %s'' [],
                         Fopen ''test_output.dat'' (fw_fopen os)],
                total = 0, count = 0, out_file = f0\<rparr>"
  let ?s1 = "emit [Memset (fw_malloc os) 205 fw_CHUNK_SIZE]
               (emit [Malloc fw_CHUNK_SIZE (fw_malloc os)] (?s0\<lparr>out_file := Some 0\<rparr>))"
  obtain s' t where b: "fw_loop fuel os 0 ?s1 = Broke s'"
      "out_file s' = fw_grow (k * fw_CHUNK_SIZE + fw_fwrite os (0 + k)) (out_file ?s1)"
      "trace s' = trace ?s1 @ t @ [Fwrite fw_CHUNK_SIZE (fw_fwrite os (0 + k)),
            Diag Stderr ''Write failed after %lu MB''
              [unat (total ?s1 + of_nat (k * fw_CHUNK_SIZE)) div (1024 * 1024)]]"
      "list_all (\<lambda>e. \<not> is_unlink e \<and> \<not> is_diag e) t"
    using fw_loop_breaks [of os 0 k fuel ?s1] assms(3,4,5) by auto
  have m: "fw_main fuel os f0 = Exited 0 (emit [Free (fw_malloc os), Fclose] s')"
    using assms(1,2) b(1) by (simp add: fw_main_def Let_def)
  have nd: "\<not> list_ex is_diag t" "\<not> list_ex is_unlink t"
    using b(4) by (auto simp: list_all_iff list_ex_iff)
  show ?thesis
  proof (intro exI conjI)
    show "fw_main fuel os f0 = Exited 0 (emit [Free (fw_malloc os), Fclose] s')" by (rule m)
    show "trace (emit [Free (fw_malloc os), Fclose] s') =
        (trace ?s1 @ t @ [Fwrite fw_CHUNK_SIZE (fw_fwrite os k)])
        @ [Diag Stderr ''Write failed after %lu MB''
             [unat (of_nat (k * fw_CHUNK_SIZE) :: 64 word) div (1024 * 1024)],
           Free (fw_malloc os), Fclose]"
      using b(3) by simp
    show "\<not> list_ex is_diag (trace ?s1 @ t @ [Fwrite fw_CHUNK_SIZE (fw_fwrite os k)])"
      using nd by simp
    show "out_file (emit [Free (fw_malloc os), Fclose] s') = Some (k * fw_CHUNK_SIZE + fw_fwrite os k)"
      using b(2) by (simp add: fw_grow_def)
    show "\<not> list_ex is_unlink (trace (emit [Free (fw_malloc os), Fclose] s'))"
      using b(3) nd by simp
  qed
qed

section \<open>Facts about the CPU spike\<close>

lemma cpu_emit [simp]:
  "cpu_clock (emit es s) = cpu_clock s" "wall (emit es s) = wall s"
  by (simp_all add: emit_def)

lemma usleep_fields [simp]:
  "cpu_clock (usleep us s) = cpu_clock s" "wall (usleep us s) = wall s + us"
  by (simp_all add: usleep_def)

lemma burn_fields [simp]:
  "cpu_clock (burn b s) = cpu_clock s + b" "wall (burn b s) = wall s + b"
  by (simp_all add: burn_def)

lemma consume_loop_returns:
  "0 < b \<Longrightarrow>
   \<exists>s'. consume_loop b e s = Some s'
      \<and> wall s' + cpu_clock s = wall s + cpu_clock s'
      \<and> cpu_clock s \<le> cpu_clock s'
      \<and> e \<le> cpu_clock s'
      \<and> (cpu_clock s \<le> e \<longrightarrow> cpu_clock s' < e + b)
      \<and> (cpu_clock s \<le> e \<and> b dvd (e - cpu_clock s) \<longrightarrow> cpu_clock s' = e)"
proof (induction "e - cpu_clock s" arbitrary: s rule: less_induct)
  case less
  show ?case
  proof (cases "cpu_clock s < e")
    case False
    then have "consume_loop b e s = Some s" by (subst consume_loop.simps) simp
    then show ?thesis using False less.prems by auto
  next
    case True
    have step: "consume_loop b e s = consume_loop b e (burn b s)"
      using True by (subst consume_loop.simps) simp
    have "e - cpu_clock (burn b s) < e - cpu_clock s" using True less.prems by simp
    from less.hyps [OF this less.prems]
    obtain s' where s': "consume_loop b e (burn b s) = Some s'"
        "wall s' + cpu_clock (burn b s) = wall (burn b s) + cpu_clock s'"
        "cpu_clock (burn b s) \<le> cpu_clock s'"
        "e \<le> cpu_clock s'"
        "cpu_clock (burn b s) \<le> e \<longrightarrow> cpu_clock s' < e + b"
        "cpu_clock (burn b s) \<le> e \<and> b dvd (e - cpu_clock (burn b s)) \<longrightarrow> cpu_clock s' = e"
      by blast
    have over: "cpu_clock s' < e + b"
    proof (cases "cpu_clock (burn b s) \<le> e")
      case True
      then show ?thesis using s'(5) by simp
    next
      case False
      then have "consume_loop b e (burn b s) = Some (burn b s)"
        by (subst consume_loop.simps) simp
      then have "s' = burn b s" using s'(1) by simp
      then show ?thesis using True by simp
    qed
    have exact: "cpu_clock s' = e" if d: "b dvd (e - cpu_clock s)"
    proof -
      obtain q where q: "e - cpu_clock s = b * q" using d by (auto simp: dvd_def)
      have "q \<noteq> 0" using q True by (cases q) auto
      then obtain q' where q': "q = Suc q'" by (cases q) auto
      have e: "e = cpu_clock s + b + b * q'" using q q' True by simp
      then have "cpu_clock (burn b s) \<le> e \<and> b dvd (e - cpu_clock (burn b s))" by simp
      then show ?thesis using s'(6) by blast
    qed
    show ?thesis
      using step s' over exact True by (intro exI [of _ s']) auto
  qed
qed

lemma consume_cpu_zero: "consume_cpu b 0 s = Some s"
  unfolding consume_cpu_def by (subst consume_loop.simps) simp

lemma consume_cpu_one:
  "0 < b \<Longrightarrow>
   \<exists>s'. consume_cpu b 1 s = Some s'
      \<and> wall s + second \<le> wall s' \<and> wall s' < wall s + second + b
      \<and> (b dvd second \<longrightarrow> wall s' = wall s + second)"
proof -
  assume b: "0 < b"
  obtain s' where s': "consume_loop b (cpu_clock s + 1 * CLOCKS_PER_SEC) s = Some s'"
      "wall s' + cpu_clock s = wall s + cpu_clock s'"
      "cpu_clock s + 1 * CLOCKS_PER_SEC \<le> cpu_clock s'"
      "cpu_clock s \<le> cpu_clock s + 1 * CLOCKS_PER_SEC \<longrightarrow> cpu_clock s' < cpu_clock s + 1 * CLOCKS_PER_SEC + b"
      "cpu_clock s \<le> cpu_clock s + 1 * CLOCKS_PER_SEC \<and> b dvd (cpu_clock s + 1 * CLOCKS_PER_SEC - cpu_clock s)
         \<longrightarrow> cpu_clock s' = cpu_clock s + 1 * CLOCKS_PER_SEC"
    using consume_loop_returns [OF b, of "cpu_clock s + 1 * CLOCKS_PER_SEC" s] by blast
  show ?thesis
    using s' by (intro exI [of _ s']) (auto simp: consume_cpu_def CLOCKS_PER_SEC_def second_def)
qed

lemma cpu_benign_wall:
  "i \<le> 5 \<Longrightarrow> \<exists>s'. cpu_benign b i s = Some s' \<and> wall s' = wall s + (5 - i) * second"
proof (induction b i s rule: cpu_benign.induct)
  case (1 b i s)
  show ?case
  proof (cases "i < 5")
    case True
    let ?s1 = "usleep 900000 (emit [Print Stdout ''[%d/5] CPU: ~5%% (normal)'' [i + 1]] s)"
    have c: "consume_cpu b 0 ?s1 = Some ?s1" by (rule consume_cpu_zero)
    obtain s' where s': "cpu_benign b (Suc i) (usleep 100000 ?s1) = Some s'"
        "wall s' = wall (usleep 100000 ?s1) + (5 - Suc i) * second"
      using "1.IH" [OF True c] True by auto
    have "cpu_benign b i s = Some s'"
      using True c s'(1) by (subst cpu_benign.simps) simp
    moreover have "wall s' = wall s + (5 - i) * second"
      using s'(2) True by (simp add: second_def algebra_simps Suc_diff_Suc)
    ultimately show ?thesis by blast
  next
    case False
    then show ?thesis using "1.prems" by (subst cpu_benign.simps) simp
  qed
qed

lemma cpu_attack_wall:
  "0 < b \<Longrightarrow> i \<le> 15 \<Longrightarrow>
   \<exists>s'. cpu_attack b i s = Some s'
      \<and> wall s + (15 - i) * second \<le> wall s'
      \<and> wall s' < wall s + (15 - i) * second + (15 - i) * b + (if i < 15 then 0 else 1)
      \<and> (b dvd second \<longrightarrow> wall s' = wall s + (15 - i) * second)"
proof (induction b i s rule: cpu_attack.induct)
  case (1 b i s)
  show ?case
  proof (cases "i < 15")
    case True
    let ?s0 = "emit [Print Stdout ''[%d/15] CPU: 95%%+ (ANOMALOUS)'' [i + 1]] s"
    obtain s1 where s1: "consume_cpu b 1 ?s0 = Some s1"
        "wall ?s0 + second \<le> wall s1" "wall s1 < wall ?s0 + second + b"
        "b dvd second \<longrightarrow> wall s1 = wall ?s0 + second"
      using consume_cpu_one [OF "1.prems"(1), of ?s0] by blast
    obtain s' where s': "cpu_attack b (Suc i) s1 = Some s'"
        "wall s1 + (15 - Suc i) * second \<le> wall s'"
        "wall s' < wall s1 + (15 - Suc i) * second + (15 - Suc i) * b + (if Suc i < 15 then 0 else 1)"
        "b dvd second \<longrightarrow> wall s' = wall s1 + (15 - Suc i) * second"
      using "1.IH" [OF True s1(1) "1.prems"(1)] True by auto
    have d: "15 - i = Suc (15 - Suc i)" using True by simp
    have "cpu_attack b i s = Some s'"
      using True s1(1) s'(1) by (subst cpu_attack.simps) simp
    moreover have "wall s + (15 - i) * second \<le> wall s'"
      using s1(2) s'(2) unfolding d by simp
    moreover have "wall s' < wall s + (15 - i) * second + (15 - i) * b + (if i < 15 then 0 else 1)"
      using s1(3) s'(3) True unfolding d by (auto split: if_splits)
    moreover have "b dvd second \<longrightarrow> wall s' = wall s + (15 - i) * second"
      using s1(4) s'(4) unfolding d by simp
    ultimately show ?thesis by blast
  next
    case False
    then show ?thesis using "1.prems" by (subst cpu_attack.simps) simp
  qed
qed

lemma cpu_cooldown_wall: "i \<le> 3 \<Longrightarrow> wall (cpu_cooldown i s) = wall s + (3 - i) * second"
proof (induction i s rule: cpu_cooldown.induct)
  case (1 i s)
  show ?case
  proof (cases "i < 3")
    case True
    have d: "3 - i = Suc (3 - Suc i)" using True by simp
    show ?thesis
      using "1.IH" [OF True] True unfolding d by (subst cpu_cooldown.simps) simp
  next
    case False
    then show ?thesis using "1.prems" by (subst cpu_cooldown.simps) simp
  qed
qed

section \<open>Programs that do not issue a failed call again\<close>

lemma failed_attempt: "failed e \<Longrightarrow> is_attempt e"
  by (cases e) simp_all

lemma same_call_attempt: "same_call e e' \<Longrightarrow> is_attempt e'"
  by (cases e') (auto simp: same_call_def)

lemma calm_narrating [simp]: "calm (Print c m a)" "calm (Sleep n)" "calm (Burn b)"
  by (simp_all add: calm_def)

lemma calm_no_failed: "list_all calm r \<Longrightarrow> \<not> list_ex failed r"
  by (auto simp: list_all_iff list_ex_iff calm_def dest: failed_attempt)

lemma no_attempt_no_failed: "\<not> list_ex is_attempt u \<Longrightarrow> \<not> list_ex failed u"
  by (auto simp: list_ex_iff dest: failed_attempt)

lemma retries_append:
  "retries (t @ u) = (retries t \<or> retries u \<or> (list_ex is_diag t \<and> list_ex is_attempt u))"
  by (induction t) auto

lemma no_diag_no_retry: "\<not> list_ex is_diag t \<Longrightarrow> \<not> retries t"
  by (induction t) auto

lemma grows_no_diag:
  "grows K t u \<Longrightarrow> (\<And>e. K e \<Longrightarrow> \<not> is_diag e) \<Longrightarrow> \<not> list_ex is_diag t \<Longrightarrow> \<not> list_ex is_diag u"
  by (auto simp: grows_def list_all_iff list_ex_iff)

lemma grows_no_failed:
  "grows K t u \<Longrightarrow> (\<And>e. K e \<Longrightarrow> \<not> failed e) \<Longrightarrow> \<not> list_ex failed t \<Longrightarrow> \<not> list_ex failed u"
  by (auto simp: grows_def list_all_iff list_ex_iff)

lemma grows_all_calm:
  "grows K t u \<Longrightarrow> (\<And>e. K e \<Longrightarrow> calm e) \<Longrightarrow> list_all calm t \<Longrightarrow> list_all calm u"
  by (auto simp: grows_def list_all_iff)

lemma reissues_append:
  "reissues (t @ u) =
     (reissues t \<or> reissues u \<or> (\<exists>e\<in>set t. failed e \<and> list_ex (same_call e) u))"
  by (induction t) auto

lemma no_failed_no_reissue: "\<not> list_ex failed t \<Longrightarrow> \<not> reissues t"
  by (induction t) auto

lemma calm_no_reissue: "list_all calm t \<Longrightarrow> \<not> reissues t"
  by (rule no_failed_no_reissue) (rule calm_no_failed)

lemma no_reissue_append:
  "\<not> reissues t \<Longrightarrow> \<not> list_ex is_attempt u \<Longrightarrow> \<not> reissues (t @ u)"
proof -
  assume t: "\<not> reissues t" and u: "\<not> list_ex is_attempt u"
  have "\<not> reissues u" using u by (intro no_failed_no_reissue no_attempt_no_failed)
  moreover have "\<not> list_ex (same_call e) u" for e
    using u by (auto simp: list_ex_iff dest: same_call_attempt)
  ultimately show ?thesis using t by (simp add: reissues_append)
qed

lemma reissues_intro:
  "failed e \<Longrightarrow> same_call e e' \<Longrightarrow> reissues (t @ e # u @ e' # r)"
  by (simp add: reissues_append)

lemma stops_append:
  "stops (t @ u) = (stops t \<and> stops u \<and> (list_ex failed t \<longrightarrow> \<not> list_ex is_attempt u))"
  by (induction t) auto

lemma stops_quiet: "\<not> list_ex failed t \<Longrightarrow> stops t"
  by (induction t) auto

lemma stops_more: "stops t \<Longrightarrow> \<not> list_ex is_attempt u \<Longrightarrow> stops (t @ u)"
  by (simp add: stops_append stops_quiet no_attempt_no_failed)

lemma stops_fail:
  "\<not> list_ex failed t \<Longrightarrow> \<not> list_ex is_attempt u \<Longrightarrow> stops ((t @ [e]) @ u)"
  by (simp add: stops_append stops_quiet no_attempt_no_failed)

lemma stops_calm: "stops t \<Longrightarrow> list_all calm r \<Longrightarrow> stops (t @ r)"
  by (rule stops_more) (auto dest: calm_no_attempt)

lemma stops_no_reissue: "stops t \<Longrightarrow> \<not> reissues t"
  by (induction t) (auto simp: list_ex_iff dest: same_call_attempt)

subsection \<open>Bounded generators\<close>

lemma mlp_warn_quiet [simp]:
  "\<not> list_ex failed (mlp_warn i)" "\<not> list_ex is_attempt (mlp_warn i)"
  "\<not> list_ex is_diag (mlp_warn i)"
  by (simp_all add: mlp_warn_def)

lemma mlp_leak_stops:
  "\<not> list_ex failed (trace s) \<Longrightarrow> stops (trace (mlp_leak mres i s))"
proof (induction mres i s rule: mlp_leak.induct)
  case (1 mres i s)
  show ?case
  proof (cases rule: mlp_leak_cases [where i = i and mres = mres])
    case over
    then show ?thesis using "1.prems" by (simp add: mlp_leak_done stops_quiet)
  next
    case fail
    have "stops ((trace s @ [Malloc (mlp_alloc_size i) 0])
            @ [Diag Stdout ''[%d/25] Memory allocation FAILED at %zu MB'' [i + 1, mlp_alloc_size i div MB],
               Diag Stdout ''(System limit reached - this is expected)'' []])"
      using "1.prems" by (intro stops_fail) simp_all
    then show ?thesis using fail by (simp add: mlp_leak_fail)
  next
    case step
    then show ?thesis
      using "1.IH" [OF step(1) refl refl refl] "1.prems" by (simp add: mlp_leak_step)
  qed
qed

lemma mlp_no_reissue: "\<not> reissues (trace (snd (mlp_main mres g)))"
proof -
  obtain r where r: "trace (snd (mlp_main mres g)) = trace (mlp_attack mres g) @ r" "list_all calm r"
    using mlp_epilogue [of mres g] by blast
  have "stops (trace (mlp_attack mres g))"
    unfolding mlp_attack_def by (rule mlp_leak_stops) (simp add: mlp_init_def)
  then show ?thesis using r by (simp add: stops_calm stops_no_reissue)
qed

lemma creates_below_mono: "creates_below n e \<Longrightarrow> n \<le> m \<Longrightarrow> creates_below m e"
  by (cases e) auto

lemma creates_below_calm: "calm e \<Longrightarrow> creates_below n e"
  by (cases e) (auto simp: calm_def)

lemma same_create: "same_call e (Thread_create n ok) \<Longrightarrow> creates_below n e \<Longrightarrow> False"
  by (cases e) (auto simp: same_call_def)

lemma create_next:
  "\<not> reissues t \<Longrightarrow> list_all (creates_below n) t \<Longrightarrow> list_all calm u \<Longrightarrow>
   \<not> reissues (t @ Thread_create n ok # u)
   \<and> list_all (creates_below (Suc n)) (t @ Thread_create n ok # u)"
proof -
  assume t: "\<not> reissues t" and b: "list_all (creates_below n) t" and u: "list_all calm u"
  have "\<not> list_ex (same_call e) [Thread_create n ok]" if "e \<in> set t" for e
    using b that by (auto simp: list_all_iff dest: same_create)
  then have a: "\<not> reissues (t @ [Thread_create n ok])"
    using t by (simp add: reissues_append)
  have nu: "\<not> list_ex is_attempt u" using u by (rule calm_no_attempt)
  have "\<not> reissues ((t @ [Thread_create n ok]) @ u)"
    using a nu by (rule no_reissue_append)
  then have c: "\<not> reissues (t @ Thread_create n ok # u)" by simp
  have "creates_below (Suc n) e" if "e \<in> set t" for e
    using b that by (auto simp: list_all_iff intro: creates_below_mono)
  moreover have "creates_below (Suc n) e" if "e \<in> set u" for e
    using u that by (auto simp: list_all_iff creates_below_calm)
  ultimately have "list_all (creates_below (Suc n)) (t @ Thread_create n ok # u)"
    by (auto simp: list_all_iff)
  with c show ?thesis by simp
qed

lemma fbg_phase1_ordered:
  "i \<le> 5 \<Longrightarrow> \<not> reissues (trace s) \<Longrightarrow> list_all (creates_below i) (trace s) \<Longrightarrow>
   \<not> reissues (trace (fbg_phase1 ok mx i s))
   \<and> list_all (creates_below 5) (trace (fbg_phase1 ok mx i s))"
proof (induction ok mx i s rule: fbg_phase1.induct)
  case (1 ok mx i s)
  show ?case
  proof (cases "i < 5 \<and> i < mx")
    case True
    let ?s' = "if ok i then
             emit [Thread_create i True,
                   Print Stdout ''Created thread %d (total: %d)'' [i + 1, created_threads s + 1],
                   Sleep second]
               (s\<lparr>threads := (threads s)[i := Live],
                  created_threads := created_threads s + 1\<rparr>)
           else emit [Thread_create i False] s"
    have "\<not> reissues (trace ?s') \<and> list_all (creates_below (Suc i)) (trace ?s')"
      using create_next [OF "1.prems"(2,3), of "[Print Stdout ''Created thread %d (total: %d)'' [i + 1, created_threads s + 1], Sleep second]" True]
        create_next [OF "1.prems"(2,3), of "[]" False]
      by simp
    then have "\<not> reissues (trace (fbg_phase1 ok mx (Suc i) ?s'))
        \<and> list_all (creates_below 5) (trace (fbg_phase1 ok mx (Suc i) ?s'))"
      using True by (intro "1.IH") simp_all
    moreover have "fbg_phase1 ok mx i s = fbg_phase1 ok mx (Suc i) ?s'"
      using True by (subst fbg_phase1.simps) simp
    ultimately show ?thesis by simp
  next
    case False
    have "list_all (creates_below 5) (trace s)"
      using "1.prems"(1,3) by (auto simp: list_all_iff intro: creates_below_mono)
    moreover have "fbg_phase1 ok mx i s = s"
      by (subst fbg_phase1.simps) (simp only: False if_False)
    ultimately show ?thesis using "1.prems"(2) by simp
  qed
qed

lemma fbg_milestone_calm: "list_all calm (fbg_milestone c)"
  by (simp add: fbg_milestone_def)

lemma fbg_phase2_ordered:
  "\<not> reissues (trace s) \<Longrightarrow> list_all (creates_below i) (trace s) \<Longrightarrow>
   \<not> reissues (trace (fbg_phase2 ok mx i s))"
proof (induction ok mx i s rule: fbg_phase2.induct)
  case (1 ok mx i s)
  consider (over) "\<not> i < mx" | (fail) "i < mx" "\<not> ok i" | (step) "i < mx" "ok i" by blast
  then show ?case
  proof cases
    case over
    then show ?thesis using "1.prems" by (subst fbg_phase2.simps) simp
  next
    case fail
    have "\<not> list_ex (same_call e) [Thread_create i False]" if "e \<in> set (trace s)" for e
      using "1.prems"(2) that by (auto simp: list_all_iff dest: same_create)
    then have "\<not> reissues (trace s @ [Thread_create i False])"
      using "1.prems"(1) by (simp add: reissues_append)
    then have "\<not> reissues ((trace s @ [Thread_create i False])
              @ [Diag Stdout ''Failed to create thread %d (limit reached)'' [i + 1]])"
      by (rule no_reissue_append) simp
    moreover have "fbg_phase2 ok mx i s =
        emit [Thread_create i False,
              Diag Stdout ''Failed to create thread %d (limit reached)'' [i + 1]] s"
      using fail by (subst fbg_phase2.simps) simp
    ultimately show ?thesis by simp
  next
    case step
    let ?s' = "emit ([Thread_create i True] @ fbg_milestone (created_threads s + 1)
                    @ [Sleep (fbg_delay i)])
                (s\<lparr>threads := (threads s)[i := Live],
                   created_threads := created_threads s + 1\<rparr>)"
    have "\<not> reissues (trace ?s') \<and> list_all (creates_below (Suc i)) (trace ?s')"
      using create_next [OF "1.prems", of "fbg_milestone (created_threads s + 1) @ [Sleep (fbg_delay i)]" True]
        fbg_milestone_calm [of "created_threads s + 1"]
      by simp
    then have "\<not> reissues (trace (fbg_phase2 ok mx (Suc i) ?s'))"
      using step by (intro "1.IH") simp_all
    moreover have "fbg_phase2 ok mx i s = fbg_phase2 ok mx (Suc i) ?s'"
      using step by (subst fbg_phase2.simps) simp
    ultimately show ?thesis by simp
  qed
qed

lemma fbg_no_reissue: "\<not> reissues (trace (snd (fbg_main argv ok)))"
proof -
  obtain r where r: "trace (snd (fbg_main argv ok)) = trace (fbg_after_phase2 argv ok) @ r"
      "list_all calm r"
    using fbg_epilogue [of argv ok] by blast
  let ?s0 = "emit [Print Stdout ''Phase 1/3: Normal startup (1-5 threads)...'' []] fbg_init"
  let ?s1 = "fbg_phase1 ok (nat (max_threads_of argv)) 0 ?s0"
  have p1: "\<not> reissues (trace ?s1) \<and> list_all (creates_below 5) (trace ?s1)"
    by (rule fbg_phase1_ordered) (simp_all add: fbg_init_def)
  let ?h = "[Print Stdout ''Phase 2/3: ATTACK - Rapid thread spawning!'' []]"
  have "\<not> reissues (trace ?s1 @ ?h)"
    using p1 by (intro no_reissue_append) simp_all
  moreover have "list_all (creates_below 5) (trace ?s1 @ ?h)" using p1 by simp
  ultimately have "\<not> reissues (trace (fbg_phase2 ok (nat (max_threads_of argv)) 5 (emit ?h ?s1)))"
    by (intro fbg_phase2_ordered) simp_all
  then have "\<not> reissues (trace (fbg_after_phase2 argv ok))"
    by (simp add: fbg_after_phase2_def Let_def)
  moreover have "\<not> list_ex is_attempt r" using r(2) by (rule calm_no_attempt)
  ultimately show ?thesis using r(1) by (simp add: no_reissue_append)
qed

lemma rec_no_retry: "\<not> retries (trace (snd (rec_main os g)))"
  by (rule no_diag_no_retry) (rule rec_main_no_diag)

lemma ios_normal_quiet:
  "\<not> list_ex is_diag (trace s) \<Longrightarrow> \<not> list_ex is_diag (trace (ios_normal os base i s))"
proof (induction os base i s rule: ios_normal.induct)
  case (1 os base i s)
  show ?case using "1.IH" "1.prems" by (subst ios_normal.simps) auto
qed

lemma ios_storm_quiet:
  "\<not> list_ex is_diag (trace s) \<Longrightarrow> \<not> list_ex is_diag (trace (ios_storm os i s))"
proof (induction os i s rule: ios_storm.induct)
  case (1 os i s)
  show ?case using "1.IH" "1.prems" by (subst ios_storm.simps) (auto simp: Let_def)
qed

lemma ios_no_retry: "\<not> retries (trace (snd (ios_main os fs)))"
proof -
  consider (nomem) "ios_malloc os = 0" | (nofile) "ios_malloc os \<noteq> 0" "\<not> ios_fopen os"
    | (run) "ios_malloc os \<noteq> 0" "ios_fopen os" by blast
  then show ?thesis
  proof cases
    case nomem
    then show ?thesis by (simp add: ios_main_def)
  next
    case nofile
    then show ?thesis by (simp add: ios_main_def)
  next
    case run
    have "\<not> list_ex is_diag (trace (ios_after_storm os fs))"
      unfolding ios_after_storm_def
      by (intro ios_storm_quiet) (simp add: ios_normal_quiet ios_opened_def)
    then have "\<not> list_ex is_diag (trace (snd (ios_main os fs)))"
      using run by (simp add: ios_main_def Let_def ios_normal_quiet)
    then show ?thesis by (rule no_diag_no_retry)
  qed
qed

subsection \<open>Timed loops\<close>

lemma consume_loop_grows:
  "0 < b \<Longrightarrow> \<exists>s'. consume_loop b e s = Some s' \<and> grows is_burn (trace s) (trace s')"
proof (induction "e - cpu_clock s" arbitrary: s rule: less_induct)
  case less
  show ?case
  proof (cases "cpu_clock s < e")
    case False
    then have "consume_loop b e s = Some s" by (subst consume_loop.simps) simp
    then show ?thesis by simp
  next
    case True
    have step: "consume_loop b e s = consume_loop b e (burn b s)"
      using True by (subst consume_loop.simps) simp
    have "e - cpu_clock (burn b s) < e - cpu_clock s" using True less.prems by simp
    from less.hyps [OF this less.prems]
    obtain s' where s': "consume_loop b e (burn b s) = Some s'"
        "grows is_burn (trace (burn b s)) (trace s')"
      by blast
    have "grows is_burn (trace s) (trace (burn b s))" by (simp add: burn_def grows_def)
    then have "grows is_burn (trace s) (trace s')" using s'(2) by (rule grows_trans)
    then show ?thesis using step s'(1) by simp
  qed
qed

lemma burn_calm: "is_burn e \<Longrightarrow> calm e"
  by (cases e) simp_all

lemma burns_no_attempt: "list_all is_burn r \<Longrightarrow> \<not> list_ex is_attempt r"
proof (induction r)
  case Nil
  then show ?case by simp
next
  case (Cons e r)
  then show ?case by (cases e) simp_all
qed

lemma consume_loop_calm:
  "0 < b \<Longrightarrow> list_all calm (trace s) \<Longrightarrow>
   \<exists>s'. consume_loop b e s = Some s' \<and> list_all calm (trace s')"
proof -
  assume b: "0 < b" and q: "list_all calm (trace s)"
  obtain s' where s': "consume_loop b e s = Some s'" "grows is_burn (trace s) (trace s')"
    using consume_loop_grows [OF b] by blast
  have "list_all calm (trace s')"
    using s'(2) _ q by (rule grows_all_calm) (rule burn_calm)
  with s'(1) show ?thesis by blast
qed

lemma usleep_trace [simp]: "trace (usleep us s) = trace s @ [Sleep us]"
  by (simp add: usleep_def)

lemma cpu_benign_calm:
  "0 < b \<Longrightarrow> list_all calm (trace s) \<Longrightarrow>
   \<exists>s'. cpu_benign b i s = Some s' \<and> list_all calm (trace s')"
proof (induction b i s rule: cpu_benign.induct)
  case (1 b i s)
  show ?case
  proof (cases "i < 5")
    case True
    let ?s0 = "usleep 900000 (emit [Print Stdout ''[%d/5] CPU: ~5%% (normal)'' [i + 1]] s)"
    obtain s1 where s1: "consume_cpu b 0 ?s0 = Some s1" "list_all calm (trace s1)"
      using consume_loop_calm [OF "1.prems"(1), of ?s0] "1.prems"(2)
      unfolding consume_cpu_def by auto
    obtain s' where "cpu_benign b (Suc i) (usleep 100000 s1) = Some s'" "list_all calm (trace s')"
      using "1.IH" [OF True s1(1) "1.prems"(1)] s1(2) by auto
    then show ?thesis using True s1(1) by (subst cpu_benign.simps) simp
  next
    case False
    then show ?thesis using "1.prems" by (subst cpu_benign.simps) simp
  qed
qed

lemma cpu_attack_calm:
  "0 < b \<Longrightarrow> list_all calm (trace s) \<Longrightarrow>
   \<exists>s'. cpu_attack b i s = Some s' \<and> list_all calm (trace s')"
proof (induction b i s rule: cpu_attack.induct)
  case (1 b i s)
  show ?case
  proof (cases "i < 15")
    case True
    let ?s0 = "emit [Print Stdout ''[%d/15] CPU: 95%%+ (ANOMALOUS)'' [i + 1]] s"
    obtain s1 where s1: "consume_cpu b 1 ?s0 = Some s1" "list_all calm (trace s1)"
      using consume_loop_calm [OF "1.prems"(1), of ?s0] "1.prems"(2)
      unfolding consume_cpu_def by auto
    obtain s' where "cpu_attack b (Suc i) s1 = Some s'" "list_all calm (trace s')"
      using "1.IH" [OF True s1(1) "1.prems"(1)] s1(2) by auto
    then show ?thesis using True s1(1) by (subst cpu_attack.simps) simp
  next
    case False
    then show ?thesis using "1.prems" by (subst cpu_attack.simps) simp
  qed
qed

lemma cpu_cooldown_calm:
  "list_all calm (trace s) \<Longrightarrow> list_all calm (trace (cpu_cooldown i s))"
proof (induction i s rule: cpu_cooldown.induct)
  case (1 i s)
  show ?case using "1.IH" "1.prems" by (subst cpu_cooldown.simps) auto
qed

lemma cpu_phases_calm:
  "0 < b \<Longrightarrow> list_all calm (trace s) \<Longrightarrow>
   \<exists>r. cpu_phases b s = Some r \<and> list_all calm (trace (snd (snd r)))"
proof -
  assume b: "0 < b" and q: "list_all calm (trace s)"
  let ?s0 = "emit [Print Stdout ''Phase 1/3: Benign behavior (low CPU)...'' []] s"
  obtain s1 where s1: "cpu_benign b 0 ?s0 = Some s1" "list_all calm (trace s1)"
    using cpu_benign_calm [OF b, of ?s0 0] q by auto
  let ?a = "emit [Print Stdout ''Phase 2/3: ATTACK - CPU SPIKE!'' [],
                  Print Stdout ''Consuming 95%%+ CPU for 15 seconds...'' []] s1"
  obtain s2 where s2: "cpu_attack b 0 ?a = Some s2" "list_all calm (trace s2)"
    using cpu_attack_calm [OF b, of ?a 0] s1(2) by auto
  let ?s3 = "cpu_cooldown 0 (emit [Print Stdout ''Phase 3/3: Returning to normal behavior...'' []] s2)"
  have "list_all calm (trace ?s3)" using s2(2) by (intro cpu_cooldown_calm) simp
  then show ?thesis using s1(1) s2(1) by (simp add: cpu_phases_def)
qed

lemma cpu_pattern_line_undefined: "fmt_args Plain cpu_pattern_line = None"
  by (simp add: cpu_pattern_line_def is_flag_def is_length_def is_conversion_def isdigit_def)

lemma cpu_main_killed:
  "cpu_main b = Some (Killed, \<lparr>trace = [], cpu_clock = 0, wall = 0\<rparr>)"
  by (simp add: cpu_main_def printf_def cpu_pattern_line_undefined)

subsection \<open>Programs that run until stopped\<close>

lemma fw_loop_stops:
  "\<not> list_ex failed (trace s) \<Longrightarrow>
   (case fw_loop fuel os k s of
      Spinning s' \<Rightarrow> \<not> list_ex failed (trace s')
    | Broke s' \<Rightarrow> stops (trace s'))"
proof (induction fuel arbitrary: k s)
  case 0
  then show ?case by simp
next
  case (Suc fuel)
  show ?case
  proof (cases "fw_fwrite os k < fw_CHUNK_SIZE")
    case True
    have "stops ((trace s @ [Fwrite fw_CHUNK_SIZE (fw_fwrite os k)])
            @ [Diag Stderr ''Write failed after %lu MB'' [unat (total s) div (1024 * 1024)]])"
      using Suc.prems by (intro stops_fail) simp_all
    then show ?thesis using True by (simp add: fw_loop_short)
  next
    case False
    then obtain s1 where s1: "fw_loop (Suc fuel) os k s = fw_loop fuel os (Suc k) s1"
        "grows (\<lambda>e. \<not> failed e) (trace s) (trace s1)"
      using fw_loop_full_calls [of os k fuel s] by auto
    have "\<not> list_ex failed (trace s1)"
      using s1(2) _ Suc.prems by (rule grows_no_failed) simp
    then show ?thesis using Suc.IH [of s1 "Suc k"] s1(1) by simp
  qed
qed

lemma fw_no_reissue: "\<not> reissues (trace (final (fw_main fuel os f0)))"
proof -
  let ?s0 = "\<lparr>trace = [Print Stdout ''Starting file write test...'' [],
                         Print Stdout ''Output file: %s'' [],
                         Fopen ''test_output.dat'' (fw_fopen os)],
                total = 0, count = 0, out_file = f0\<rparr>"
  let ?s1 = "emit [Memset (fw_malloc os) 205 fw_CHUNK_SIZE]
               (emit [Malloc fw_CHUNK_SIZE (fw_malloc os)] (?s0\<lparr>out_file := Some 0\<rparr>))"
  consider (nofile) "\<not> fw_fopen os" | (nomem) "fw_fopen os" "fw_malloc os = 0"
    | (run) "fw_fopen os" "fw_malloc os \<noteq> 0" by blast
  then show ?thesis
  proof cases
    case nofile
    then show ?thesis by (simp add: fw_main_def Let_def same_call_def)
  next
    case nomem
    then show ?thesis by (simp add: fw_main_def Let_def same_call_def)
  next
    case run
    have q: "\<not> list_ex failed (trace ?s1)" using run by simp
    show ?thesis
    proof (cases "fw_loop fuel os 0 ?s1")
      case (Spinning s')
      then have "\<not> list_ex failed (trace s')" using fw_loop_stops [OF q, of fuel os 0] by simp
      then show ?thesis using run Spinning by (simp add: fw_main_def Let_def no_failed_no_reissue)
    next
      case (Broke s')
      then have "stops (trace s')" using fw_loop_stops [OF q, of fuel os 0] by simp
      then have "stops (trace s' @ [Free (fw_malloc os), Fclose])"
        by (rule stops_more) simp
      then show ?thesis using run Broke by (simp add: fw_main_def Let_def stops_no_reissue)
    qed
  qed
qed

lemma mh_loop_stops:
  "\<not> list_ex failed (trace s) \<Longrightarrow>
   (case mh_loop fuel mres k s of
      Spinning s' \<Rightarrow> \<not> list_ex failed (trace s')
    | Broke s' \<Rightarrow> stops (trace s'))"
proof (induction fuel arbitrary: k s)
  case 0
  then show ?case by simp
next
  case (Suc fuel)
  show ?case
  proof (cases "mres k = 0")
    case True
    have "stops ((trace s @ [Malloc mh_CHUNK_SIZE 0])
            @ [Diag Stderr ''malloc failed after %lu MB'' [unat (mh_total s) div (1024 * 1024)]])"
      using Suc.prems by (intro stops_fail) simp_all
    then show ?thesis using True by (simp add: Let_def)
  next
    case False
    define s2 where "s2 = (emit [Memset (mres k) 171 mh_CHUNK_SIZE] (emit [Malloc mh_CHUNK_SIZE (mres k)] s))
                       \<lparr>mh_total := mh_total s + of_nat mh_CHUNK_SIZE, mh_count := mh_count s + 1\<rparr>"
    define s3 where "s3 = (if mh_count s2 mod 10 = 0 then
                        emit [Print Stdout ''Allocated: %lu MB (%d chunks)''
                                [unat (mh_total s2) div (1024 * 1024), nat (mh_count s2)],
                              Fflush] s2
                      else s2)"
    have e: "mh_loop (Suc fuel) mres k s = mh_loop fuel mres (Suc k) (emit [Sleep 100000] s3)"
      using False by (simp add: Let_def s2_def s3_def)
    have "\<not> list_ex failed (trace (emit [Sleep 100000] s3))"
      using Suc.prems False by (simp add: s2_def s3_def)
    then show ?thesis using Suc.IH [of "emit [Sleep 100000] s3" "Suc k"] e by simp
  qed
qed

lemma mh_no_reissue: "\<not> reissues (trace (final (mh_main fuel mres)))"
proof -
  let ?s0 = "\<lparr>trace = [Print Stdout ''Starting memory allocation test...'' [], Fflush],
              mh_total = 0, mh_count = 0\<rparr>"
  have q: "\<not> list_ex failed (trace ?s0)" by simp
  show ?thesis
  proof (cases "mh_loop fuel mres 0 ?s0")
    case (Spinning s')
    then have "\<not> list_ex failed (trace s')" using mh_loop_stops [OF q, of fuel mres 0] by simp
    then show ?thesis using Spinning by (simp add: mh_main_def no_failed_no_reissue)
  next
    case (Broke s')
    then have "stops (trace s')" using mh_loop_stops [OF q, of fuel mres 0] by simp
    then show ?thesis using Broke by (simp add: mh_main_def stops_no_reissue)
  qed
qed

lemma il_loop_quiet:
  "\<not> list_ex is_attempt (trace s) \<Longrightarrow>
   exit_code (il_loop fuel s) = None \<and> \<not> list_ex is_attempt (trace (final (il_loop fuel s)))"
proof (induction fuel arbitrary: s)
  case 0
  then show ?case by simp
next
  case (Suc fuel)
  show ?case using Suc.prems by (simp add: Let_def Suc.IH)
qed

lemma il_no_reissue: "\<not> reissues (trace (final (il_main fuel)))"
  unfolding il_main_def
  by (intro no_failed_no_reissue no_attempt_no_failed conjunct2 [OF il_loop_quiet]) simp

subsection \<open>The ML test pattern\<close>

lemma cpu_burst_calm:
  "0 < b \<Longrightarrow> list_all calm (trace s) \<Longrightarrow>
   \<exists>s'. cpu_burst b ms s = Some s' \<and> list_all calm (trace s')"
  using consume_loop_calm [of b s] unfolding cpu_burst_def by blast

lemma cpu_burst_grows:
  "0 < b \<Longrightarrow> \<exists>s'. cpu_burst b ms s = Some s' \<and> grows is_burn (trace s) (trace s')"
  using consume_loop_grows [of b _ s] unfolding cpu_burst_def by blast

lemma mtp_gradual_calm:
  "0 < b \<Longrightarrow> list_all calm (trace s) \<Longrightarrow>
   \<exists>s'. mtp_gradual b i s = Some s' \<and> list_all calm (trace s')"
proof (induction b i s rule: mtp_gradual.induct)
  case (1 b i s)
  show ?case
  proof (cases "i < 20")
    case True
    let ?s0 = "emit [Print Stdout ''Iteration %d: CPU load %d%%'' [i + 1, (i + 1) * 5]] s"
    obtain s1 where s1: "cpu_burst b (50 + i * 25) ?s0 = Some s1" "list_all calm (trace s1)"
      using cpu_burst_calm [OF "1.prems"(1), of ?s0] "1.prems"(2) by auto
    obtain s' where "mtp_gradual b (Suc i) (usleep second s1) = Some s'" "list_all calm (trace s')"
      using "1.IH" [OF True s1(1) "1.prems"(1)] s1(2) by auto
    then show ?thesis using True s1(1) by (subst mtp_gradual.simps) simp
  next
    case False
    then show ?thesis using "1.prems" by (subst mtp_gradual.simps) simp
  qed
qed

lemma mtp_spike_calm:
  "0 < b \<Longrightarrow> list_all calm (trace s) \<Longrightarrow>
   \<exists>s'. mtp_spike b i s = Some s' \<and> list_all calm (trace s')"
proof (induction b i s rule: mtp_spike.induct)
  case (1 b i s)
  show ?case
  proof (cases "i < 15")
    case True
    let ?c = "if i = 7 then
                 cpu_burst b 800 (emit [Print Stdout ''!!! SUDDEN SPIKE at iteration %d !!!'' [i + 1]] s)
               else
                 cpu_burst b 50 (emit [Print Stdout ''Iteration %d: Normal load'' [i + 1]] s)"
    obtain s1 where s1: "?c = Some s1" "list_all calm (trace s1)"
      using cpu_burst_calm [OF "1.prems"(1), of "emit [Print Stdout ''!!! SUDDEN SPIKE at iteration %d !!!'' [i + 1]] s" 800]
        cpu_burst_calm [OF "1.prems"(1), of "emit [Print Stdout ''Iteration %d: Normal load'' [i + 1]] s" 50]
        "1.prems"(2)
      by (cases "i = 7") auto
    obtain s' where "mtp_spike b (Suc i) (usleep second s1) = Some s'" "list_all calm (trace s')"
      using "1.IH" [OF True s1(1) "1.prems"(1)] s1(2) by auto
    then show ?thesis using True s1(1) by (subst mtp_spike.simps) simp
  next
    case False
    then show ?thesis using "1.prems" by (subst mtp_spike.simps) simp
  qed
qed

lemma mtp_oscillate_calm:
  "0 < b \<Longrightarrow> list_all calm (trace s) \<Longrightarrow>
   \<exists>s'. mtp_oscillate b i s = Some s' \<and> list_all calm (trace s')"
proof (induction b i s rule: mtp_oscillate.induct)
  case (1 b i s)
  show ?case
  proof (cases "i < 20")
    case True
    let ?c = "if i mod 2 = 0 then
                 cpu_burst b 600 (emit [Print Stdout ''Iteration %d: HIGH CPU load'' [i + 1]] s)
               else
                 cpu_burst b 50 (emit [Print Stdout ''Iteration %d: LOW CPU load'' [i + 1]] s)"
    obtain s1 where s1: "?c = Some s1" "list_all calm (trace s1)"
      using cpu_burst_calm [OF "1.prems"(1), of "emit [Print Stdout ''Iteration %d: HIGH CPU load'' [i + 1]] s" 600]
        cpu_burst_calm [OF "1.prems"(1), of "emit [Print Stdout ''Iteration %d: LOW CPU load'' [i + 1]] s" 50]
        "1.prems"(2)
      by (cases "i mod 2 = 0") auto
    obtain s' where "mtp_oscillate b (Suc i) (usleep second s1) = Some s'" "list_all calm (trace s')"
      using "1.IH" [OF True s1(1) "1.prems"(1)] s1(2) by auto
    then show ?thesis using True s1(1) by (subst mtp_oscillate.simps) simp
  next
    case False
    then show ?thesis using "1.prems" by (subst mtp_oscillate.simps) simp
  qed
qed

lemma mtp_combined_stops:
  "0 < b \<Longrightarrow> stops (trace (snd ms)) \<Longrightarrow> (i \<le> 10 \<longrightarrow> \<not> list_ex is_attempt (trace (snd ms))) \<Longrightarrow>
   \<exists>ms'. mtp_combined b mres i ms = Some ms' \<and> stops (trace (snd ms'))"
proof (induction b mres i ms rule: mtp_combined.induct)
  case (1 b mres i ms)
  show ?case
  proof (cases "i < 25")
    case True
    let ?c = "if i = 10 then
                 (case cpu_burst b 700
                         (emit [Print Stdout ''!!! ANOMALY: Simultaneous CPU spike + memory surge !!!'' []]
                            (snd ms)) of
                    None \<Rightarrow> None
                  | Some s1 \<Rightarrow> Some (mres i, allocate_memory (50 * 1024 * 1024) (mres i) s1))
               else
                 (case cpu_burst b 100
                         (emit [Print Stdout ''Iteration %d: Normal behavior'' [i + 1]] (snd ms)) of
                    None \<Rightarrow> None
                  | Some s1 \<Rightarrow> Some (fst ms, s1))"
    have m1: "\<exists>ms1. ?c = Some ms1 \<and> stops (trace (snd ms1))
                \<and> (Suc i \<le> 10 \<longrightarrow> \<not> list_ex is_attempt (trace (snd ms1)))"
    proof (cases "i = 10")
      case True
      let ?e = "emit [Print Stdout ''!!! ANOMALY: Simultaneous CPU spike + memory surge !!!'' []] (snd ms)"
      obtain s1 where s1: "cpu_burst b 700 ?e = Some s1" "grows is_burn (trace ?e) (trace s1)"
        using cpu_burst_grows [OF "1.prems"(1), of 700 ?e] by blast
      obtain r where r: "trace s1 = trace ?e @ r" "list_all is_burn r"
        using s1(2) by (auto simp: grows_def)
      have "\<not> list_ex is_attempt (trace ?e)" using "1.prems"(3) True by simp
      then have "\<not> list_ex is_attempt (trace s1)"
        using r burns_no_attempt [of r] by simp
      then have "\<not> list_ex failed (trace s1)" by (rule no_attempt_no_failed)
      then have "stops (trace (allocate_memory (50 * 1024 * 1024) (mres i) s1))"
        by (simp add: allocate_memory_def stops_append stops_quiet)
      then show ?thesis using True s1(1) by simp
    next
      case False
      let ?e = "emit [Print Stdout ''Iteration %d: Normal behavior'' [i + 1]] (snd ms)"
      obtain s1 where s1: "cpu_burst b 100 ?e = Some s1" "grows is_burn (trace ?e) (trace s1)"
        using cpu_burst_grows [OF "1.prems"(1), of 100 ?e] by blast
      obtain r where r: "trace s1 = trace ?e @ r" "list_all is_burn r"
        using s1(2) by (auto simp: grows_def)
      have nr: "\<not> list_ex is_attempt ([Print Stdout ''Iteration %d: Normal behavior'' [i + 1]] @ r)"
        using burns_no_attempt [OF r(2)] by simp
      have "stops (trace (snd ms) @ ([Print Stdout ''Iteration %d: Normal behavior'' [i + 1]] @ r))"
        using "1.prems"(2) nr by (rule stops_more)
      then have a: "stops (trace s1)" using r(1) by simp
      have "Suc i \<le> 10 \<longrightarrow> \<not> list_ex is_attempt (trace s1)"
        using "1.prems"(3) nr r(1) by simp
      then show ?thesis using False s1(1) a by simp
    qed
    then obtain ms1 where ms1: "?c = Some ms1" "stops (trace (snd ms1))"
        "Suc i \<le> 10 \<longrightarrow> \<not> list_ex is_attempt (trace (snd ms1))"
      by blast
    have "\<exists>ms'. mtp_combined b mres (Suc i) (fst ms1, usleep second (snd ms1)) = Some ms'
        \<and> stops (trace (snd ms'))"
      using ms1(2,3) by (intro "1.IH" [OF True ms1(1) "1.prems"(1)]) (simp_all add: stops_more)
    then show ?thesis using True ms1(1) by (subst mtp_combined.simps) simp
  next
    case False
    then show ?thesis using "1.prems" by (subst mtp_combined.simps) simp
  qed
qed

lemma mtp_leak_stops:
  "\<not> list_ex failed (trace s) \<Longrightarrow> stops (trace (mtp_leak mres i s))"
proof (induction mres i s rule: mtp_leak.induct)
  case (1 mres i s)
  consider (over) "\<not> i < 20" | (fail) "i < 20" "mres i = 0" | (step) "i < 20" "mres i \<noteq> 0" by blast
  then show ?case
  proof cases
    case over
    then show ?thesis using "1.prems" by (subst mtp_leak.simps) (simp add: stops_quiet)
  next
    case fail
    have "stops (((trace s @ [Print Stdout ''Iteration %d: Allocating %zu MB (total: %zu MB)''
                             [i + 1, (i + 1) * 5 * 1024 * 1024 div (1024 * 1024), (i + 1) * (i + 2) div 2 * 5]])
                  @ [Malloc ((i + 1) * 5 * 1024 * 1024) 0])
            @ [Diag Stdout ''Memory allocation failed!'' []])"
      using "1.prems" by (intro stops_fail) simp_all
    then show ?thesis using fail
      by (subst mtp_leak.simps) (simp add: Let_def allocate_memory_def)
  next
    case step
    then show ?thesis
      using "1.IH" [OF step(1) refl refl refl] "1.prems"
      by (subst mtp_leak.simps) (simp add: Let_def allocate_memory_def)
  qed
qed

lemma mtp_emit [simp]: "ptrs (emit es s) = ptrs s"
  by (simp add: emit_def)

lemma mtp_cleanup_state:
  "state_of (mtp_cleanup 0 s) = emit (swept (ptrs s) 0 (halt (ptrs s) 20 0)) s"
  by (simp add: mtp_cleanup_def free_all_state)

section \<open>Programs that make no attempt after a report\<close>

lemma no_attempt_no_retry: "\<not> list_ex is_attempt t \<Longrightarrow> \<not> retries t"
  by (induction t) auto

lemma settled_no_retry: "settled tr \<Longrightarrow> \<not> retries tr"
  by (auto simp: settled_def retries_append no_diag_no_retry no_attempt_no_retry)

lemma settled_quiet: "\<not> list_ex is_diag t \<Longrightarrow> settled t"
  unfolding settled_def by (rule exI [of _ t], rule exI [of _ "[]"]) simp

lemma settled_append: "settled t \<Longrightarrow> \<not> list_ex is_attempt u \<Longrightarrow> settled (t @ u)"
proof -
  assume "settled t" and u: "\<not> list_ex is_attempt u"
  then obtain a r where "t = a @ r" "\<not> list_ex is_diag a" "\<not> list_ex is_attempt r"
    by (auto simp: settled_def)
  then show ?thesis
    unfolding settled_def using u by (intro exI [of _ a] exI [of _ "r @ u"]) simp
qed

lemma settled_fail: "\<not> list_ex is_diag t \<Longrightarrow> \<not> list_ex is_attempt u \<Longrightarrow> settled (t @ u)"
  unfolding settled_def by blast

lemma settled_calm: "settled t \<Longrightarrow> list_all calm r \<Longrightarrow> settled (t @ r)"
  by (rule settled_append) (auto dest: calm_no_attempt)

lemma calm_settled: "list_all calm t \<Longrightarrow> settled t"
  by (rule settled_quiet) (rule calm_no_diag)

lemma burn_no_diag: "is_burn e \<Longrightarrow> \<not> is_diag e"
  by (cases e) simp_all

subsection \<open>Bounded generators\<close>

lemma mlp_leak_settled:
  "\<not> list_ex is_diag (trace s) \<Longrightarrow> settled (trace (mlp_leak mres i s))"
proof (induction mres i s rule: mlp_leak.induct)
  case (1 mres i s)
  show ?case
  proof (cases rule: mlp_leak_cases [where i = i and mres = mres])
    case over
    then show ?thesis using "1.prems" by (simp add: mlp_leak_done settled_quiet)
  next
    case fail
    have "settled ((trace s @ [Malloc (mlp_alloc_size i) 0])
            @ [Diag Stdout ''[%d/25] Memory allocation FAILED at %zu MB'' [i + 1, mlp_alloc_size i div MB],
               Diag Stdout ''(System limit reached - this is expected)'' []])"
      using "1.prems" by (intro settled_fail) simp_all
    then show ?thesis using fail by (simp add: mlp_leak_fail)
  next
    case step
    then show ?thesis
      using "1.IH" [OF step(1) refl refl refl] "1.prems" by (simp add: mlp_leak_step)
  qed
qed

lemma mlp_no_retry: "\<not> retries (trace (snd (mlp_main mres g)))"
proof -
  obtain r where r: "trace (snd (mlp_main mres g)) = trace (mlp_attack mres g) @ r" "list_all calm r"
    using mlp_epilogue [of mres g] by blast
  have "settled (trace (mlp_attack mres g))"
    unfolding mlp_attack_def by (rule mlp_leak_settled) (simp add: mlp_init_def)
  then show ?thesis using r by (simp add: settled_calm settled_no_retry)
qed

lemma fbg_phase1_quiet:
  "\<not> list_ex is_diag (trace s) \<Longrightarrow> \<not> list_ex is_diag (trace (fbg_phase1 ok mx i s))"
proof (induction ok mx i s rule: fbg_phase1.induct)
  case (1 ok mx i s)
  show ?case
    using "1.IH" "1.prems" by (subst fbg_phase1.simps) auto
qed

lemma fbg_milestone_quiet [simp]: "\<not> list_ex is_diag (fbg_milestone c)"
  by (simp add: fbg_milestone_def)

lemma fbg_phase2_settled:
  "\<not> list_ex is_diag (trace s) \<Longrightarrow> settled (trace (fbg_phase2 ok mx i s))"
proof (induction ok mx i s rule: fbg_phase2.induct)
  case (1 ok mx i s)
  consider (over) "\<not> i < mx" | (fail) "i < mx" "\<not> ok i" | (step) "i < mx" "ok i" by blast
  then show ?case
  proof cases
    case over
    then show ?thesis using "1.prems" by (subst fbg_phase2.simps) (simp add: settled_quiet)
  next
    case fail
    have "settled ((trace s @ [Thread_create i False])
            @ [Diag Stdout ''Failed to create thread %d (limit reached)'' [i + 1]])"
      using "1.prems" by (intro settled_fail) simp_all
    then show ?thesis using fail by (subst fbg_phase2.simps) simp
  next
    case step
    then show ?thesis
      using "1.IH" [OF step] "1.prems" by (subst fbg_phase2.simps) simp
  qed
qed

lemma fbg_no_retry: "\<not> retries (trace (snd (fbg_main argv ok)))"
proof -
  obtain r where r: "trace (snd (fbg_main argv ok)) = trace (fbg_after_phase2 argv ok) @ r"
      "list_all calm r"
    using fbg_epilogue [of argv ok] by blast
  have "settled (trace (fbg_after_phase2 argv ok))"
    unfolding fbg_after_phase2_def Let_def
    by (intro fbg_phase2_settled) (simp add: fbg_phase1_quiet fbg_init_def)
  then show ?thesis using r by (simp add: settled_calm settled_no_retry)
qed

subsection \<open>Timed loops\<close>

lemma cpu_quiet:
  "\<exists>r. cpu_main b = Some r \<and> \<not> reissues (trace (snd r)) \<and> \<not> retries (trace (snd r))"
  "0 < b \<Longrightarrow> \<exists>r. cpu_phases b \<lparr>trace = [], cpu_clock = 0, wall = 0\<rparr> = Some r
                    \<and> \<not> reissues (trace (snd (snd r))) \<and> \<not> retries (trace (snd (snd r)))"
proof -
  show "\<exists>r. cpu_main b = Some r \<and> \<not> reissues (trace (snd r)) \<and> \<not> retries (trace (snd r))"
    by (simp add: cpu_main_killed)
  assume "0 < b"
  then obtain r where r: "cpu_phases b \<lparr>trace = [], cpu_clock = 0, wall = 0\<rparr> = Some r"
      "list_all calm (trace (snd (snd r)))"
    using cpu_phases_calm [of b "\<lparr>trace = [], cpu_clock = 0, wall = 0\<rparr>"] by auto
  have "\<not> reissues (trace (snd (snd r)))" using r(2) by (rule calm_no_reissue)
  moreover have "\<not> retries (trace (snd (snd r)))"
    using r(2) by (intro no_attempt_no_retry calm_no_attempt)
  ultimately show "\<exists>r. cpu_phases b \<lparr>trace = [], cpu_clock = 0, wall = 0\<rparr> = Some r
                    \<and> \<not> reissues (trace (snd (snd r))) \<and> \<not> retries (trace (snd (snd r)))"
    using r(1) by blast
qed

subsection \<open>Programs that run until stopped\<close>

lemma fw_loop_settled:
  "\<not> list_ex is_diag (trace s) \<Longrightarrow>
   (case fw_loop fuel os k s of
      Spinning s' \<Rightarrow> \<not> list_ex is_diag (trace s')
    | Broke s' \<Rightarrow> settled (trace s'))"
proof (induction fuel arbitrary: k s)
  case 0
  then show ?case by simp
next
  case (Suc fuel)
  show ?case
  proof (cases "fw_fwrite os k < fw_CHUNK_SIZE")
    case True
    have "settled ((trace s @ [Fwrite fw_CHUNK_SIZE (fw_fwrite os k)])
            @ [Diag Stderr ''Write failed after %lu MB'' [unat (total s) div (1024 * 1024)]])"
      using Suc.prems by (intro settled_fail) simp_all
    then show ?thesis using True by (simp add: fw_loop_short)
  next
    case False
    then obtain s1 where s1: "fw_loop (Suc fuel) os k s = fw_loop fuel os (Suc k) s1"
        "grows (\<lambda>e. \<not> is_unlink e \<and> \<not> is_diag e) (trace s) (trace s1)"
      using fw_loop_full [of os k fuel s] by auto
    have "\<not> list_ex is_diag (trace s1)"
      using s1(2) _ Suc.prems by (rule grows_no_diag) simp
    then show ?thesis using Suc.IH [of s1 "Suc k"] s1(1) by simp
  qed
qed

lemma fw_no_retry: "\<not> retries (trace (final (fw_main fuel os f0)))"
proof -
  let ?s0 = "\<lparr>trace = [Print Stdout ''Starting file write test...'' [],
                         Print Stdout ''Output file: %s'' [],
                         Fopen ''test_output.dat'' (fw_fopen os)],
                total = 0, count = 0, out_file = f0\<rparr>"
  let ?s1 = "emit [Memset (fw_malloc os) 205 fw_CHUNK_SIZE]
               (emit [Malloc fw_CHUNK_SIZE (fw_malloc os)] (?s0\<lparr>out_file := Some 0\<rparr>))"
  consider (nofile) "\<not> fw_fopen os" | (nomem) "fw_fopen os" "fw_malloc os = 0"
    | (run) "fw_fopen os" "fw_malloc os \<noteq> 0" by blast
  then show ?thesis
  proof cases
    case nofile
    then show ?thesis by (simp add: fw_main_def Let_def)
  next
    case nomem
    then show ?thesis by (simp add: fw_main_def Let_def)
  next
    case run
    have q: "\<not> list_ex is_diag (trace ?s1)" by simp
    show ?thesis
    proof (cases "fw_loop fuel os 0 ?s1")
      case (Spinning s')
      then have "\<not> list_ex is_diag (trace s')" using fw_loop_settled [OF q, of fuel os 0] by simp
      then show ?thesis using run Spinning by (simp add: fw_main_def Let_def no_diag_no_retry)
    next
      case (Broke s')
      then have "settled (trace s')" using fw_loop_settled [OF q, of fuel os 0] by simp
      then have "settled (trace s' @ [Free (fw_malloc os), Fclose])"
        by (rule settled_append) simp
      then show ?thesis using run Broke by (simp add: fw_main_def Let_def settled_no_retry)
    qed
  qed
qed

lemma mh_loop_settled:
  "\<not> list_ex is_diag (trace s) \<Longrightarrow>
   (case mh_loop fuel mres k s of
      Spinning s' \<Rightarrow> \<not> list_ex is_diag (trace s')
    | Broke s' \<Rightarrow> settled (trace s'))"
proof (induction fuel arbitrary: k s)
  case 0
  then show ?case by simp
next
  case (Suc fuel)
  show ?case
  proof (cases "mres k = 0")
    case True
    have "settled ((trace s @ [Malloc mh_CHUNK_SIZE 0])
            @ [Diag Stderr ''malloc failed after %lu MB'' [unat (mh_total s) div (1024 * 1024)]])"
      using Suc.prems by (intro settled_fail) simp_all
    then show ?thesis using True by (simp add: Let_def)
  next
    case False
    define s2 where "s2 = (emit [Memset (mres k) 171 mh_CHUNK_SIZE] (emit [Malloc mh_CHUNK_SIZE (mres k)] s))
                       \<lparr>mh_total := mh_total s + of_nat mh_CHUNK_SIZE, mh_count := mh_count s + 1\<rparr>"
    define s3 where "s3 = (if mh_count s2 mod 10 = 0 then
                        emit [Print Stdout ''Allocated: %lu MB (%d chunks)''
                                [unat (mh_total s2) div (1024 * 1024), nat (mh_count s2)],
                              Fflush] s2
                      else s2)"
    have e: "mh_loop (Suc fuel) mres k s = mh_loop fuel mres (Suc k) (emit [Sleep 100000] s3)"
      using False by (simp add: Let_def s2_def s3_def)
    have "\<not> list_ex is_diag (trace (emit [Sleep 100000] s3))"
      using Suc.prems by (simp add: s2_def s3_def)
    then show ?thesis using Suc.IH [of "emit [Sleep 100000] s3" "Suc k"] e by simp
  qed
qed

lemma mh_no_retry: "\<not> retries (trace (final (mh_main fuel mres)))"
proof -
  let ?s0 = "\<lparr>trace = [Print Stdout ''Starting memory allocation test...'' [], Fflush],
              mh_total = 0, mh_count = 0\<rparr>"
  have q: "\<not> list_ex is_diag (trace ?s0)" by simp
  show ?thesis
  proof (cases "mh_loop fuel mres 0 ?s0")
    case (Spinning s')
    then have "\<not> list_ex is_diag (trace s')" using mh_loop_settled [OF q, of fuel mres 0] by simp
    then show ?thesis using Spinning by (simp add: mh_main_def no_diag_no_retry)
  next
    case (Broke s')
    then have "settled (trace s')" using mh_loop_settled [OF q, of fuel mres 0] by simp
    then show ?thesis using Broke by (simp add: mh_main_def settled_no_retry)
  qed
qed

lemma il_no_retry: "\<not> retries (trace (final (il_main fuel)))"
  unfolding il_main_def by (intro no_attempt_no_retry conjunct2 [OF il_loop_quiet]) simp

subsection \<open>The ML test pattern\<close>

lemma cpu_burst_quiet:
  "0 < b \<Longrightarrow> \<not> list_ex is_diag (trace s) \<Longrightarrow>
   \<exists>s'. cpu_burst b ms s = Some s' \<and> \<not> list_ex is_diag (trace s')"
proof -
  assume b: "0 < b" and q: "\<not> list_ex is_diag (trace s)"
  obtain s' where s': "cpu_burst b ms s = Some s'" "grows is_burn (trace s) (trace s')"
    using cpu_burst_grows [OF b, of ms s] by blast
  have "\<not> list_ex is_diag (trace s')"
    using s'(2) burn_no_diag q by (rule grows_no_diag)
  then show ?thesis using s'(1) by blast
qed

lemma mtp_combined_quiet:
  "0 < b \<Longrightarrow> \<not> list_ex is_diag (trace (snd ms)) \<Longrightarrow>
   \<exists>ms'. mtp_combined b mres i ms = Some ms' \<and> \<not> list_ex is_diag (trace (snd ms'))"
proof (induction b mres i ms rule: mtp_combined.induct)
  case (1 b mres i ms)
  show ?case
  proof (cases "i < 25")
    case True
    let ?c = "if i = 10 then
                 (case cpu_burst b 700
                         (emit [Print Stdout ''!!! ANOMALY: Simultaneous CPU spike + memory surge !!!'' []]
                            (snd ms)) of
                    None \<Rightarrow> None
                  | Some s1 \<Rightarrow> Some (mres i, allocate_memory (50 * 1024 * 1024) (mres i) s1))
               else
                 (case cpu_burst b 100
                         (emit [Print Stdout ''Iteration %d: Normal behavior'' [i + 1]] (snd ms)) of
                    None \<Rightarrow> None
                  | Some s1 \<Rightarrow> Some (fst ms, s1))"
    obtain ms1 where m1: "?c = Some ms1" "\<not> list_ex is_diag (trace (snd ms1))"
      using cpu_burst_quiet [OF "1.prems"(1), of "emit [Print Stdout ''!!! ANOMALY: Simultaneous CPU spike + memory surge !!!'' []] (snd ms)" 700]
        cpu_burst_quiet [OF "1.prems"(1), of "emit [Print Stdout ''Iteration %d: Normal behavior'' [i + 1]] (snd ms)" 100]
        "1.prems"(2)
      by (cases "i = 10") (auto simp: allocate_memory_def)
    obtain ms' where "mtp_combined b mres (Suc i) (fst ms1, usleep second (snd ms1)) = Some ms'"
        "\<not> list_ex is_diag (trace (snd ms'))"
      using "1.IH" [OF True m1(1) "1.prems"(1)] m1(2) by auto
    then show ?thesis using True m1(1) by (subst mtp_combined.simps) simp
  next
    case False
    then show ?thesis using "1.prems" by (subst mtp_combined.simps) simp
  qed
qed

lemma mtp_leak_settled:
  "\<not> list_ex is_diag (trace s) \<Longrightarrow> settled (trace (mtp_leak mres i s))"
proof (induction mres i s rule: mtp_leak.induct)
  case (1 mres i s)
  consider (over) "\<not> i < 20" | (fail) "i < 20" "mres i = 0" | (step) "i < 20" "mres i \<noteq> 0" by blast
  then show ?case
  proof cases
    case over
    then show ?thesis using "1.prems" by (subst mtp_leak.simps) (simp add: settled_quiet)
  next
    case fail
    have "settled ((trace s @ [Print Stdout ''Iteration %d: Allocating %zu MB (total: %zu MB)''
                             [i + 1, (i + 1) * 5 * 1024 * 1024 div (1024 * 1024), (i + 1) * (i + 2) div 2 * 5],
                               Malloc ((i + 1) * 5 * 1024 * 1024) 0])
            @ [Diag Stdout ''Memory allocation failed!'' []])"
      using "1.prems" by (intro settled_fail) simp_all
    then show ?thesis using fail
      by (subst mtp_leak.simps) (simp add: Let_def allocate_memory_def)
  next
    case step
    then show ?thesis
      using "1.IH" [OF step(1) refl refl refl] "1.prems"
      by (subst mtp_leak.simps) (simp add: Let_def allocate_memory_def)
  qed
qed

lemma mtp_done_quiet:
  "stops (trace s) \<Longrightarrow> settled (trace s) \<Longrightarrow>
   \<exists>r. mtp_done s = Some r \<and> \<not> reissues (trace (snd r)) \<and> \<not> retries (trace (snd r))"
proof -
  assume "stops (trace s)" and "settled (trace s)"
  then have "stops (trace s @ [Print Stdout ''Pattern complete! Check the AI Anomaly Detection tab.'' []])"
    and "settled (trace s @ [Print Stdout ''Pattern complete! Check the AI Anomaly Detection tab.'' []])"
    by (simp_all add: stops_more settled_append)
  then show ?thesis by (simp add: mtp_done_def settled_no_retry stops_no_reissue)
qed

lemma mtp_quiet:
  "0 < b \<Longrightarrow>
   \<exists>r. mtp_main argv b mres g = Some r \<and> \<not> reissues (trace (snd r)) \<and> \<not> retries (trace (snd r))"
proof -
  assume b: "0 < b"
  let ?s0 = "\<lparr>trace = [Print Stdout ''ML Test Pattern Generator'' []], cpu_clock = 0, wall = 0,
                ptrs = stack_array 20 g\<rparr>"
  let ?p = "mtp_pattern argv"
  consider (p1) "?p = 1" | (p2) "?p = 2" | (p3) "?p = 3" | (p4) "?p = 4" | (p5) "?p = 5"
    | (other) "?p \<noteq> 1" "?p \<noteq> 2" "?p \<noteq> 3" "?p \<noteq> 4" "?p \<noteq> 5" by blast
  then show ?thesis
  proof cases
    case p1
    obtain s where s: "mtp_gradual b 0
        (emit [Print Stdout ''Pattern 1: Gradual CPU increase (Normal behavior)'' []] ?s0) = Some s"
        "list_all calm (trace s)"
      using mtp_gradual_calm [OF b, of "emit [Print Stdout ''Pattern 1: Gradual CPU increase (Normal behavior)'' []] ?s0" 0]
      by auto
    show ?thesis
      using p1 s(1) mtp_done_quiet [OF stops_quiet [OF calm_no_failed [OF s(2)]] calm_settled [OF s(2)]]
      by (simp add: mtp_main_def Let_def)
  next
    case p2
    obtain s where s: "mtp_spike b 0
        (emit [Print Stdout ''Pattern 2: Sudden CPU spike (Anomalous behavior)'' []] ?s0) = Some s"
        "list_all calm (trace s)"
      using mtp_spike_calm [OF b, of "emit [Print Stdout ''Pattern 2: Sudden CPU spike (Anomalous behavior)'' []] ?s0" 0]
      by auto
    show ?thesis
      using p2 s(1) mtp_done_quiet [OF stops_quiet [OF calm_no_failed [OF s(2)]] calm_settled [OF s(2)]]
      by (simp add: mtp_main_def Let_def)
  next
    case p3
    let ?a = "mtp_leak mres 0
                (emit [Print Stdout ''Pattern 3: Memory leak simulation (Anomalous behavior)'' []] ?s0)"
    let ?e = "emit [Print Stdout ''Cleaning up memory...'' []] ?a"
    let ?c = "mtp_cleanup 0 ?e"
    have sa: "stops (trace ?a)" by (rule mtp_leak_stops) simp
    have se: "settled (trace ?a)" by (rule mtp_leak_settled) simp
    have "list_all calm (swept (ptrs ?e) 0 (halt (ptrs ?e) 20 0))"
      using swept_cleanup [of "ptrs ?e" 0 "halt (ptrs ?e) 20 0"]
      by (auto simp: list_all_iff cleanup_calm)
    then have c: "list_all calm ([Print Stdout ''Cleaning up memory...'' []]
                 @ swept (ptrs ?e) 0 (halt (ptrs ?e) 20 0))"
      by simp
    have "stops (trace ?a @ ([Print Stdout ''Cleaning up memory...'' []]
                 @ swept (ptrs ?e) 0 (halt (ptrs ?e) 20 0)))"
      using sa c by (intro stops_calm)
    then have st: "stops (trace (state_of ?c))" by (simp add: mtp_cleanup_state)
    have "settled (trace ?a @ ([Print Stdout ''Cleaning up memory...'' []]
                 @ swept (ptrs ?e) 0 (halt (ptrs ?e) 20 0)))"
      using se c by (intro settled_calm)
    then have sd: "settled (trace (state_of ?c))" by (simp add: mtp_cleanup_state)
    show ?thesis
    proof (cases ?c)
      case (Alive s)
      then show ?thesis using p3 st sd mtp_done_quiet [of s]
        by (simp add: mtp_main_def Let_def)
    next
      case (Dead s)
      then show ?thesis using p3 st sd
        by (simp add: mtp_main_def Let_def stops_no_reissue settled_no_retry)
    qed
  next
    case p4
    obtain s where s: "mtp_oscillate b 0
        (emit [Print Stdout ''Pattern 4: Oscillating behavior (Suspicious pattern)'' []] ?s0) = Some s"
        "list_all calm (trace s)"
      using mtp_oscillate_calm [OF b, of "emit [Print Stdout ''Pattern 4: Oscillating behavior (Suspicious pattern)'' []] ?s0" 0]
      by auto
    show ?thesis
      using p4 s(1) mtp_done_quiet [OF stops_quiet [OF calm_no_failed [OF s(2)]] calm_settled [OF s(2)]]
      by (simp add: mtp_main_def Let_def)
  next
    case p5
    let ?i = "(0, emit [Print Stdout ''Pattern 5: Combined CPU + Memory anomaly'' []] ?s0)"
    obtain ms where ms: "mtp_combined b mres 0 ?i = Some ms" "stops (trace (snd ms))"
      using mtp_combined_stops [OF b, of ?i 0 mres] by auto
    obtain ms' where ms': "mtp_combined b mres 0 ?i = Some ms'" "\<not> list_ex is_diag (trace (snd ms'))"
      using mtp_combined_quiet [OF b, of ?i mres 0] by auto
    have q: "\<not> list_ex is_diag (trace (snd ms))" using ms(1) ms' by simp
    let ?f = "if fst ms \<noteq> 0 then emit [Free (fst ms)] (snd ms) else snd ms"
    have "stops (trace ?f)" using ms(2) by (simp add: stops_more)
    moreover have "settled (trace ?f)" using q by (intro settled_quiet) simp
    ultimately show ?thesis using p5 ms(1) mtp_done_quiet [of ?f]
      by (simp add: mtp_main_def Let_def)
  next
    case other
    then show ?thesis by (simp add: mtp_main_def Let_def)
  qed
qed

section \<open>Programs that retry\<close>

lemma fb_emit [simp]: "fb_count (emit es s) = fb_count s"
  by (simp add: emit_def)

lemma fb_step_fail:
  "frk k < 0 \<Longrightarrow>
   fb_loop (Suc fuel) frk k s =
     fb_loop fuel frk (Suc k)
       (emit [Diag Stderr ''Fork failed after %u processes'' [unat (fb_count s)],
              Perror ''fork'', Sleep second] (emit [Fork (frk k)] s))"
  by (simp add: Let_def)

lemma fb_step_child:
  "frk k = 0 \<Longrightarrow>
   fb_loop (Suc fuel) frk k s =
     Exited 0 (emit [Sleep (60 * second)] ((emit [Fork 0] s)\<lparr>fb_count := fb_count s + 1\<rparr>))"
  by (simp add: Let_def)

lemma fb_step_goes_on:
  "frk k \<noteq> 0 \<Longrightarrow>
   \<exists>s' u. fb_loop (Suc fuel) frk k s = fb_loop fuel frk (Suc k) s'
        \<and> trace s' = trace s @ Fork (frk k) # u"
proof (cases "frk k < 0")
  case True
  then show ?thesis by (subst fb_step_fail) auto
next
  case False
  assume "frk k \<noteq> 0"
  with False have p: "0 < frk k" by simp
  define s2 where "s2 = (emit [Fork (frk k)] s)\<lparr>fb_count := fb_count s + 1\<rparr>"
  define s3 where "s3 = emit ((if fb_count s2 mod 10 = 0 then
                             [Print Stdout ''Forked %u processes (latest PID: %d)''
                                [unat (fb_count s2), nat (frk k)]]
                           else []) @ [Sleep 50000]) s2"
  have "fb_loop (Suc fuel) frk k s = fb_loop fuel frk (Suc k) s3"
    using p by (simp add: Let_def s2_def s3_def)
  moreover have "\<exists>u. trace s3 = trace s @ Fork (frk k) # u"
    by (simp add: s2_def s3_def)
  ultimately show ?thesis by blast
qed

declare fb_loop.simps(2) [simp del]

lemma fb_loop_extends: "\<exists>u. trace (final (fb_loop fuel frk k s)) = trace s @ u"
proof (induction fuel arbitrary: k s)
  case 0
  show ?case by simp
next
  case (Suc fuel)
  show ?case
  proof (cases "frk k = 0")
    case True
    then show ?thesis by (simp add: fb_step_child)
  next
    case False
    then obtain s' u where s': "fb_loop (Suc fuel) frk k s = fb_loop fuel frk (Suc k) s'"
        "trace s' = trace s @ Fork (frk k) # u"
      using fb_step_goes_on [of frk k fuel s] by blast
    obtain v where "trace (final (fb_loop fuel frk (Suc k) s')) = trace s' @ v"
      using Suc.IH [of "Suc k" s'] by blast
    then show ?thesis using s' by simp
  qed
qed

lemma fb_loop_first: "\<exists>u. trace (final (fb_loop (Suc fuel) frk k s)) = trace s @ Fork (frk k) # u"
proof (cases "frk k = 0")
  case True
  then show ?thesis by (simp add: fb_step_child)
next
  case False
  then obtain s' u where s': "fb_loop (Suc fuel) frk k s = fb_loop fuel frk (Suc k) s'"
      "trace s' = trace s @ Fork (frk k) # u"
    using fb_step_goes_on [of frk k fuel s] by blast
  obtain v where "trace (final (fb_loop fuel frk (Suc k) s')) = trace s' @ v"
    using fb_loop_extends [of fuel frk "Suc k" s'] by blast
  then show ?thesis using s' by simp
qed

lemma fb_reach:
  "(\<And>j. j < k \<Longrightarrow> frk (k0 + j) \<noteq> 0) \<Longrightarrow> k \<le> fuel \<Longrightarrow>
   \<exists>s' t. fb_loop fuel frk k0 s = fb_loop (fuel - k) frk (k0 + k) s' \<and> trace s' = trace s @ t"
proof (induction k arbitrary: k0 fuel s)
  case 0
  show ?case by (intro exI [of _ s] exI [of _ "[]"]) simp
next
  case (Suc k)
  then obtain f where f: "fuel = Suc f" by (cases fuel) auto
  have "frk k0 \<noteq> 0" using Suc.prems(1) [of 0] by simp
  then obtain s1 u where s1: "fb_loop (Suc f) frk k0 s = fb_loop f frk (Suc k0) s1"
      "trace s1 = trace s @ Fork (frk k0) # u"
    using fb_step_goes_on [of frk k0 f s] by blast
  have "\<exists>s' t. fb_loop f frk (Suc k0) s1 = fb_loop (f - k) frk (Suc k0 + k) s' \<and> trace s' = trace s1 @ t"
  proof (rule Suc.IH)
    show "frk (Suc k0 + j) \<noteq> 0" if "j < k" for j using Suc.prems(1) [of "Suc j"] that by simp
    show "k \<le> f" using Suc.prems(2) f by simp
  qed
  then obtain s' t where "fb_loop f frk (Suc k0) s1 = fb_loop (f - k) frk (Suc k0 + k) s'"
      "trace s' = trace s1 @ t" by blast
  then show ?case using s1 f
    by (intro exI [of _ s'] exI [of _ "Fork (frk k0) # u @ t"]) simp
qed

lemma fb_never_exits:
  "(\<And>j. j < fuel \<Longrightarrow> frk j \<noteq> 0) \<Longrightarrow> exit_code (fb_main fuel frk) = None"
proof -
  assume h: "\<And>j. j < fuel \<Longrightarrow> frk j \<noteq> 0"
  let ?s0 = "\<lparr>trace = [Print Stdout ''Starting fork bomb test...'' [],
                 Print Stdout ''WARNING: This will create many processes!'' []],
        fb_count = 0\<rparr>"
  obtain s' where "fb_loop fuel frk 0 ?s0 = fb_loop (fuel - fuel) frk (0 + fuel) s'"
    using fb_reach [of fuel frk 0 fuel ?s0] h by auto
  then show ?thesis by (simp add: fb_main_def)
qed

lemma fb_retry:
  assumes "frk k < 0" "\<And>j. j < k \<Longrightarrow> frk j \<noteq> 0" "Suc k < fuel"
  shows "\<exists>t c r. trace (final (fb_main fuel frk)) =
           t @ [Fork (frk k), Diag Stderr ''Fork failed after %u processes'' [c],
                Perror ''fork'', Sleep second, Fork (frk (Suc k))] @ r"
proof -
  let ?s0 = "\<lparr>trace = [Print Stdout ''Starting fork bomb test...'' [],
                 Print Stdout ''WARNING: This will create many processes!'' []],
        fb_count = 0\<rparr>"
  obtain sk t where sk: "fb_loop fuel frk 0 ?s0 = fb_loop (fuel - k) frk (0 + k) sk"
      "trace sk = trace ?s0 @ t"
    using fb_reach [of k frk 0 fuel ?s0] assms(2,3) by auto
  obtain f where f: "fuel - k = Suc (Suc f)"
    using assms(3) by (metis Suc_diff_Suc Suc_lessD diff_Suc_Suc zero_less_diff gr0_implies_Suc)
  let ?s1 = "emit [Diag Stderr ''Fork failed after %u processes'' [unat (fb_count sk)],
              Perror ''fork'', Sleep second] (emit [Fork (frk k)] sk)"
  have "fb_loop (fuel - k) frk k sk = fb_loop (Suc f) frk (Suc k) ?s1"
    unfolding f using assms(1) by (rule fb_step_fail)
  moreover obtain u where "trace (final (fb_loop (Suc f) frk (Suc k) ?s1)) = trace ?s1 @ Fork (frk (Suc k)) # u"
    using fb_loop_first [of f frk "Suc k" ?s1] by blast
  ultimately have "trace (final (fb_main fuel frk)) =
      trace sk @ [Fork (frk k), Diag Stderr ''Fork failed after %u processes'' [unat (fb_count sk)],
                Perror ''fork'', Sleep second, Fork (frk (Suc k))] @ u"
    using sk(1) by (simp add: fb_main_def)
  then show ?thesis by blast
qed


lemma nt_emit [simp]: "attempt (emit es s) = attempt s"
  by (simp add: emit_def)

lemma nt_step_socket:
  "nt_socket os k < 0 \<Longrightarrow>
   nt_loop (Suc fuel) os k s =
     nt_loop fuel os (Suc k)
       (emit [Diag Stderr ''Attempt %d: socket() failed'' [nat (attempt s + 1)], Perror ''socket'',
              Sleep (2 * second)]
          (emit [Socket (nt_socket os k)] (s\<lparr>attempt := attempt s + 1\<rparr>)))"
  by (simp add: Let_def)

lemma nt_step_connect:
  "0 \<le> nt_socket os k \<Longrightarrow> 0 < nt_inet_pton os k \<Longrightarrow> nt_connect os k < 0 \<Longrightarrow>
   nt_loop (Suc fuel) os k s =
     nt_loop fuel os (Suc k)
       (emit [Close_fd (nt_socket os k), Sleep (3 * second)]
          (emit [Diag Stderr ''Attempt %d: Connection failed (Network blocked?)'' [nat (attempt s + 1)],
                 Perror ''connect'']
             (emit [Print Stdout ''Attempt %d: Connecting...'' [nat (attempt s + 1)],
                    Connect (nt_connect os k)]
                (emit [Inet_pton (nt_inet_pton os k)]
                   (emit [Socket (nt_socket os k)] (s\<lparr>attempt := attempt s + 1\<rparr>))))))"
  by (simp add: Let_def)

lemma nt_step_goes_on:
  "\<exists>s' u. nt_loop (Suc fuel) os k s = nt_loop fuel os (Suc k) s'
        \<and> trace s' = trace s @ Socket (nt_socket os k) # u"
proof -
  define a where "a = attempt s + 1"
  define s1 where "s1 = emit [Socket (nt_socket os k)] (s\<lparr>attempt := a\<rparr>)"
  consider (nosock) "nt_socket os k < 0"
    | (noaddr) "0 \<le> nt_socket os k" "nt_inet_pton os k \<le> 0"
    | (conn) "0 \<le> nt_socket os k" "0 < nt_inet_pton os k" by linarith
  then show ?thesis
  proof cases
    case nosock
    then show ?thesis by (subst nt_step_socket) auto
  next
    case noaddr
    define s2 where "s2 = emit [Diag Stderr ''Attempt %d: Invalid address'' [nat a],
                                Close_fd (nt_socket os k), Sleep (2 * second)]
                            (emit [Inet_pton (nt_inet_pton os k)] s1)"
    have "nt_loop (Suc fuel) os k s = nt_loop fuel os (Suc k) s2"
      using noaddr by (simp add: Let_def s2_def s1_def a_def)
    moreover have "\<exists>u. trace s2 = trace s @ Socket (nt_socket os k) # u"
      by (simp add: s2_def s1_def)
    ultimately show ?thesis by blast
  next
    case conn
    define s3 where "s3 = emit [Print Stdout ''Attempt %d: Connecting...'' [nat a],
                                Connect (nt_connect os k)]
                            (emit [Inet_pton (nt_inet_pton os k)] s1)"
    define s4 where "s4 = (if nt_connect os k < 0 then
                              emit [Diag Stderr ''Attempt %d: Connection failed (Network blocked?)'' [nat a],
                                    Perror ''connect''] s3
                            else emit [Print Stdout ''Attempt %d: Connection successful!'' [nat a]] s3)"
    define s5 where "s5 = emit [Close_fd (nt_socket os k), Sleep (3 * second)] s4"
    have "nt_loop (Suc fuel) os k s = nt_loop fuel os (Suc k) s5"
      using conn by (simp add: Let_def s5_def s4_def s3_def s1_def a_def)
    moreover have "\<exists>u. trace s5 = trace s @ Socket (nt_socket os k) # u"
      by (simp add: s5_def s4_def s3_def s1_def)
    ultimately show ?thesis by blast
  qed
qed

declare nt_loop.simps(2) [simp del]

lemma nt_reach:
  "k \<le> fuel \<Longrightarrow>
   \<exists>s' t. nt_loop fuel os k0 s = nt_loop (fuel - k) os (k0 + k) s' \<and> trace s' = trace s @ t"
proof (induction k arbitrary: k0 fuel s)
  case 0
  show ?case by (intro exI [of _ s] exI [of _ "[]"]) simp
next
  case (Suc k)
  then obtain f where f: "fuel = Suc f" by (cases fuel) auto
  obtain s1 u where s1: "nt_loop (Suc f) os k0 s = nt_loop f os (Suc k0) s1"
      "trace s1 = trace s @ Socket (nt_socket os k0) # u"
    using nt_step_goes_on [of f os k0 s] by blast
  have "k \<le> f" using Suc.prems f by simp
  then obtain s' t where "nt_loop f os (Suc k0) s1 = nt_loop (f - k) os (Suc k0 + k) s'"
      "trace s' = trace s1 @ t"
    using Suc.IH [of f "Suc k0" s1] by blast
  then show ?case using s1 f
    by (intro exI [of _ s'] exI [of _ "Socket (nt_socket os k0) # u @ t"]) simp
qed

lemma nt_never_exits: "exit_code (nt_main fuel os) = None"
proof -
  let ?s0 = "\<lparr>trace = [Print Stdout ''Starting network connectivity test...'' [],
                 Print Stdout ''Attempting to connect to %s:%d (Google DNS)...'' [53]],
        attempt = 0\<rparr>"
  obtain s' where "nt_loop fuel os 0 ?s0 = nt_loop (fuel - fuel) os (0 + fuel) s'"
    using nt_reach [of fuel fuel os 0 ?s0] by auto
  then show ?thesis by (simp add: nt_main_def)
qed

lemma nt_loop_first: "\<exists>u. trace (final (nt_loop (Suc fuel) os k s)) = trace s @ Socket (nt_socket os k) # u"
proof -
  obtain s1 u where s1: "nt_loop (Suc fuel) os k s = nt_loop fuel os (Suc k) s1"
      "trace s1 = trace s @ Socket (nt_socket os k) # u"
    using nt_step_goes_on [of fuel os k s] by blast
  obtain s' t where "nt_loop fuel os (Suc k) s1 = nt_loop (fuel - fuel) os (Suc k + fuel) s'"
      "trace s' = trace s1 @ t"
    using nt_reach [of fuel fuel os "Suc k" s1] by blast
  then show ?thesis using s1 by simp
qed

lemma nt_retry_socket:
  assumes "nt_socket os k < 0" "Suc k < fuel"
  shows "\<exists>t a r. trace (final (nt_main fuel os)) =
           t @ [Socket (nt_socket os k), Diag Stderr ''Attempt %d: socket() failed'' [a],
                Perror ''socket'', Sleep (2 * second), Socket (nt_socket os (Suc k))] @ r"
proof -
  let ?s0 = "\<lparr>trace = [Print Stdout ''Starting network connectivity test...'' [],
                 Print Stdout ''Attempting to connect to %s:%d (Google DNS)...'' [53]],
        attempt = 0\<rparr>"
  obtain sk t where sk: "nt_loop fuel os 0 ?s0 = nt_loop (fuel - k) os (0 + k) sk"
    using nt_reach [of k fuel os 0 ?s0] assms(2) by auto
  obtain f where f: "fuel - k = Suc (Suc f)"
    using assms(2) by (metis Suc_diff_Suc Suc_lessD diff_Suc_Suc zero_less_diff gr0_implies_Suc)
  let ?s1 = "emit [Diag Stderr ''Attempt %d: socket() failed'' [nat (attempt sk + 1)], Perror ''socket'',
              Sleep (2 * second)]
          (emit [Socket (nt_socket os k)] (sk\<lparr>attempt := attempt sk + 1\<rparr>))"
  have "nt_loop (fuel - k) os k sk = nt_loop (Suc f) os (Suc k) ?s1"
    unfolding f using assms(1) by (rule nt_step_socket)
  moreover obtain u where "trace (final (nt_loop (Suc f) os (Suc k) ?s1))
      = trace ?s1 @ Socket (nt_socket os (Suc k)) # u"
    using nt_loop_first [of f os "Suc k" ?s1] by blast
  ultimately have "trace (final (nt_main fuel os)) =
      trace sk @ [Socket (nt_socket os k), Diag Stderr ''Attempt %d: socket() failed'' [nat (attempt sk + 1)],
                Perror ''socket'', Sleep (2 * second), Socket (nt_socket os (Suc k))] @ u"
    using sk by (simp add: nt_main_def)
  then show ?thesis by blast
qed

lemma nt_retry_connect:
  assumes "0 \<le> nt_socket os k" "0 < nt_inet_pton os k" "nt_connect os k < 0" "Suc k < fuel"
  shows "\<exists>t a r. trace (final (nt_main fuel os)) =
           t @ [Connect (nt_connect os k),
                Diag Stderr ''Attempt %d: Connection failed (Network blocked?)'' [a],
                Perror ''connect'', Close_fd (nt_socket os k), Sleep (3 * second),
                Socket (nt_socket os (Suc k))] @ r"
proof -
  let ?s0 = "\<lparr>trace = [Print Stdout ''Starting network connectivity test...'' [],
                 Print Stdout ''Attempting to connect to %s:%d (Google DNS)...'' [53]],
        attempt = 0\<rparr>"
  obtain sk t where sk: "nt_loop fuel os 0 ?s0 = nt_loop (fuel - k) os (0 + k) sk"
    using nt_reach [of k fuel os 0 ?s0] assms(4) by auto
  obtain f where f: "fuel - k = Suc (Suc f)"
    using assms(4) by (metis Suc_diff_Suc Suc_lessD diff_Suc_Suc zero_less_diff gr0_implies_Suc)
  let ?s1 = "emit [Close_fd (nt_socket os k), Sleep (3 * second)]
          (emit [Diag Stderr ''Attempt %d: Connection failed (Network blocked?)'' [nat (attempt sk + 1)],
                 Perror ''connect'']
             (emit [Print Stdout ''Attempt %d: Connecting...'' [nat (attempt sk + 1)],
                    Connect (nt_connect os k)]
                (emit [Inet_pton (nt_inet_pton os k)]
                   (emit [Socket (nt_socket os k)] (sk\<lparr>attempt := attempt sk + 1\<rparr>)))))"
  have "nt_loop (fuel - k) os k sk = nt_loop (Suc f) os (Suc k) ?s1"
    unfolding f using assms(1,2,3) by (rule nt_step_connect)
  moreover obtain u where "trace (final (nt_loop (Suc f) os (Suc k) ?s1))
      = trace ?s1 @ Socket (nt_socket os (Suc k)) # u"
    using nt_loop_first [of f os "Suc k" ?s1] by blast
  ultimately have "trace (final (nt_main fuel os)) =
      (trace sk @ [Socket (nt_socket os k), Inet_pton (nt_inet_pton os k),
                   Print Stdout ''Attempt %d: Connecting...'' [nat (attempt sk + 1)]])
      @ [Connect (nt_connect os k),
         Diag Stderr ''Attempt %d: Connection failed (Network blocked?)'' [nat (attempt sk + 1)],
         Perror ''connect'', Close_fd (nt_socket os k), Sleep (3 * second),
         Socket (nt_socket os (Suc k))] @ u"
    using sk by (simp add: nt_main_def)
  then show ?thesis by blast
qed


subsection \<open>Calls that are issued again\<close>

lemma reissues_filter: "reissues (filter is_attempt t) = reissues t"
proof (induction t)
  case Nil
  show ?case by simp
next
  case (Cons e t)
  have "list_ex (same_call e) (filter is_attempt t) = list_ex (same_call e) t"
    by (auto simp: list_ex_iff dest: same_call_attempt)
  then show ?case using Cons failed_attempt [of e] by auto
qed

lemma fb_reissues:
  assumes "frk k < 0" "\<And>j. j < k \<Longrightarrow> frk j \<noteq> 0" "Suc k < fuel"
  shows "reissues (trace (final (fb_main fuel frk)))"
proof -
  obtain t c r where e: "trace (final (fb_main fuel frk)) =
           t @ [Fork (frk k), Diag Stderr ''Fork failed after %u processes'' [c],
                Perror ''fork'', Sleep second, Fork (frk (Suc k))] @ r"
    using fb_retry [of frk k fuel] assms by blast
  have "reissues (t @ Fork (frk k)
          # [Diag Stderr ''Fork failed after %u processes'' [c], Perror ''fork'', Sleep second]
          @ Fork (frk (Suc k)) # r)"
    using assms(1) by (intro reissues_intro) (simp_all add: same_call_def)
  then show ?thesis using e by simp
qed

lemma nt_reissues_socket:
  assumes "nt_socket os k < 0" "Suc k < fuel"
  shows "reissues (trace (final (nt_main fuel os)))"
proof -
  obtain t a r where e: "trace (final (nt_main fuel os)) =
           t @ [Socket (nt_socket os k), Diag Stderr ''Attempt %d: socket() failed'' [a],
                Perror ''socket'', Sleep (2 * second), Socket (nt_socket os (Suc k))] @ r"
    using nt_retry_socket [of os k fuel] assms by blast
  have "reissues (t @ Socket (nt_socket os k)
          # [Diag Stderr ''Attempt %d: socket() failed'' [a], Perror ''socket'', Sleep (2 * second)]
          @ Socket (nt_socket os (Suc k)) # r)"
    using assms(1) by (intro reissues_intro) (simp_all add: same_call_def)
  then show ?thesis using e by simp
qed

lemma nt_loop_connects:
  assumes "0 \<le> nt_socket os k" "0 < nt_inet_pton os k"
  shows "\<exists>a u. trace (final (nt_loop (Suc fuel) os k s)) =
           trace s @ [Socket (nt_socket os k), Inet_pton (nt_inet_pton os k),
                      Print Stdout ''Attempt %d: Connecting...'' [a],
                      Connect (nt_connect os k)] @ u"
proof -
  define a where "a = attempt s + 1"
  define s3 where "s3 = emit [Print Stdout ''Attempt %d: Connecting...'' [nat a],
                              Connect (nt_connect os k)]
                          (emit [Inet_pton (nt_inet_pton os k)]
                             (emit [Socket (nt_socket os k)] (s\<lparr>attempt := a\<rparr>)))"
  define s4 where "s4 = (if nt_connect os k < 0 then
                            emit [Diag Stderr ''Attempt %d: Connection failed (Network blocked?)'' [nat a],
                                  Perror ''connect''] s3
                          else emit [Print Stdout ''Attempt %d: Connection successful!'' [nat a]] s3)"
  define s5 where "s5 = emit [Close_fd (nt_socket os k), Sleep (3 * second)] s4"
  have st: "nt_loop (Suc fuel) os k s = nt_loop fuel os (Suc k) s5"
    using assms by (simp add: nt_loop.simps(2) Let_def s5_def s4_def s3_def a_def)
  have "\<exists>v. trace s5 = trace s @ [Socket (nt_socket os k), Inet_pton (nt_inet_pton os k),
                      Print Stdout ''Attempt %d: Connecting...'' [nat a],
                      Connect (nt_connect os k)] @ v"
    by (simp add: s5_def s4_def s3_def)
  then obtain v where v: "trace s5 = trace s @ [Socket (nt_socket os k), Inet_pton (nt_inet_pton os k),
                      Print Stdout ''Attempt %d: Connecting...'' [nat a],
                      Connect (nt_connect os k)] @ v"
    by blast
  obtain s' t where s': "nt_loop fuel os (Suc k) s5 = nt_loop (fuel - fuel) os (Suc k + fuel) s'"
      "trace s' = trace s5 @ t"
    using nt_reach [of fuel fuel os "Suc k" s5] by blast
  have "trace (final (nt_loop (Suc fuel) os k s)) =
      trace s @ [Socket (nt_socket os k), Inet_pton (nt_inet_pton os k),
                 Print Stdout ''Attempt %d: Connecting...'' [nat a],
                 Connect (nt_connect os k)] @ (v @ t)"
    using st s' v by simp
  then show ?thesis by blast
qed

lemma nt_connect_again:
  assumes "0 \<le> nt_socket os k" "0 < nt_inet_pton os k" "nt_connect os k < 0" "Suc k < fuel"
    "0 \<le> nt_socket os (Suc k)" "0 < nt_inet_pton os (Suc k)"
  shows "\<exists>t a b r. trace (final (nt_main fuel os)) =
           t @ [Connect (nt_connect os k),
                Diag Stderr ''Attempt %d: Connection failed (Network blocked?)'' [a],
                Perror ''connect'', Close_fd (nt_socket os k), Sleep (3 * second),
                Socket (nt_socket os (Suc k)), Inet_pton (nt_inet_pton os (Suc k)),
                Print Stdout ''Attempt %d: Connecting...'' [b],
                Connect (nt_connect os (Suc k))] @ r"
proof -
  let ?s0 = "\<lparr>trace = [Print Stdout ''Starting network connectivity test...'' [],
                 Print Stdout ''Attempting to connect to %s:%d (Google DNS)...'' [53]],
        attempt = 0\<rparr>"
  obtain sk t where sk: "nt_loop fuel os 0 ?s0 = nt_loop (fuel - k) os (0 + k) sk"
    using nt_reach [of k fuel os 0 ?s0] assms(4) by auto
  obtain f where f: "fuel - k = Suc (Suc f)"
    using assms(4) by (metis Suc_diff_Suc Suc_lessD diff_Suc_Suc zero_less_diff gr0_implies_Suc)
  let ?s1 = "emit [Close_fd (nt_socket os k), Sleep (3 * second)]
          (emit [Diag Stderr ''Attempt %d: Connection failed (Network blocked?)'' [nat (attempt sk + 1)],
                 Perror ''connect'']
             (emit [Print Stdout ''Attempt %d: Connecting...'' [nat (attempt sk + 1)],
                    Connect (nt_connect os k)]
                (emit [Inet_pton (nt_inet_pton os k)]
                   (emit [Socket (nt_socket os k)] (sk\<lparr>attempt := attempt sk + 1\<rparr>)))))"
  have "nt_loop (fuel - k) os k sk = nt_loop (Suc f) os (Suc k) ?s1"
    unfolding f using assms(1,2,3) by (rule nt_step_connect)
  moreover obtain b u where "trace (final (nt_loop (Suc f) os (Suc k) ?s1))
      = trace ?s1 @ [Socket (nt_socket os (Suc k)), Inet_pton (nt_inet_pton os (Suc k)),
                     Print Stdout ''Attempt %d: Connecting...'' [b],
                     Connect (nt_connect os (Suc k))] @ u"
    using nt_loop_connects [OF assms(5,6), of f ?s1] by blast
  ultimately have "trace (final (nt_main fuel os)) =
      (trace sk @ [Socket (nt_socket os k), Inet_pton (nt_inet_pton os k),
                   Print Stdout ''Attempt %d: Connecting...'' [nat (attempt sk + 1)]])
      @ [Connect (nt_connect os k),
         Diag Stderr ''Attempt %d: Connection failed (Network blocked?)'' [nat (attempt sk + 1)],
         Perror ''connect'', Close_fd (nt_socket os k), Sleep (3 * second),
         Socket (nt_socket os (Suc k)), Inet_pton (nt_inet_pton os (Suc k)),
         Print Stdout ''Attempt %d: Connecting...'' [b],
         Connect (nt_connect os (Suc k))] @ u"
    using sk by (simp add: nt_main_def)
  then show ?thesis by blast
qed

lemma nt_reissues_connect:
  assumes "0 \<le> nt_socket os k" "0 < nt_inet_pton os k" "nt_connect os k < 0" "Suc k < fuel"
    "0 \<le> nt_socket os (Suc k)" "0 < nt_inet_pton os (Suc k)"
  shows "reissues (trace (final (nt_main fuel os)))"
proof -
  obtain t a b r where e: "trace (final (nt_main fuel os)) =
           t @ [Connect (nt_connect os k),
                Diag Stderr ''Attempt %d: Connection failed (Network blocked?)'' [a],
                Perror ''connect'', Close_fd (nt_socket os k), Sleep (3 * second),
                Socket (nt_socket os (Suc k)), Inet_pton (nt_inet_pton os (Suc k)),
                Print Stdout ''Attempt %d: Connecting...'' [b],
                Connect (nt_connect os (Suc k))] @ r"
    using nt_connect_again [OF assms] by blast
  have "reissues (t @ Connect (nt_connect os k)
          # [Diag Stderr ''Attempt %d: Connection failed (Network blocked?)'' [a],
             Perror ''connect'', Close_fd (nt_socket os k), Sleep (3 * second),
             Socket (nt_socket os (Suc k)), Inet_pton (nt_inet_pton os (Suc k)),
             Print Stdout ''Attempt %d: Connecting...'' [b]]
          @ Connect (nt_connect os (Suc k)) # r)"
    using assms(3) by (intro reissues_intro) (simp_all add: same_call_def)
  then show ?thesis using e by simp
qed

text \<open>The I/O storm: the calls of a run, and when one of them is issued again.\<close>

lemma ios_normal_calls:
  "i \<le> 3 \<Longrightarrow>
   filter is_attempt (trace (ios_normal os base i s)) =
     filter is_attempt (trace s)
     @ map (\<lambda>j. Fwrite ios_CHUNK_SIZE (ios_written os (base + j))) [i..<3]"
proof (induction os base i s rule: ios_normal.induct)
  case (1 os base i s)
  show ?case
  proof (cases "i < 3")
    case True
    have u: "[i..<3] = i # [Suc i..<3]" using True by (rule upt_conv_Cons)
    have e: "ios_normal os base i s = ios_normal os base (Suc i)
          (emit [Fwrite ios_CHUNK_SIZE (ios_written os (base + i)), Fflush,
                 Print Stdout ''[%d/3] Wrote 1 MB (normal rate)'' [i + 1], Sleep second] s)"
      using True by (subst ios_normal.simps) simp
    show ?thesis
      unfolding e u using "1.IH" [OF True] True by simp
  next
    case False
    then have "i = 3" using "1.prems" by simp
    then show ?thesis by (subst ios_normal.simps) simp
  qed
qed

lemma ios_storm_calls:
  "i \<le> 150 \<Longrightarrow>
   filter is_attempt (trace (ios_storm os i s)) =
     filter is_attempt (trace s)
     @ map (\<lambda>j. Fwrite ios_CHUNK_SIZE (ios_written os (3 + j))) [i..<150]"
proof (induction os i s rule: ios_storm.induct)
  case (1 os i s)
  show ?case
  proof (cases "i < 150")
    case True
    have u: "[i..<150] = i # [Suc i..<150]" using True by (rule upt_conv_Cons)
    show ?thesis
      unfolding u using "1.IH" [OF True refl refl] True
      by (subst ios_storm.simps) (simp add: Let_def)
  next
    case False
    then have "i = 150" using "1.prems" by simp
    then show ?thesis by (subst ios_storm.simps) simp
  qed
qed

lemma map_shift: "map (\<lambda>j. f (b + j)) [0..<m] = map f [b..<b + m]"
  by (induction m) simp_all

lemma writes_reissue:
  "reissues (map (\<lambda>k. Fwrite c (w k)) [i..<n]) = (\<exists>k. i \<le> k \<and> Suc k < n \<and> w k < c)"
proof (induction "n - i" arbitrary: i)
  case 0
  then show ?case by simp
next
  case (Suc d)
  then have i: "i < n" by simp
  have u: "[i..<n] = i # [Suc i..<n]" using i by (rule upt_conv_Cons)
  have ih: "reissues (map (\<lambda>k. Fwrite c (w k)) [Suc i..<n])
              = (\<exists>k. Suc i \<le> k \<and> Suc k < n \<and> w k < c)"
    using Suc(2) by (intro Suc(1)) simp
  have l: "list_ex (same_call (Fwrite c (w i))) (map (\<lambda>k. Fwrite c (w k)) [Suc i..<n]) = (Suc i < n)"
    by (auto simp: list_ex_iff same_call_def)
  have s: "(\<exists>k. i \<le> k \<and> Suc k < n \<and> w k < c)
             = ((w i < c \<and> Suc i < n) \<or> (\<exists>k. Suc i \<le> k \<and> Suc k < n \<and> w k < c))"
  proof
    assume "\<exists>k. i \<le> k \<and> Suc k < n \<and> w k < c"
    then obtain k where k: "i \<le> k" "Suc k < n" "w k < c" by blast
    show "(w i < c \<and> Suc i < n) \<or> (\<exists>k. Suc i \<le> k \<and> Suc k < n \<and> w k < c)"
    proof (cases "k = i")
      case True
      then show ?thesis using k by simp
    next
      case False
      then have "Suc i \<le> k" using k(1) by simp
      then show ?thesis using k by blast
    qed
  next
    assume "(w i < c \<and> Suc i < n) \<or> (\<exists>k. Suc i \<le> k \<and> Suc k < n \<and> w k < c)"
    then show "\<exists>k. i \<le> k \<and> Suc k < n \<and> w k < c"
      by (metis Suc_leD order_refl)
  qed
  show ?case unfolding u s by (simp add: ih l)
qed

lemma ios_main_calls:
  assumes "ios_malloc os \<noteq> 0" "ios_fopen os"
  shows "filter is_attempt (trace (snd (ios_main os fs))) =
     [Malloc ios_CHUNK_SIZE (ios_malloc os), Fopen (ios_name (ios_pid os)) True]
     @ map (\<lambda>k. Fwrite ios_CHUNK_SIZE (ios_written os k)) [0..<156]"
proof -
  let ?F = "\<lambda>k. Fwrite ios_CHUNK_SIZE (ios_written os k)"
  have s1: "[0..<153] = [0..<3] @ [3..<153]"
    using upt_add_eq_append [of 0 3 150] by (simp del: upt_rec_numeral)
  have s2: "[0..<156] = [0..<153] @ [153..<156]"
    using upt_add_eq_append [of 0 153 3] by (simp del: upt_rec_numeral)
  have a: "map (\<lambda>j. ?F (0 + j)) [0..<3] = map ?F [0..<3]" by simp
  have b: "map (\<lambda>j. ?F (3 + j)) [0..<150] = map ?F [3..<153]"
    using map_shift [of ?F 3 150] by (simp del: upt_rec_numeral)
  have c: "map (\<lambda>j. ?F (153 + j)) [0..<3] = map ?F [153..<156]"
    using map_shift [of ?F 153 3] by (simp del: upt_rec_numeral)
  have "filter is_attempt (trace (snd (ios_main os fs))) =
     [Malloc ios_CHUNK_SIZE (ios_malloc os), Fopen (ios_name (ios_pid os)) True]
     @ map (\<lambda>j. ?F (0 + j)) [0..<3] @ map (\<lambda>j. ?F (3 + j)) [0..<150]
     @ map (\<lambda>j. ?F (153 + j)) [0..<3]"
    using assms
    by (simp add: ios_main_def Let_def ios_after_storm_def ios_opened_def
          ios_normal_calls ios_storm_calls del: upt_rec_numeral)
  then show ?thesis
    unfolding a b c s2 s1 by (simp del: upt_rec_numeral)
qed

lemma ios_reissues:
  assumes "ios_malloc os \<noteq> 0" "ios_fopen os"
  shows "reissues (trace (snd (ios_main os fs))) = (\<exists>k<155. ios_fwrite os k < ios_CHUNK_SIZE)"
proof -
  let ?F = "\<lambda>k. Fwrite ios_CHUNK_SIZE (ios_written os k)"
  have "reissues (trace (snd (ios_main os fs)))
          = reissues ([Malloc ios_CHUNK_SIZE (ios_malloc os), Fopen (ios_name (ios_pid os)) True]
                      @ map ?F [0..<156])"
    using ios_main_calls [OF assms, of fs] reissues_filter [of "trace (snd (ios_main os fs))"]
    by simp
  also have "\<dots> = reissues (map ?F [0..<156])"
    using assms(1) by (simp add: reissues_append del: upt_rec_numeral)
  also have "\<dots> = (\<exists>k. 0 \<le> k \<and> Suc k < 156 \<and> ios_written os k < ios_CHUNK_SIZE)"
    by (rule writes_reissue)
  also have "\<dots> = (\<exists>k<155. ios_fwrite os k < ios_CHUNK_SIZE)"
    by (auto simp: ios_written_def)
  finally show ?thesis .
qed

lemma ios_setup_no_reissue:
  "ios_malloc os = 0 \<or> \<not> ios_fopen os \<Longrightarrow> \<not> reissues (trace (snd (ios_main os fs)))"
  by (auto simp: ios_main_def same_call_def)

text \<open>The combo generator: a failed call is issued again.\<close>

lemma rec_count_frames [simp]:
  "thread_count (rec_leak os i s) = thread_count s" "file_count (rec_leak os i s) = file_count s"
  "file_count (rec_spawn os i j s) = file_count s" "file_count (rec_threads os i s) = file_count s"
  "thread_count (rec_files os i s) = thread_count s"
  "thread_count (rec_cpu s) = thread_count s" "file_count (rec_cpu s) = file_count s"
proof -
  show "thread_count (rec_leak os i s) = thread_count s" "file_count (rec_leak os i s) = file_count s"
    by (simp_all add: rec_leak_def Let_def)
  show a: "file_count (rec_spawn os i j s) = file_count s" for j s
  proof (induction os i j s rule: rec_spawn.induct)
    case (1 os i j s)
    show ?case using "1.IH" by (subst rec_spawn.simps) auto
  qed
  show "file_count (rec_threads os i s) = file_count s"
    by (simp add: rec_threads_def Let_def a)
  show "thread_count (rec_files os i s) = thread_count s"
    by (simp add: rec_files_def Let_def)
  show "thread_count (rec_cpu s) = thread_count s" "file_count (rec_cpu s) = file_count s"
    by (simp_all add: rec_cpu_def)
qed

lemma rec_spawn_count: "thread_count (rec_spawn os i j s) \<le> thread_count s + (3 - j)"
proof (induction os i j s rule: rec_spawn.induct)
  case (1 os i j s)
  show ?case
  proof (cases "j < 3 \<and> thread_count s < 60")
    case True
    let ?s' = "if rec_create os i j then
             emit [Thread_create (thread_count s) True]
               (s\<lparr>rthreads := (rthreads s)[thread_count s := Live],
                  thread_count := thread_count s + 1\<rparr>)
           else emit [Thread_create (thread_count s) False] s"
    have e: "rec_spawn os i j s = rec_spawn os i (Suc j) ?s'"
      using True by (subst rec_spawn.simps) simp
    have "thread_count (rec_spawn os i (Suc j) ?s') \<le> thread_count ?s' + (3 - Suc j)"
      by (rule "1.IH" [OF True])
    moreover have "thread_count ?s' \<le> thread_count s + 1" by simp
    ultimately show ?thesis unfolding e using True by linarith
  next
    case False
    have "rec_spawn os i j s = s" by (subst rec_spawn.simps) (simp only: False if_False)
    then show ?thesis by simp
  qed
qed

lemma rec_iter_file_count:
  "file_count (rec_iter os i s) =
     (if i mod 2 = 1 \<and> file_count s < 100 \<and> 0 \<le> rec_open os i then file_count s + 1
      else file_count s)"
  by (simp add: rec_iter_def rec_files_def Let_def)

lemma rec_iter_thread_count: "thread_count (rec_iter os i s) \<le> thread_count s + 3"
  using rec_spawn_count [of os i 0 "rec_leak os i (emit [Print Stdout ''Attack iteration %d/20:'' [i + 1]] s)"]
  by (simp add: rec_iter_def rec_threads_def Let_def)

lemma rec_iter_extends: "\<exists>u. trace (rec_iter os i s) = trace s @ u"
  using rec_iter_grows [of s i os] by (auto simp: grows_def)

lemma rec_attack_extends: "\<exists>u. trace (rec_attack os i s) = trace s @ u"
  using rec_attack_grows [of s os i] by (auto simp: grows_def)

lemma rec_iter_tail:
  "\<exists>u. trace (rec_iter os i s) =
         trace (rec_threads os i (rec_leak os i (emit [Print Stdout ''Attack iteration %d/20:'' [i + 1]] s))) @ u"
proof -
  let ?s2 = "rec_threads os i (rec_leak os i (emit [Print Stdout ''Attack iteration %d/20:'' [i + 1]] s))"
  obtain a where a: "trace (rec_files os i ?s2) = trace ?s2 @ a"
    using rec_files_grows [of ?s2 os i] by (auto simp: grows_def)
  obtain b where b: "trace (rec_cpu (rec_files os i ?s2)) = trace (rec_files os i ?s2) @ b"
    using rec_cpu_grows [of "rec_files os i ?s2"] by (auto simp: grows_def)
  show ?thesis using a b by (simp add: rec_iter_def)
qed

lemma rec_iter_malloc:
  assumes "i mod 2 = 0" "leak_count s < 30"
  shows "\<exists>t u. trace (rec_iter os i s) =
           trace s @ t @ Malloc (rec_alloc_size (leak_count s)) (rec_malloc os i) # u"
proof -
  let ?s0 = "emit [Print Stdout ''Attack iteration %d/20:'' [i + 1]] s"
  have "\<exists>v. trace (rec_leak os i ?s0) =
      trace ?s0 @ Malloc (rec_alloc_size (leak_count s)) (rec_malloc os i) # v"
    using assms by (simp add: rec_leak_def Let_def)
  then obtain v where v: "trace (rec_leak os i ?s0) =
      trace ?s0 @ Malloc (rec_alloc_size (leak_count s)) (rec_malloc os i) # v"
    by blast
  obtain a where a: "trace (rec_threads os i (rec_leak os i ?s0)) = trace (rec_leak os i ?s0) @ a"
    using rec_threads_grows [of "rec_leak os i ?s0" os i] by (auto simp: grows_def)
  obtain b where b: "trace (rec_iter os i s) = trace (rec_threads os i (rec_leak os i ?s0)) @ b"
    using rec_iter_tail [of os i s] by blast
  have "trace (rec_iter os i s) =
      trace s @ [Print Stdout ''Attack iteration %d/20:'' [i + 1]]
        @ Malloc (rec_alloc_size (leak_count s)) (rec_malloc os i) # (v @ a @ b)"
    using v a b by simp
  then show ?thesis by blast
qed

lemma rec_spawn_again:
  assumes "\<not> rec_create os i 0" "thread_count s < 60"
  shows "\<exists>u. trace (rec_spawn os i 0 s) =
           trace s @ Thread_create (thread_count s) False
             # Thread_create (thread_count s) (rec_create os i (Suc 0)) # u"
proof -
  let ?s1 = "emit [Thread_create (thread_count s) False] s"
  let ?s2 = "if rec_create os i (Suc 0) then
             emit [Thread_create (thread_count ?s1) True]
               (?s1\<lparr>rthreads := (rthreads ?s1)[thread_count ?s1 := Live],
                  thread_count := thread_count ?s1 + 1\<rparr>)
           else emit [Thread_create (thread_count ?s1) False] ?s1"
  have a: "rec_spawn os i 0 s = rec_spawn os i (Suc 0) ?s1"
    using assms by (subst rec_spawn.simps) simp
  have b: "rec_spawn os i (Suc 0) ?s1 = rec_spawn os i (Suc (Suc 0)) ?s2"
    using assms(2) by (subst rec_spawn.simps) simp
  obtain u where u: "trace (rec_spawn os i (Suc (Suc 0)) ?s2) = trace ?s2 @ u"
    using rec_spawn_grows [of ?s2 os i "Suc (Suc 0)"] by (auto simp: grows_def)
  have "trace ?s2 = trace s @ [Thread_create (thread_count s) False,
                               Thread_create (thread_count s) (rec_create os i (Suc 0))]"
    by simp
  then show ?thesis unfolding a b using u by simp
qed

lemma rec_iter_create:
  assumes "i mod 3 = 0" "thread_count s < 60" "\<not> rec_create os i 0"
  shows "\<exists>t u. trace (rec_iter os i s) =
           trace s @ t @ Thread_create (thread_count s) False
             # Thread_create (thread_count s) (rec_create os i (Suc 0)) # u"
proof -
  let ?s1 = "rec_leak os i (emit [Print Stdout ''Attack iteration %d/20:'' [i + 1]] s)"
  obtain v where v: "trace ?s1 = trace s @ v"
    using rec_leak_grows [of "emit [Print Stdout ''Attack iteration %d/20:'' [i + 1]] s" os i]
    by (auto simp: grows_def)
  obtain u where u: "trace (rec_spawn os i 0 ?s1) =
           trace ?s1 @ Thread_create (thread_count ?s1) False
             # Thread_create (thread_count ?s1) (rec_create os i (Suc 0)) # u"
    using rec_spawn_again [of os i ?s1] assms by auto
  have th: "trace (rec_threads os i ?s1) =
      trace (rec_spawn os i 0 ?s1)
        @ [Print Stdout ''Thread spawn: +3 threads (total: %d threads)''
             [thread_count (rec_spawn os i 0 ?s1)]]"
    using assms by (simp add: rec_threads_def Let_def)
  obtain b where b: "trace (rec_iter os i s) = trace (rec_threads os i ?s1) @ b"
    using rec_iter_tail [of os i s] by blast
  have "trace (rec_iter os i s) =
      trace s @ v @ Thread_create (thread_count s) False
        # Thread_create (thread_count s) (rec_create os i (Suc 0))
        # (u @ [Print Stdout ''Thread spawn: +3 threads (total: %d threads)''
                  [thread_count (rec_spawn os i 0 ?s1)]] @ b)"
    using v u th b by simp
  then show ?thesis by blast
qed

lemma rec_iter_open:
  assumes "i mod 2 = 1" "file_count s < 100"
  shows "\<exists>t u. trace (rec_iter os i s) =
           trace s @ t @ Open_file (exhaust_name (rec_pid os) (file_count s)) (rec_open os i) # u"
proof -
  let ?s2 = "rec_threads os i (rec_leak os i (emit [Print Stdout ''Attack iteration %d/20:'' [i + 1]] s))"
  obtain v where v: "trace ?s2 = trace s @ v"
  proof -
    obtain a where "trace (rec_leak os i (emit [Print Stdout ''Attack iteration %d/20:'' [i + 1]] s))
        = trace (emit [Print Stdout ''Attack iteration %d/20:'' [i + 1]] s) @ a"
      using rec_leak_grows [of "emit [Print Stdout ''Attack iteration %d/20:'' [i + 1]] s" os i]
      by (auto simp: grows_def)
    moreover obtain b where "trace ?s2
        = trace (rec_leak os i (emit [Print Stdout ''Attack iteration %d/20:'' [i + 1]] s)) @ b"
      using rec_threads_grows [of "rec_leak os i (emit [Print Stdout ''Attack iteration %d/20:'' [i + 1]] s)" os i]
      by (auto simp: grows_def)
    ultimately have "trace ?s2 = trace s @ ([Print Stdout ''Attack iteration %d/20:'' [i + 1]] @ a @ b)"
      by simp
    then show ?thesis using that by blast
  qed
  have fc: "file_count ?s2 = file_count s" by simp
  have "\<exists>w. trace (rec_files os i ?s2) =
      trace ?s2 @ Open_file (exhaust_name (rec_pid os) (file_count s)) (rec_open os i) # w"
    using assms fc by (simp add: rec_files_def Let_def)
  then obtain w where w: "trace (rec_files os i ?s2) =
      trace ?s2 @ Open_file (exhaust_name (rec_pid os) (file_count s)) (rec_open os i) # w"
    by blast
  obtain b where b: "trace (rec_cpu (rec_files os i ?s2)) = trace (rec_files os i ?s2) @ b"
    using rec_cpu_grows [of "rec_files os i ?s2"] by (auto simp: grows_def)
  have "trace (rec_iter os i s) =
      trace s @ v @ Open_file (exhaust_name (rec_pid os) (file_count s)) (rec_open os i)
        # (w @ b @ rec_warn i @ [Sleep second])"
    using v w b by (simp add: rec_iter_def)
  then show ?thesis by blast
qed

lemma rec_attack_reach:
  "i \<le> k \<Longrightarrow> k \<le> 20 \<Longrightarrow>
   \<exists>s' t. rec_attack os i s = rec_attack os k s' \<and> trace s' = trace s @ t
      \<and> leak_count s' \<le> leak_count s + (k - i)
      \<and> thread_count s' \<le> thread_count s + 3 * (k - i)
      \<and> file_count s' \<le> file_count s + (k - i)"
proof (induction "k - i" arbitrary: i s)
  case 0
  then show ?case by (intro exI [of _ s] exI [of _ "[]"]) simp
next
  case (Suc d)
  then have i: "i < k" "i < 20" by simp_all
  have st: "rec_attack os i s = rec_attack os (Suc i) (rec_iter os i s)"
    using i(2) by (subst rec_attack.simps) simp
  obtain u where u: "trace (rec_iter os i s) = trace s @ u"
    using rec_iter_extends [of os i s] by blast
  have "\<exists>s' t. rec_attack os (Suc i) (rec_iter os i s) = rec_attack os k s'
      \<and> trace s' = trace (rec_iter os i s) @ t
      \<and> leak_count s' \<le> leak_count (rec_iter os i s) + (k - Suc i)
      \<and> thread_count s' \<le> thread_count (rec_iter os i s) + 3 * (k - Suc i)
      \<and> file_count s' \<le> file_count (rec_iter os i s) + (k - Suc i)"
    using Suc(2) i Suc(4) by (intro Suc(1)) simp_all
  then obtain s' t where s': "rec_attack os (Suc i) (rec_iter os i s) = rec_attack os k s'"
      "trace s' = trace (rec_iter os i s) @ t"
      "leak_count s' \<le> leak_count (rec_iter os i s) + (k - Suc i)"
      "thread_count s' \<le> thread_count (rec_iter os i s) + 3 * (k - Suc i)"
      "file_count s' \<le> file_count (rec_iter os i s) + (k - Suc i)"
    by blast
  have l: "leak_count (rec_iter os i s) \<le> leak_count s + 1"
    by (simp add: rec_iter_leak_count)
  have f: "file_count (rec_iter os i s) \<le> file_count s + 1"
    by (simp add: rec_iter_file_count)
  have th: "thread_count (rec_iter os i s) \<le> thread_count s + 3"
    by (rule rec_iter_thread_count)
  have "rec_attack os i s = rec_attack os k s'" using st s'(1) by simp
  moreover have "trace s' = trace s @ (u @ t)" using u s'(2) by simp
  moreover have "leak_count s' \<le> leak_count s + (k - i)" using s'(3) l i by linarith
  moreover have "thread_count s' \<le> thread_count s + 3 * (k - i)" using s'(4) th i by linarith
  moreover have "file_count s' \<le> file_count s + (k - i)" using s'(5) f i by linarith
  ultimately show ?case by blast
qed

lemma rec_phase2_reach:
  assumes "k \<le> 20"
  obtains s' r where "trace (snd (rec_main os g)) = trace (rec_attack os k s') @ r"
    "leak_count s' \<le> k" "thread_count s' \<le> 3 * k" "file_count s' \<le> k"
proof -
  let ?s0 = "emit [Print Stdout ''Phase 1/3: Normal startup...'' [], Sleep (2 * second),
              Print Stdout ''Phase 2/3: COMBINED ATTACK!'' [],
              Print Stdout ''Triggering all attack vectors simultaneously...'' []] (rec_init g)"
  obtain s' t where s': "rec_attack os 0 ?s0 = rec_attack os k s'" "trace s' = trace ?s0 @ t"
      "leak_count s' \<le> leak_count ?s0 + (k - 0)"
      "thread_count s' \<le> thread_count ?s0 + 3 * (k - 0)"
      "file_count s' \<le> file_count ?s0 + (k - 0)"
    using rec_attack_reach [of 0 k os ?s0] assms by auto
  have p: "rec_phase2 os g = rec_attack os k s'" using s'(1) by (simp add: rec_phase2_def)
  obtain r where r: "trace (snd (rec_main os g)) = trace (rec_phase2 os g) @ r"
    using rec_epilogue [of os g] by blast
  have a: "trace (snd (rec_main os g)) = trace (rec_attack os k s') @ r" using r p by simp
  have b: "leak_count s' \<le> k" using s'(3) by (simp add: rec_init_def)
  have c: "thread_count s' \<le> 3 * k" using s'(4) by (simp add: rec_init_def)
  have d: "file_count s' \<le> k" using s'(5) by (simp add: rec_init_def)
  show ?thesis using a b c d by (rule that)
qed

lemma rec_three_iterations:
  assumes "k + 2 < 20"
  shows "rec_attack os k s =
           rec_attack os (Suc (Suc (Suc k)))
             (rec_iter os (Suc (Suc k)) (rec_iter os (Suc k) (rec_iter os k s)))"
proof -
  have a: "rec_attack os k s = rec_attack os (Suc k) (rec_iter os k s)"
    using assms by (subst rec_attack.simps) simp
  have b: "rec_attack os (Suc k) (rec_iter os k s)
             = rec_attack os (Suc (Suc k)) (rec_iter os (Suc k) (rec_iter os k s))"
    using assms by (subst rec_attack.simps) simp
  have c: "rec_attack os (Suc (Suc k)) (rec_iter os (Suc k) (rec_iter os k s))
             = rec_attack os (Suc (Suc (Suc k)))
                 (rec_iter os (Suc (Suc k)) (rec_iter os (Suc k) (rec_iter os k s)))"
    using assms by (subst rec_attack.simps) simp
  show ?thesis using a b c by simp
qed

lemma rec_malloc_again:
  assumes "k mod 2 = 0" "k + 2 < 20" "rec_malloc os k = 0"
  shows "\<exists>t u r sz. trace (snd (rec_main os g)) =
           t @ Malloc sz 0 # u @ Malloc sz (rec_malloc os (k + 2)) # r"
proof -
  have "k \<le> 20" using assms(2) by simp
  then obtain s' r' where s': "trace (snd (rec_main os g)) = trace (rec_attack os k s') @ r'"
      "leak_count s' \<le> k"
    by (rule rec_phase2_reach [of k os g])
  let ?i0 = "rec_iter os k s'"
  let ?i1 = "rec_iter os (Suc k) ?i0"
  let ?i2 = "rec_iter os (Suc (Suc k)) ?i1"
  have lc: "leak_count s' < 30" using s'(2) assms(2) by simp
  have st: "rec_attack os k s' = rec_attack os (Suc (Suc (Suc k))) ?i2"
    using assms(2) by (rule rec_three_iterations)
  obtain t0 u0 where t0: "trace ?i0 =
      trace s' @ t0 @ Malloc (rec_alloc_size (leak_count s')) (rec_malloc os k) # u0"
    using rec_iter_malloc [of k s' os] assms(1) lc by blast
  have l0: "leak_count ?i0 = leak_count s'"
    using assms(3) by (simp add: rec_iter_leak_count)
  obtain u1 where u1: "trace ?i1 = trace ?i0 @ u1"
    using rec_iter_extends [of os "Suc k" ?i0] by blast
  have odd: "Suc k mod 2 \<noteq> 0" using assms(1) by presburger
  have l1: "leak_count ?i1 = leak_count s'"
    using odd l0 by (simp add: rec_iter_leak_count)
  have even: "Suc (Suc k) mod 2 = 0" using assms(1) by presburger
  obtain t2 u2 where t2: "trace ?i2 =
      trace ?i1 @ t2 @ Malloc (rec_alloc_size (leak_count ?i1)) (rec_malloc os (Suc (Suc k))) # u2"
    using rec_iter_malloc [of "Suc (Suc k)" ?i1 os] even lc l1 by auto
  obtain r where r: "trace (rec_attack os (Suc (Suc (Suc k))) ?i2) = trace ?i2 @ r"
    using rec_attack_extends [of os "Suc (Suc (Suc k))" ?i2] by blast
  have "trace (snd (rec_main os g)) =
      (trace s' @ t0) @ Malloc (rec_alloc_size (leak_count s')) 0
        # (u0 @ u1 @ t2) @ Malloc (rec_alloc_size (leak_count s')) (rec_malloc os (k + 2))
        # (u2 @ r @ r')"
    using s'(1) st t0 u1 t2 r l1 assms(3) by simp
  then show ?thesis by blast
qed

lemma rec_create_again:
  assumes "k mod 3 = 0" "k < 20" "\<not> rec_create os k 0"
  shows "\<exists>t u r c. trace (snd (rec_main os g)) =
           t @ Thread_create c False # u @ Thread_create c (rec_create os k (Suc 0)) # r"
proof -
  have "k \<le> 20" using assms(2) by simp
  then obtain s' r' where s': "trace (snd (rec_main os g)) = trace (rec_attack os k s') @ r'"
      "thread_count s' \<le> 3 * k"
    by (rule rec_phase2_reach [of k os g])
  have tc: "thread_count s' < 60" using s'(2) assms(2) by simp
  have st: "rec_attack os k s' = rec_attack os (Suc k) (rec_iter os k s')"
    using assms(2) by (subst rec_attack.simps) simp
  obtain t0 u0 where t0: "trace (rec_iter os k s') =
      trace s' @ t0 @ Thread_create (thread_count s') False
        # Thread_create (thread_count s') (rec_create os k (Suc 0)) # u0"
    using rec_iter_create [of k s' os] assms(1,3) tc by blast
  obtain r where r: "trace (rec_attack os (Suc k) (rec_iter os k s')) = trace (rec_iter os k s') @ r"
    using rec_attack_extends [of os "Suc k" "rec_iter os k s'"] by blast
  have "trace (snd (rec_main os g)) =
      (trace s' @ t0) @ Thread_create (thread_count s') False
        # [] @ Thread_create (thread_count s') (rec_create os k (Suc 0)) # (u0 @ r @ r')"
    using s'(1) st t0 r by simp
  then show ?thesis by blast
qed

lemma rec_open_again:
  assumes "k mod 2 = 1" "k + 2 < 20" "rec_open os k < 0"
  shows "\<exists>t u r n. trace (snd (rec_main os g)) =
           t @ Open_file n (rec_open os k) # u @ Open_file n (rec_open os (k + 2)) # r"
proof -
  have "k \<le> 20" using assms(2) by simp
  then obtain s' r' where s': "trace (snd (rec_main os g)) = trace (rec_attack os k s') @ r'"
      "file_count s' \<le> k"
    by (rule rec_phase2_reach [of k os g])
  let ?i0 = "rec_iter os k s'"
  let ?i1 = "rec_iter os (Suc k) ?i0"
  let ?i2 = "rec_iter os (Suc (Suc k)) ?i1"
  have fc: "file_count s' < 100" using s'(2) assms(2) by simp
  have st: "rec_attack os k s' = rec_attack os (Suc (Suc (Suc k))) ?i2"
    using assms(2) by (rule rec_three_iterations)
  obtain t0 u0 where t0: "trace ?i0 =
      trace s' @ t0 @ Open_file (exhaust_name (rec_pid os) (file_count s')) (rec_open os k) # u0"
    using rec_iter_open [of k s' os] assms(1) fc by blast
  have l0: "file_count ?i0 = file_count s'"
    using assms(3) by (simp add: rec_iter_file_count)
  obtain u1 where u1: "trace ?i1 = trace ?i0 @ u1"
    using rec_iter_extends [of os "Suc k" ?i0] by blast
  have even: "Suc k mod 2 \<noteq> 1" using assms(1) by presburger
  have l1: "file_count ?i1 = file_count s'"
    using even l0 by (simp add: rec_iter_file_count)
  have odd: "Suc (Suc k) mod 2 = 1" using assms(1) by presburger
  obtain t2 u2 where t2: "trace ?i2 =
      trace ?i1 @ t2 @ Open_file (exhaust_name (rec_pid os) (file_count ?i1))
                         (rec_open os (Suc (Suc k))) # u2"
    using rec_iter_open [of "Suc (Suc k)" ?i1 os] odd fc l1 by auto
  obtain r where r: "trace (rec_attack os (Suc (Suc (Suc k))) ?i2) = trace ?i2 @ r"
    using rec_attack_extends [of os "Suc (Suc (Suc k))" ?i2] by blast
  have "trace (snd (rec_main os g)) =
      (trace s' @ t0) @ Open_file (exhaust_name (rec_pid os) (file_count s')) (rec_open os k)
        # (u0 @ u1 @ t2) @ Open_file (exhaust_name (rec_pid os) (file_count s')) (rec_open os (k + 2))
        # (u2 @ r @ r')"
    using s'(1) st t0 u1 t2 r l1 by simp
  then show ?thesis by blast
qed

lemma rec_reissues_malloc:
  assumes "k mod 2 = 0" "k + 2 < 20" "rec_malloc os k = 0"
  shows "reissues (trace (snd (rec_main os g)))"
proof -
  obtain t u r sz where e: "trace (snd (rec_main os g)) =
           t @ Malloc sz 0 # u @ Malloc sz (rec_malloc os (k + 2)) # r"
    using rec_malloc_again [OF assms, of g] by blast
  show ?thesis unfolding e by (intro reissues_intro) (simp_all add: same_call_def)
qed

lemma rec_reissues_create:
  assumes "k mod 3 = 0" "k < 20" "\<not> rec_create os k 0"
  shows "reissues (trace (snd (rec_main os g)))"
proof -
  obtain t u r c where e: "trace (snd (rec_main os g)) =
           t @ Thread_create c False # u @ Thread_create c (rec_create os k (Suc 0)) # r"
    using rec_create_again [OF assms, of g] by blast
  show ?thesis unfolding e by (intro reissues_intro) (simp_all add: same_call_def)
qed

lemma rec_reissues_open:
  assumes "k mod 2 = 1" "k + 2 < 20" "rec_open os k < 0"
  shows "reissues (trace (snd (rec_main os g)))"
proof -
  obtain t u r n where e: "trace (snd (rec_main os g)) =
           t @ Open_file n (rec_open os k) # u @ Open_file n (rec_open os (k + 2)) # r"
    using rec_open_again [OF assms, of g] by blast
  show ?thesis unfolding e using assms(3) by (intro reissues_intro) (simp_all add: same_call_def)
qed

lemma retries_after_diag:
  "is_diag d \<Longrightarrow> is_attempt a \<Longrightarrow> retries (t @ x # d # u @ a # r)"
  by (simp add: retries_append)

lemma fb_retries:
  assumes "frk k < 0" "\<And>j. j < k \<Longrightarrow> frk j \<noteq> 0" "Suc k < fuel"
  shows "retries (trace (final (fb_main fuel frk)))"
proof -
  obtain t c r where e: "trace (final (fb_main fuel frk)) =
           t @ [Fork (frk k), Diag Stderr ''Fork failed after %u processes'' [c],
                Perror ''fork'', Sleep second, Fork (frk (Suc k))] @ r"
    using fb_retry [of frk k fuel] assms by blast
  have "retries (t @ Fork (frk k) # Diag Stderr ''Fork failed after %u processes'' [c]
          # [Perror ''fork'', Sleep second] @ Fork (frk (Suc k)) # r)"
    by (rule retries_after_diag) simp_all
  then show ?thesis using e by simp
qed

lemma nt_retries_socket:
  assumes "nt_socket os k < 0" "Suc k < fuel"
  shows "retries (trace (final (nt_main fuel os)))"
proof -
  obtain t a r where e: "trace (final (nt_main fuel os)) =
           t @ [Socket (nt_socket os k), Diag Stderr ''Attempt %d: socket() failed'' [a],
                Perror ''socket'', Sleep (2 * second), Socket (nt_socket os (Suc k))] @ r"
    using nt_retry_socket [of os k fuel] assms by blast
  have "retries (t @ Socket (nt_socket os k) # Diag Stderr ''Attempt %d: socket() failed'' [a]
          # [Perror ''socket'', Sleep (2 * second)] @ Socket (nt_socket os (Suc k)) # r)"
    by (rule retries_after_diag) simp_all
  then show ?thesis using e by simp
qed

lemma nt_retries_connect:
  assumes "0 \<le> nt_socket os k" "0 < nt_inet_pton os k" "nt_connect os k < 0" "Suc k < fuel"
  shows "retries (trace (final (nt_main fuel os)))"
proof -
  obtain t a r where e: "trace (final (nt_main fuel os)) =
           t @ [Connect (nt_connect os k),
                Diag Stderr ''Attempt %d: Connection failed (Network blocked?)'' [a],
                Perror ''connect'', Close_fd (nt_socket os k), Sleep (3 * second),
                Socket (nt_socket os (Suc k))] @ r"
    using nt_retry_connect [of os k fuel] assms by blast
  have "retries (t @ Connect (nt_connect os k)
          # Diag Stderr ''Attempt %d: Connection failed (Network blocked?)'' [a]
          # [Perror ''connect'', Close_fd (nt_socket os k), Sleep (3 * second)]
          @ Socket (nt_socket os (Suc k)) # r)"
    by (rule retries_after_diag) simp_all
  then show ?thesis using e by simp
qed

section \<open>The claims\<close>

text \<open>
  C10. Whatever the argument vector is, the effective maximum lies in the closed range
  from 5 to 80. When an argument is given, the maximum is what \<open>atoi\<close> makes of it,
  raised to 5 when it is smaller and lowered to 80 when it is larger: a value from 5 to
  80 is taken as it is (42 gives 42), a larger one gives 80 (100 gives 80), a smaller
  one gives 5 (-7 gives 5). Text that does not start with white space, a sign or a
  digit is mapped to 0 by \<open>atoi\<close> and gives 5; so does the empty text. With the program
  name alone, or with an empty argument vector, the maximum is 80.
\<close>

theorem C10_max_threads_clamped:
  "5 \<le> max_threads_of argv \<and> max_threads_of argv \<le> 80
   \<and> max_threads_of (prog # a # rest) = max 5 (min 80 (atoi a))
   \<and> max_threads_of [prog] = 80 \<and> max_threads_of [] = 80
   \<and> (\<not> isspace c \<and> \<not> isdigit c \<and> c \<noteq> CHR ''-'' \<and> c \<noteq> CHR ''+'' \<longrightarrow>
        atoi (c # cs) = 0 \<and> max_threads_of (prog # (c # cs) # rest) = 5)
   \<and> atoi ''abc'' = 0 \<and> max_threads_of [prog, ''abc''] = 5
   \<and> atoi [] = 0 \<and> max_threads_of [prog, []] = 5
   \<and> atoi ''42'' = 42 \<and> max_threads_of [prog, ''42''] = 42
   \<and> atoi '' 42xyz'' = 42 \<and> max_threads_of [prog, '' 42xyz''] = 42
   \<and> atoi ''100'' = 100 \<and> max_threads_of [prog, ''100''] = 80
   \<and> atoi ''-7'' = - 7 \<and> max_threads_of [prog, ''-7''] = 5"
proof -
  have r: "5 \<le> max_threads_of argv \<and> max_threads_of argv \<le> 80"
    by (rule max_threads_of_range)
  have c: "max_threads_of (prog # a # rest) = max 5 (min 80 (atoi a))" for a rest
    by (rule max_threads_of_clamp)
  have n: "max_threads_of [prog] = 80 \<and> max_threads_of [] = 80"
    by (simp add: max_threads_of_def MAX_THREADS_def)
  have z: "atoi (c # cs) = 0 \<and> max_threads_of (prog # (c # cs) # rest) = 5"
    if "\<not> isspace c \<and> \<not> isdigit c \<and> c \<noteq> CHR ''-'' \<and> c \<noteq> CHR ''+''"
    using that by (simp add: c atoi_no_digits)
  have a1: "atoi ''abc'' = 0" by (simp add: atoi_eval)
  have a2: "atoi [] = 0" by (simp add: atoi_eval)
  have a3: "atoi ''42'' = 42" by (simp add: atoi_eval)
  have a4: "atoi '' 42xyz'' = 42" by (simp add: atoi_eval)
  have a5: "atoi ''100'' = 100" by (simp add: atoi_eval)
  have a6: "atoi ''-7'' = - 7" by (simp add: atoi_eval)
  have m: "max_threads_of [prog, ''abc''] = 5" "max_threads_of [prog, []] = 5"
    "max_threads_of [prog, ''42''] = 42" "max_threads_of [prog, '' 42xyz''] = 42"
    "max_threads_of [prog, ''100''] = 80" "max_threads_of [prog, ''-7''] = 5"
    by (simp_all add: c a1 a2 a3 a4 a5 a6)
  show ?thesis using r c n z a1 a2 a3 a4 a5 a6 m by blast
qed

theorem C10_max_threads_clamped_witness:
  "atoi ''x9'' = 0 \<and> max_threads_of [''fork_bomb_gradual'', ''x9''] = 5"
  using C10_max_threads_clamped
    [where c = "CHR ''x''" and cs = "''9''" and rest = "[]" and prog = "''fork_bomb_gradual''"]
  by (simp add: isspace_def isdigit_def)

text \<open>
  C6. The number of threads created by the end of phase 2 never exceeds the effective
  maximum, whatever the argument. The second half of the claim fails on the code: when
  a creation fails in phase 1 and a later one succeeds, the join loop, which walks the
  slots \<open>0 .. created_threads - 1\<close>, joins a slot that never held a thread and leaves the
  last created thread unjoined. Here the maximum is 5 and the first creation fails:
  the threads of slots 1 to 4 are created, slots 0 to 3 are joined, and slot 4 is
  still live when \<open>main\<close> returns.
\<close>

theorem C6_thread_left_unjoined:
  "int (created_threads (fbg_after_phase2 argv ok)) \<le> max_threads_of argv
   \<and> filter is_thread_event (trace (snd (fbg_main [''fork_bomb_gradual'', ''5''] (\<lambda>i. i \<noteq> 0))))
       = [Thread_create 0 False, Thread_create 1 True, Thread_create 2 True,
          Thread_create 3 True, Thread_create 4 True,
          Thread_join 0 Unused, Thread_join 1 Live, Thread_join 2 Live, Thread_join 3 Live]
   \<and> threads (snd (fbg_main [''fork_bomb_gradual'', ''5''] (\<lambda>i. i \<noteq> 0))) ! 4 = Live
   \<and> fst (fbg_main [''fork_bomb_gradual'', ''5''] (\<lambda>i. i \<noteq> 0)) = 0"
proof -
  have "filter is_thread_event (trace (snd (fbg_main [''fork_bomb_gradual'', ''5''] (\<lambda>i. i \<noteq> 0))))
       = [Thread_create 0 False, Thread_create 1 True, Thread_create 2 True,
          Thread_create 3 True, Thread_create 4 True,
          Thread_join 0 Unused, Thread_join 1 Live, Thread_join 2 Live, Thread_join 3 Live]"
    by (simp add: fbg_eval)
  moreover have "threads (snd (fbg_main [''fork_bomb_gradual'', ''5''] (\<lambda>i. i \<noteq> 0))) ! 4 = Live"
    by (simp add: fbg_eval)
  moreover have "fst (fbg_main [''fork_bomb_gradual'', ''5''] (\<lambda>i. i \<noteq> 0)) = 0"
    by (simp add: fbg_main_def Let_def)
  ultimately show ?thesis using fbg_created_le_max [of argv ok] by simp
qed

text \<open>
  C1. The count of releases equals the count of acquisitions only when the part of the
  array that the program never wrote happens to hold null pointers: cleanup walks all
  30 entries, and the first non-null value that it finds in an entry never written is
  passed to \<open>free\<close>, a call that the process does not survive. The number of calls of
  \<open>free\<close> then exceeds the number of successful allocations by one. In a run where all
  25 allocations succeed and the stack holds a non-null value at index 25, 25 blocks
  are acquired and \<open>free\<close> is called 26 times. In the gradual fork bomb with the first
  creation failing, 4 threads are created and 3 joined. The combo generator releases
  exactly what it acquired, whatever the operating system does.
\<close>

theorem C1_release_count_differs:
  "released (trace (snd (mlp_main mres g))) =
     acquired (trace (snd (mlp_main mres g)))
     + (if list_ex (\<lambda>k. g k \<noteq> 0) [mlp_unwritten (trace (snd (mlp_main mres g)))..<30]
        then 1 else 0)
   \<and> acquired (trace (snd (mlp_main (\<lambda>i. Suc i) (\<lambda>k. if k = 25 then 4919 else 0)))) = 25
   \<and> released (trace (snd (mlp_main (\<lambda>i. Suc i) (\<lambda>k. if k = 25 then 4919 else 0)))) = 26
   \<and> acquired (trace (snd (fbg_main [''fork_bomb_gradual'', ''5''] (\<lambda>i. i \<noteq> 0)))) = 4
   \<and> released (trace (snd (fbg_main [''fork_bomb_gradual'', ''5''] (\<lambda>i. i \<noteq> 0)))) = 3
   \<and> released (trace (snd (rec_main os g'))) = acquired (trace (snd (rec_main os g')))"
proof -
  let ?g = "\<lambda>k. if k = 25 then 4919 else (0::nat)"
  have n: "mlp_stop (\<lambda>i. Suc i) 0 = 25" by (rule mlp_stop_all_ok) simp
  have a: "acquired (trace (snd (mlp_main (\<lambda>i. Suc i) ?g))) = 25"
    by (simp add: mlp_main_counts n)
  have u: "mlp_unwritten (trace (snd (mlp_main (\<lambda>i. Suc i) ?g))) = 25"
    by (simp add: mlp_unwritten_eq n)
  have "list_ex (\<lambda>k. ?g k \<noteq> 0) [25..<30]" by (auto simp: list_ex_iff)
  then have r: "released (trace (snd (mlp_main (\<lambda>i. Suc i) ?g))) = 26"
    by (subst mlp_balance) (simp only: a u if_True)
  have fa: "acquired (trace (snd (fbg_main [''fork_bomb_gradual'', ''5''] (\<lambda>i. i \<noteq> 0)))) = 4"
    by (simp add: fbg_eval)
  have fr: "released (trace (snd (fbg_main [''fork_bomb_gradual'', ''5''] (\<lambda>i. i \<noteq> 0)))) = 3"
    by (simp add: fbg_eval)
  show ?thesis using mlp_balance [of mres g] a r fa fr rec_main_balanced [of os g'] by blast
qed

text \<open>
  C9, as stated, fails when the stack holds a non-null value in a never-written entry
  before the last one. With all 25 allocations succeeding and such a value at index 25,
  cleanup reads the entries 0 to 25, passes entry 25 to \<open>free\<close>, and the process is
  killed in that call: the entries 26 to 29 are never read.
\<close>

theorem C9_entries_not_read_counterexample:
  "fst (mlp_main (\<lambda>i. Suc i) (\<lambda>k. if k = 25 then 4919 else 0)) = Killed
   \<and> list_ex (reads_entry 25) (trace (snd (mlp_main (\<lambda>i. Suc i) (\<lambda>k. if k = 25 then 4919 else 0))))
   \<and> \<not> list_ex (reads_entry 26) (trace (snd (mlp_main (\<lambda>i. Suc i) (\<lambda>k. if k = 25 then 4919 else 0))))
   \<and> \<not> list_ex (reads_entry 27) (trace (snd (mlp_main (\<lambda>i. Suc i) (\<lambda>k. if k = 25 then 4919 else 0))))
   \<and> \<not> list_ex (reads_entry 28) (trace (snd (mlp_main (\<lambda>i. Suc i) (\<lambda>k. if k = 25 then 4919 else 0))))
   \<and> \<not> list_ex (reads_entry 29) (trace (snd (mlp_main (\<lambda>i. Suc i) (\<lambda>k. if k = 25 then 4919 else 0))))
   \<and> (\<exists>t. trace (snd (mlp_main (\<lambda>i. Suc i) (\<lambda>k. if k = 25 then 4919 else 0)))
             = t @ [Load 25 (Uninit 4919), Free 4919])"
proof -
  let ?g = "\<lambda>k::nat. if k = 25 then 4919 else (0::nat)"
  have n: "mlp_stop (\<lambda>i. Suc i) 0 = 25" by (rule mlp_stop_all_ok) simp
  have u: "mlp_unwritten (trace (snd (mlp_main (\<lambda>i. Suc i) ?g))) = 25"
    by (simp add: mlp_unwritten_eq n)
  have k: "fst (mlp_main (\<lambda>i. Suc i) ?g) = Killed"
    by (subst mlp_main_fate) (auto simp: u intro: exI [of _ 25])
  have r: "list_ex (reads_entry j) (trace (snd (mlp_main (\<lambda>i. Suc i) ?g))) = (j \<le> 25)" if "j < 30" for j
    using that by (subst mlp_reads_iff) (auto simp: u)
  have t: "\<exists>t. trace (snd (mlp_main (\<lambda>i. Suc i) ?g)) = t @ [Load 25 (Uninit (?g 25)), Free (?g 25)]"
    by (rule mlp_killed_tail) (simp_all add: u)
  show ?thesis using k r [of 25] r [of 26] r [of 27] r [of 28] r [of 29] t by simp
qed

text \<open>
  C9, amended. The array has 30 entries; the allocation loop writes the entries below
  \<open>mlp_unwritten\<close>, which is at most 25, and no other. The cleanup loop reads the
  entries in increasing order, and it reads entry \<open>k\<close> if and only if all never-written
  entries before it are null. So in every execution it reads at least one entry that
  was never initialised, the first one, and finds the indeterminate content of the
  stack there. It reads further never-initialised entries only as long as those it has
  read were null: the first that is not null is passed to \<open>free\<close>, which is the last
  thing that the process does. The process returns 0 if and only if all never-written
  entries are null.
\<close>

theorem C9_cleanup_reads_uninitialised:
  "(let t = trace (snd (mlp_main mres g)); u = mlp_unwritten t in
     length (allocations (snd (mlp_main mres g))) = 30
     \<and> u \<le> 25
     \<and> (k < 30 \<longrightarrow>
          allocations (snd (mlp_main mres g)) ! k = (if k < u then Init (mres k) else Uninit (g k))
          \<and> list_ex (reads_entry k) t = (\<forall>j. u \<le> j \<and> j < k \<longrightarrow> g j = 0)
          \<and> (Load k (if k < u then Init (mres k) else Uninit (g k)) \<in> set t)
              = (\<forall>j. u \<le> j \<and> j < k \<longrightarrow> g j = 0))
     \<and> Load u (Uninit (g u)) \<in> set t
     \<and> (u \<le> k \<and> k < 30 \<and> g k \<noteq> 0 \<and> (\<forall>j. u \<le> j \<and> j < k \<longrightarrow> g j = 0) \<longrightarrow>
          (\<exists>t'. t = t' @ [Load k (Uninit (g k)), Free (g k)]))
     \<and> (fst (mlp_main mres g) = Exit 0) = (\<forall>j. u \<le> j \<and> j < 30 \<longrightarrow> g j = 0)
     \<and> (fst (mlp_main mres g) = Killed) = (\<exists>j. u \<le> j \<and> j < 30 \<and> g j \<noteq> 0))"
proof -
  let ?t = "trace (snd (mlp_main mres g))"
  let ?u = "mlp_unwritten ?t"
  have u: "?u \<le> 25" by (simp add: mlp_unwritten_def)
  have c: "allocations (snd (mlp_main mres g)) ! k
             = (if k < ?u then Init (mres k) else Uninit (g k))" if "k < 30" for k
    using that by (simp add: mlp_unwritten_cell)
  have r: "list_ex (reads_entry k) ?t = (\<forall>j. ?u \<le> j \<and> j < k \<longrightarrow> g j = 0)" if "k < 30" for k
    using that by (rule mlp_reads_iff)
  have l: "(Load k (if k < ?u then Init (mres k) else Uninit (g k)) \<in> set ?t)
             = (\<forall>j. ?u \<le> j \<and> j < k \<longrightarrow> g j = 0)" if "k < 30" for k
    using that r [of k] c [of k] by (simp add: mlp_main_loads mlp_main_reads)
  have f: "Load ?u (Uninit (g ?u)) \<in> set ?t"
    using l [of ?u] u by simp
  have d: "\<exists>t'. ?t = t' @ [Load k (Uninit (g k)), Free (g k)]"
    if "?u \<le> k \<and> k < 30 \<and> g k \<noteq> 0 \<and> (\<forall>j. ?u \<le> j \<and> j < k \<longrightarrow> g j = 0)"
    using that by (intro mlp_killed_tail) simp_all
  have e: "(fst (mlp_main mres g) = Exit 0) = (\<forall>j. ?u \<le> j \<and> j < 30 \<longrightarrow> g j = 0)"
    "(fst (mlp_main mres g) = Killed) = (\<exists>j. ?u \<le> j \<and> j < 30 \<and> g j \<noteq> 0)"
  proof -
    show "(fst (mlp_main mres g) = Exit 0) = (\<forall>j. ?u \<le> j \<and> j < 30 \<longrightarrow> g j = 0)"
      by (subst mlp_main_fate) auto
    show "(fst (mlp_main mres g) = Killed) = (\<exists>j. ?u \<le> j \<and> j < 30 \<and> g j \<noteq> 0)"
      by (subst mlp_main_fate) auto
  qed
  show ?thesis
    unfolding Let_def using u c [of k] r [of k] l [of k] f d e by (simp add: mlp_attack_length)
qed

theorem C9_cleanup_reads_uninitialised_witness:
  "Load 25 (Uninit 4919) \<in> set (trace (snd (mlp_main (\<lambda>i. Suc i) (\<lambda>k. 4919))))
   \<and> (\<exists>t'. trace (snd (mlp_main (\<lambda>i. Suc i) (\<lambda>k. 4919))) = t' @ [Load 25 (Uninit 4919), Free 4919])
   \<and> fst (mlp_main (\<lambda>i. Suc i) (\<lambda>k. 4919)) = Killed"
proof -
  have n: "mlp_stop (\<lambda>i. Suc i) 0 = 25" by (rule mlp_stop_all_ok) simp
  have u: "mlp_unwritten (trace (snd (mlp_main (\<lambda>i. Suc i) (\<lambda>k. 4919)))) = 25"
    by (simp add: mlp_unwritten_eq n)
  have "\<exists>j\<ge>25. j < (30::nat)" by (rule exI [of _ 25]) simp
  then show ?thesis
    using C9_cleanup_reads_uninitialised [of "\<lambda>i. Suc i" "\<lambda>k. 4919" 25]
    by (simp add: Let_def u)
qed

lemma alloc_sizes_fit:
  "i < 25 \<Longrightarrow> mlp_alloc_size i < 2 ^ 31" "k < 30 \<Longrightarrow> rec_alloc_size k < 2 ^ 31"
  by (simp_all add: mlp_alloc_size_def rec_alloc_size_def MB_def)

text \<open>
  C5. The sizes of the successful allocations, in the order in which they are made, are
  5 MB, 10 MB, 15 MB, ... in the progressive memory leak and 8 MB, 16 MB, 24 MB, ...
  in the combo generator: each one exceeds the one before it by exactly 5 MB
  (respectively 8 MB), and the one at position \<open>k\<close> is \<open>k + 1\<close> times the increment.
\<close>

theorem C5_allocation_sizes_step:
  "(Suc k < length (succ_sizes (trace (snd (mlp_main mres g)))) \<longrightarrow>
      succ_sizes (trace (snd (mlp_main mres g))) ! Suc k
        = succ_sizes (trace (snd (mlp_main mres g))) ! k + 5 * MB)
   \<and> (k < length (succ_sizes (trace (snd (mlp_main mres g)))) \<longrightarrow>
      succ_sizes (trace (snd (mlp_main mres g))) ! k = (k + 1) * 5 * MB)
   \<and> (Suc k < length (succ_sizes (trace (snd (rec_main os g')))) \<longrightarrow>
      succ_sizes (trace (snd (rec_main os g'))) ! Suc k
        = succ_sizes (trace (snd (rec_main os g'))) ! k + 8 * MB)
   \<and> (k < length (succ_sizes (trace (snd (rec_main os g')))) \<longrightarrow>
      succ_sizes (trace (snd (rec_main os g'))) ! k = (k + 1) * 8 * MB)"
  by (simp add: mlp_main_sizes rec_main_sizes mlp_alloc_size_def rec_alloc_size_def algebra_simps)

theorem C5_allocation_sizes_step_witness:
  "Suc 1 < length (succ_sizes (trace (snd (mlp_main (\<lambda>i. if i < 3 then Suc i else 0) (\<lambda>k. 0)))))
   \<and> succ_sizes (trace (snd (mlp_main (\<lambda>i. if i < 3 then Suc i else 0) (\<lambda>k. 0)))) ! Suc 1
        = succ_sizes (trace (snd (mlp_main (\<lambda>i. if i < 3 then Suc i else 0) (\<lambda>k. 0)))) ! 1 + 5 * MB
   \<and> Suc 1 < length (succ_sizes (trace (snd (rec_main os_fine (\<lambda>k. 0)))))
   \<and> succ_sizes (trace (snd (rec_main os_fine (\<lambda>k. 0)))) ! Suc 1
        = succ_sizes (trace (snd (rec_main os_fine (\<lambda>k. 0)))) ! 1 + 8 * MB"
proof -
  have h1: "Suc 1 < length (succ_sizes (trace (snd (mlp_main (\<lambda>i. if i < 3 then Suc i else 0) (\<lambda>k. 0)))))"
    by (simp add: mlp_main_sizes mlp_stop.simps)
  have h2: "Suc 1 < length (succ_sizes (trace (snd (rec_main os_fine (\<lambda>k. 0)))))"
    by (simp add: rec_main_sizes rec_phase2_leak_count os_fine_def upt_rec)
  show ?thesis
    using C5_allocation_sizes_step [of 1 "\<lambda>i. if i < 3 then Suc i else 0" "\<lambda>k. 0" os_fine "\<lambda>k. 0"]
      h1 h2 by blast
qed

lemma rec_first_malloc:
  "Malloc (rec_alloc_size 0) (rec_malloc os 0) \<in> set (trace (snd (rec_main os g)))"
proof -
  let ?s0 = "emit [Print Stdout ''Phase 1/3: Normal startup...'' [], Sleep (2 * second),
              Print Stdout ''Phase 2/3: COMBINED ATTACK!'' [],
              Print Stdout ''Triggering all attack vectors simultaneously...'' []] (rec_init g)"
  let ?a = "emit [Print Stdout ''Attack iteration %d/20:'' [0 + 1]] ?s0"
  let ?m = "Malloc (rec_alloc_size 0) (rec_malloc os 0)"
  have "?m \<in> set (trace (rec_leak os 0 ?a))"
    by (simp add: rec_leak_def Let_def rec_init_def)
  also have "set (trace (rec_leak os 0 ?a)) \<subseteq> set (trace (rec_threads os 0 (rec_leak os 0 ?a)))"
    by (rule grows_set [OF rec_threads_grows])
  also have "\<dots> \<subseteq> set (trace (rec_files os 0 (rec_threads os 0 (rec_leak os 0 ?a))))"
    by (rule grows_set [OF rec_files_grows])
  also have "\<dots> \<subseteq> set (trace (rec_cpu (rec_files os 0 (rec_threads os 0 (rec_leak os 0 ?a)))))"
    by (rule grows_set [OF rec_cpu_grows])
  also have "\<dots> \<subseteq> set (trace (rec_iter os 0 ?s0))"
    by (auto simp: rec_iter_def)
  also have "\<dots> \<subseteq> set (trace (rec_attack os (Suc 0) (rec_iter os 0 ?s0)))"
    by (rule grows_set [OF rec_attack_grows])
  also have "rec_attack os (Suc 0) (rec_iter os 0 ?s0) = rec_phase2 os g"
    unfolding rec_phase2_def by (subst (2) rec_attack.simps) simp
  finally have "?m \<in> set (trace (rec_phase2 os g))" .
  moreover obtain r where "trace (snd (rec_main os g)) = trace (rec_phase2 os g) @ r"
    using rec_epilogue [of os g] by blast
  ultimately show ?thesis by simp
qed

text \<open>
  C3, as stated, fails on the combo generator: with every allocation, thread creation
  and file open failing, the first allocation fails, nothing is printed about any
  failure, and the attack phase still reaches its twentieth iteration.
\<close>

theorem C3_combo_counterexample:
  "Malloc (rec_alloc_size 0) 0 \<in> set (trace (snd (rec_main os_refusing (\<lambda>k. 0))))
   \<and> \<not> list_ex is_diag (trace (snd (rec_main os_refusing (\<lambda>k. 0))))
   \<and> Print Stdout ''Attack iteration %d/20:'' [20] \<in> set (trace (snd (rec_main os_refusing (\<lambda>k. 0))))"
  using rec_first_malloc [of os_refusing "\<lambda>k. 0"] rec_main_no_diag [of os_refusing "\<lambda>k. 0"]
    rec_main_iterations [of 19 os_refusing "\<lambda>k. 0"]
  by (simp add: os_refusing_def)

text \<open>
  C3, amended. In the progressive memory leak the first failed allocation, and in phase
  2 of the gradual fork bomb the first failed thread creation, is followed at once by a
  diagnostic line; after it the program makes no further attempt and prints nothing
  about a failure, and it reaches its cleanup. In the combo generator no failure is
  ever reported, every one of the 20 iterations of the attack phase runs, and cleanup
  is reached. The gradual fork bomb and the combo generator return 0. The progressive
  memory leak returns 0 when the entries of its array after that of the failed
  allocation, which it never wrote, are null; otherwise it is killed in its cleanup.
\<close>

theorem C3_failure_handling:
  "(i < 25 \<and> mres i = 0 \<and> (\<forall>j<i. mres j \<noteq> 0) \<longrightarrow>
      (\<exists>t r. trace (snd (mlp_main mres g)) =
                t @ [Malloc (mlp_alloc_size i) 0,
                     Diag Stdout ''[%d/25] Memory allocation FAILED at %zu MB''
                       [i + 1, mlp_alloc_size i div MB],
                     Diag Stdout ''(System limit reached - this is expected)'' []] @ r
              \<and> list_all calm r \<and> Print Stdout ''Cleaning up allocations...'' [] \<in> set r)
      \<and> (fst (mlp_main mres g) = Exit 0) = (\<forall>j. i < j \<and> j < 30 \<longrightarrow> g j = 0))
   \<and> (5 \<le> n \<and> int n < max_threads_of argv \<and> \<not> ok n \<and> (\<forall>j. 5 \<le> j \<and> j < n \<longrightarrow> ok j) \<longrightarrow>
      (\<exists>t r. trace (snd (fbg_main argv ok)) =
                t @ [Thread_create n False,
                     Diag Stdout ''Failed to create thread %d (limit reached)'' [n + 1]] @ r
              \<and> list_all calm r \<and> Print Stdout ''Shutting down threads...'' [] \<in> set r))
   \<and> \<not> list_ex is_diag (trace (snd (rec_main os g')))
   \<and> (k < 20 \<longrightarrow> Print Stdout ''Attack iteration %d/20:'' [k + 1] \<in> set (trace (snd (rec_main os g'))))
   \<and> (\<exists>t r. trace (snd (rec_main os g')) = t @ r \<and> list_all calm r
             \<and> Print Stdout ''Shutting down attack...'' [] \<in> set r)
   \<and> fst (fbg_main argv ok) = 0 \<and> fst (rec_main os g') = Exit 0"
proof -
  have a: "(\<exists>t r. trace (snd (mlp_main mres g)) =
                t @ [Malloc (mlp_alloc_size i) 0,
                     Diag Stdout ''[%d/25] Memory allocation FAILED at %zu MB''
                       [i + 1, mlp_alloc_size i div MB],
                     Diag Stdout ''(System limit reached - this is expected)'' []] @ r
              \<and> list_all calm r \<and> Print Stdout ''Cleaning up allocations...'' [] \<in> set r)
      \<and> (fst (mlp_main mres g) = Exit 0) = (\<forall>j. i < j \<and> j < 30 \<longrightarrow> g j = 0)"
    if h: "i < 25" "mres i = 0" "\<forall>j<i. mres j \<noteq> 0"
  proof -
    have n: "mlp_stop mres 0 = i" using h by (intro mlp_stop_first_fail) simp_all
    have u: "mlp_unwritten (trace (snd (mlp_main mres g))) = Suc i"
      using h(1) by (simp add: mlp_unwritten_eq n)
    have x: "(fst (mlp_main mres g) = Exit 0) = (\<forall>j. i < j \<and> j < 30 \<longrightarrow> g j = 0)"
      by (subst mlp_main_fate) (auto simp: u Suc_le_eq)
    obtain t where t: "trace (mlp_attack mres g) =
        t @ [Malloc (mlp_alloc_size i) 0,
             Diag Stdout ''[%d/25] Memory allocation FAILED at %zu MB'' [i + 1, mlp_alloc_size i div MB],
             Diag Stdout ''(System limit reached - this is expected)'' []]"
      using mlp_leak_trace_fail [of 0 mres] h(1) n unfolding mlp_attack_def by auto
    obtain r where r: "trace (snd (mlp_main mres g)) = trace (mlp_attack mres g) @ r"
        "list_all calm r" "Print Stdout ''Cleaning up allocations...'' [] \<in> set r"
      using mlp_epilogue [of mres g] by blast
    have "\<exists>t r. trace (snd (mlp_main mres g)) =
                t @ [Malloc (mlp_alloc_size i) 0,
                     Diag Stdout ''[%d/25] Memory allocation FAILED at %zu MB''
                       [i + 1, mlp_alloc_size i div MB],
                     Diag Stdout ''(System limit reached - this is expected)'' []] @ r
              \<and> list_all calm r \<and> Print Stdout ''Cleaning up allocations...'' [] \<in> set r"
      using t r by (intro exI [of _ t] exI [of _ r]) simp
    then show ?thesis using x by blast
  qed
  have b: "\<exists>t r. trace (snd (fbg_main argv ok)) =
                t @ [Thread_create n False,
                     Diag Stdout ''Failed to create thread %d (limit reached)'' [n + 1]] @ r
              \<and> list_all calm r \<and> Print Stdout ''Shutting down threads...'' [] \<in> set r"
    if h: "5 \<le> n" "int n < max_threads_of argv" "\<not> ok n" "\<forall>j. 5 \<le> j \<and> j < n \<longrightarrow> ok j"
  proof -
    have lt: "n < nat (max_threads_of argv)" using h(2) by simp
    obtain t where t: "trace (fbg_after_phase2 argv ok) =
        t @ [Thread_create n False, Diag Stdout ''Failed to create thread %d (limit reached)'' [n + 1]]"
      unfolding fbg_after_phase2_def Let_def
      using fbg_phase2_fail [of 5 n "nat (max_threads_of argv)" ok] h(1,3,4) lt by blast
    obtain r where r: "trace (snd (fbg_main argv ok)) = trace (fbg_after_phase2 argv ok) @ r"
        "list_all calm r" "Print Stdout ''Shutting down threads...'' [] \<in> set r"
      using fbg_epilogue [of argv ok] by blast
    show ?thesis using t r by (intro exI [of _ t] exI [of _ r]) simp
  qed
  have c: "\<exists>t r. trace (snd (rec_main os g')) = t @ r \<and> list_all calm r
             \<and> Print Stdout ''Shutting down attack...'' [] \<in> set r"
    using rec_epilogue [of os g'] by blast
  have d: "fst (fbg_main argv ok) = 0 \<and> fst (rec_main os g') = Exit 0"
    by (simp add: fbg_main_def rec_main_exit Let_def)
  show ?thesis
    using a b c d rec_main_no_diag [of os g'] rec_main_iterations [of k os g'] by blast
qed

theorem C3_failure_handling_witness:
  "(\<exists>t r. trace (snd (mlp_main (\<lambda>j. if j = 2 then 0 else Suc j) (\<lambda>k. 0))) =
                t @ [Malloc (mlp_alloc_size 2) 0,
                     Diag Stdout ''[%d/25] Memory allocation FAILED at %zu MB''
                       [2 + 1, mlp_alloc_size 2 div MB],
                     Diag Stdout ''(System limit reached - this is expected)'' []] @ r
              \<and> list_all calm r \<and> Print Stdout ''Cleaning up allocations...'' [] \<in> set r)
   \<and> fst (mlp_main (\<lambda>j. if j = 2 then 0 else Suc j) (\<lambda>k. 0)) = Exit 0
   \<and> (\<exists>t r. trace (snd (fbg_main [''fork_bomb_gradual''] (\<lambda>j. j \<noteq> 6))) =
                t @ [Thread_create 6 False,
                     Diag Stdout ''Failed to create thread %d (limit reached)'' [6 + 1]] @ r
              \<and> list_all calm r \<and> Print Stdout ''Shutting down threads...'' [] \<in> set r)
   \<and> Print Stdout ''Attack iteration %d/20:'' [0 + 1] \<in> set (trace (snd (rec_main os_refusing (\<lambda>k. 0))))"
proof -
  have h: "int 6 < max_threads_of [''fork_bomb_gradual'']"
    by (simp add: max_threads_of_def MAX_THREADS_def)
  show ?thesis
    using C3_failure_handling [of 2 "\<lambda>j. if j = 2 then 0 else Suc j" "\<lambda>k. 0" 6
        "[''fork_bomb_gradual'']" "\<lambda>j. j \<noteq> 6" os_refusing "\<lambda>k. 0" 0] h
    by simp
qed

text \<open>
  C4, as stated, fails when a write is short: if the first write of the storm stores
  only half of its chunk, the 150 iterations still run, and the total is 149.5 chunks,
  which is neither 150 chunks nor any whole number of chunks.
\<close>

theorem C4_short_write_counterexample:
  "total_written (ios_after_storm os_short {}) = 149 * ios_CHUNK_SIZE + 524288
   \<and> total_written (ios_after_storm os_short {}) \<noteq> ios_CHUNK_SIZE * 150
   \<and> total_written (ios_after_storm os_short {}) mod ios_CHUNK_SIZE \<noteq> 0"
proof -
  have "(\<Sum>k<150. ios_written os_short (3 + k))
          = ios_written os_short 3 + (\<Sum>k<149. ios_written os_short (3 + Suc k))"
    using sum.lessThan_Suc_shift [of "\<lambda>k. ios_written os_short (3 + k)" 149] by simp
  also have "\<dots> = 524288 + 149 * 1048576"
    by (simp add: ios_written_def os_short_def ios_CHUNK_SIZE_def MB_def)
  finally have "total_written (ios_after_storm os_short {}) = 524288 + 149 * 1048576"
    by (simp add: ios_after_storm_total)
  then show ?thesis by (simp add: ios_CHUNK_SIZE_def MB_def)
qed

text \<open>
  C4, amended. After the 150 iterations of the attack phase the running total is the
  sum of what the 150 calls of \<open>fwrite\<close> reported; it never exceeds 150 chunks of 1 MB
  and equals 150 chunks when every write of the phase was complete. When the buffer
  is allocated and the file is opened, the program exits with 0 after unlinking the
  PID-named file, which then no longer exists.
\<close>

theorem C4_total_written:
  "total_written (ios_after_storm os fs) = (\<Sum>k<150. ios_written os (3 + k))
   \<and> total_written (ios_after_storm os fs) \<le> ios_CHUNK_SIZE * 150
   \<and> ((\<forall>k<150. ios_fwrite os (3 + k) = ios_CHUNK_SIZE) \<longrightarrow>
        total_written (ios_after_storm os fs) = ios_CHUNK_SIZE * 150)
   \<and> (ios_malloc os \<noteq> 0 \<and> ios_fopen os \<longrightarrow>
        fst (ios_main os fs) = 0
        \<and> ios_name (ios_pid os) \<notin> files (snd (ios_main os fs))
        \<and> Unlink (ios_name (ios_pid os)) \<in> set (trace (snd (ios_main os fs)))
        \<and> total_written (snd (ios_main os fs)) = total_written (ios_after_storm os fs))"
  using ios_after_storm_total [of os fs] ios_total_le [of os fs] ios_total_complete [of os fs]
    ios_main_success [of os fs]
  by blast

theorem C4_total_written_witness:
  "total_written (ios_after_storm
      \<lparr>ios_malloc = 1, ios_fopen = True, ios_fwrite = (\<lambda>k. 1048576), ios_pid = 4242\<rparr> {})
     = ios_CHUNK_SIZE * 150
   \<and> fst (ios_main \<lparr>ios_malloc = 1, ios_fopen = True, ios_fwrite = (\<lambda>k. 1048576), ios_pid = 4242\<rparr> {}) = 0
   \<and> ios_name 4242 \<notin> files (snd (ios_main
        \<lparr>ios_malloc = 1, ios_fopen = True, ios_fwrite = (\<lambda>k. 1048576), ios_pid = 4242\<rparr> {}))"
  using C4_total_written
    [of "\<lparr>ios_malloc = 1, ios_fopen = True, ios_fwrite = (\<lambda>k. 1048576), ios_pid = 4242\<rparr>" "{}"]
  by (simp add: ios_CHUNK_SIZE_def MB_def)

text \<open>
  C2, as stated, fails on the exit code: with the disk full from the start, the first
  write stores nothing, the message goes to standard error, and the program leaves the
  loop, frees the buffer, closes the file and returns 0, not 1.
\<close>

theorem C2_exit_code_counterexample:
  "exit_code (fw_main 1 os_full None) = Some 0
   \<and> exit_code (fw_main 1 os_full None) \<noteq> Some 1
   \<and> Diag Stderr ''Write failed after %lu MB'' [0] \<in> set (trace (final (fw_main 1 os_full None)))
   \<and> out_file (final (fw_main 1 os_full None)) = Some 0"
  by (simp add: fw_main_def os_full_def Let_def fw_loop_short fw_CHUNK_SIZE_def fw_grow_def)

text \<open>
  C2, amended. When the file is opened, the buffer is allocated, and the \<open>k\<close>-th write
  is the first one that stores fewer bytes than a chunk, the file writer (given fuel
  for more than \<open>k\<close> iterations) reports the write failure on standard error as its
  only diagnostic, frees the buffer, closes the file and exits with code 0. The output
  file is never unlinked: it stays on disk with the \<open>k\<close> complete chunks and the bytes
  of the partial write.
\<close>

theorem C2_write_failure_exit:
  "fw_fopen os \<and> fw_malloc os \<noteq> 0 \<and> fw_fwrite os k < fw_CHUNK_SIZE
   \<and> (\<forall>j<k. fw_CHUNK_SIZE \<le> fw_fwrite os j) \<and> k < fuel \<longrightarrow>
   (\<exists>s t. fw_main fuel os f0 = Exited 0 s
      \<and> trace s = t @ [Diag Stderr ''Write failed after %lu MB''
                        [unat (of_nat (k * fw_CHUNK_SIZE) :: 64 word) div (1024 * 1024)],
                      Free (fw_malloc os), Fclose]
      \<and> \<not> list_ex is_diag t
      \<and> out_file s = Some (k * fw_CHUNK_SIZE + fw_fwrite os k)
      \<and> \<not> list_ex is_unlink (trace s))"
  using fw_main_write_failure [of os k fuel f0] by blast

theorem C2_write_failure_exit_witness:
  "(\<exists>s t. fw_main 3 \<lparr>fw_fopen = True, fw_malloc = 1, fw_fwrite = (\<lambda>j. if j < 2 then 1048576 else 4096)\<rparr> None
             = Exited 0 s
      \<and> trace s = t @ [Diag Stderr ''Write failed after %lu MB''
                        [unat (of_nat (2 * fw_CHUNK_SIZE) :: 64 word) div (1024 * 1024)],
                      Free 1, Fclose]
      \<and> out_file s = Some (2 * fw_CHUNK_SIZE + 4096))"
  using C2_write_failure_exit
    [of "\<lparr>fw_fopen = True, fw_malloc = 1, fw_fwrite = (\<lambda>j. if j < 2 then 1048576 else 4096)\<rparr>" 2 3 None]
  by (simp add: fw_CHUNK_SIZE_def) blast

lemma cpu_phases_duration:
  "0 < b \<Longrightarrow>
   \<exists>t1 t2 s'. cpu_phases b s = Some (t1, t2, s')
      \<and> t1 = wall s + 5 * second
      \<and> t1 + 15 * second \<le> t2 \<and> t2 < t1 + 15 * second + 15 * b
      \<and> wall s' = t2 + 3 * second
      \<and> (b dvd second \<longrightarrow> wall s' = wall s + 23 * second)"
proof -
  assume b: "0 < b"
  let ?s0 = "emit [Print Stdout ''Phase 1/3: Benign behavior (low CPU)...'' []] s"
  obtain s1 where s1: "cpu_benign b 0 ?s0 = Some s1" "wall s1 = wall ?s0 + (5 - 0) * second"
    using cpu_benign_wall [of 0 b ?s0] by auto
  let ?a = "emit [Print Stdout ''Phase 2/3: ATTACK - CPU SPIKE!'' [],
                  Print Stdout ''Consuming 95%%+ CPU for 15 seconds...'' []] s1"
  obtain s2 where s2: "cpu_attack b 0 ?a = Some s2"
      "wall ?a + (15 - 0) * second \<le> wall s2"
      "wall s2 < wall ?a + (15 - 0) * second + (15 - 0) * b + (if (0::nat) < 15 then 0 else 1)"
      "b dvd second \<longrightarrow> wall s2 = wall ?a + (15 - 0) * second"
    using cpu_attack_wall [OF b, of 0 ?a] by auto
  let ?s3 = "emit [Print Stdout ''Attack Duration: %ld seconds'' [wall s2 div second - wall s1 div second]]
               (cpu_cooldown 0 (emit [Print Stdout ''Phase 3/3: Returning to normal behavior...'' []] s2))"
  have m: "cpu_phases b s = Some (wall s1, wall s2, ?s3)"
    using s1(1) s2(1) by (simp add: cpu_phases_def)
  have w3: "wall ?s3 = wall s2 + 3 * second"
    using cpu_cooldown_wall [of 0] by simp
  show ?thesis
    using m w3 s1(2) s2(2,3,4)
    by (intro exI [of _ "wall s1"] exI [of _ "wall s2"] exI [of _ ?s3]) auto
qed

text \<open>
  C7. The claim fails on the code. The first call of \<open>printf\<close> after the banner and the
  two lines that follow it, line 39, has a format with the invalid specification
  \<open>%)\<close> and the string conversion \<open>%+ s\<close>, and passes no argument: its behaviour is
  undefined, and the process is killed there, before phase 1, whatever the speed of
  the machine. No sleep and no computation has taken place, and \<open>main\<close> does not return
  0. The other formats of the program take the arguments that are passed. The phases
  themselves behave as the claim says: started in a state \<open>s\<close> on a machine on which a
  pass of the computing loop takes some positive time \<open>b\<close>, they last 5 seconds, at
  least 15 seconds and less than 15 seconds plus 15 passes of the loop, and 3 seconds,
  that is 23 seconds when \<open>b\<close> divides a second.
\<close>

theorem C7_killed_at_pattern_line:
  "cpu_main b = Some (Killed, \<lparr>trace = [], cpu_clock = 0, wall = 0\<rparr>)
   \<and> fmt_args Plain cpu_pattern_line = None
   \<and> fmt_args Plain ''Pattern: Low CPU (5%)'' = None
   \<and> fmt_args Plain ''Sudden spike to 95%+ sustained'' = Some 1
   \<and> fmt_args Plain ''[%d/5] CPU: ~5%% (normal)'' = Some 1
   \<and> fmt_args Plain ''Consuming 95%%+ CPU for 15 seconds...'' = Some 0
   \<and> fmt_args Plain ''[%d/15] CPU: 95%%+ (ANOMALOUS)'' = Some 1
   \<and> fmt_args Plain ''[%d/3] CPU: ~5%% (normal)'' = Some 1
   \<and> fmt_args Plain ''Attack Duration: %ld seconds'' = Some 1
   \<and> (0 < b \<longrightarrow>
        (\<exists>t1 t2 s'. cpu_phases b s = Some (t1, t2, s')
           \<and> t1 = wall s + 5 * second
           \<and> t1 + 15 * second \<le> t2 \<and> t2 < t1 + 15 * second + 15 * b
           \<and> wall s' = t2 + 3 * second
           \<and> (b dvd second \<longrightarrow> wall s' = wall s + 23 * second)))"
proof -
  have f: "fmt_args Plain ''Pattern: Low CPU (5%)'' = None"
    "fmt_args Plain ''Sudden spike to 95%+ sustained'' = Some 1"
    "fmt_args Plain ''[%d/5] CPU: ~5%% (normal)'' = Some 1"
    "fmt_args Plain ''Consuming 95%%+ CPU for 15 seconds...'' = Some 0"
    "fmt_args Plain ''[%d/15] CPU: 95%%+ (ANOMALOUS)'' = Some 1"
    "fmt_args Plain ''[%d/3] CPU: ~5%% (normal)'' = Some 1"
    "fmt_args Plain ''Attack Duration: %ld seconds'' = Some 1"
    by (simp_all add: is_flag_def is_length_def is_conversion_def isdigit_def)
  show ?thesis
    using cpu_main_killed [of b] cpu_pattern_line_undefined f cpu_phases_duration [of b s]
    by blast
qed

theorem C7_killed_at_pattern_line_witness:
  "\<exists>t1 t2 s'. cpu_phases 250000 \<lparr>trace = [], cpu_clock = 0, wall = 0\<rparr> = Some (t1, t2, s')
      \<and> t1 = 5 * second \<and> t2 = 20 * second \<and> wall s' = 23 * second"
proof -
  have d: "(250000::nat) dvd second" by (simp add: second_def)
  show ?thesis
    using C7_killed_at_pattern_line [of 250000 "\<lparr>trace = [], cpu_clock = 0, wall = 0\<rparr>"] d by auto
qed

text \<open>
  C8, as stated, fails on the combo generator, which also issues a failed call again.
  With every allocation, thread creation and file open failing, the \<open>malloc\<close> of
  iteration 0 fails and the same \<open>malloc\<close>, of the same size, is issued again in
  iteration 2, after the sleeps of the iterations in between; the \<open>pthread_create\<close>
  that fails on a slot is issued again on that slot at once; the \<open>open\<close> of
  iteration 1 fails and the same file name is opened again in iteration 3. None of
  these failures is reported, and the program returns 0.
\<close>

theorem C8_combo_reissues_counterexample:
  "reissues (trace (snd (rec_main os_refusing (\<lambda>k. 0))))
   \<and> (\<exists>t u r sz. trace (snd (rec_main os_refusing (\<lambda>k. 0)))
         = t @ Malloc sz 0 # u @ Malloc sz 0 # r)
   \<and> (\<exists>t u r c. trace (snd (rec_main os_refusing (\<lambda>k. 0)))
         = t @ Thread_create c False # u @ Thread_create c False # r)
   \<and> (\<exists>t u r n. trace (snd (rec_main os_refusing (\<lambda>k. 0)))
         = t @ Open_file n (- 1) # u @ Open_file n (- 1) # r)
   \<and> \<not> list_ex is_diag (trace (snd (rec_main os_refusing (\<lambda>k. 0))))
   \<and> fst (rec_main os_refusing (\<lambda>k. 0)) = Exit 0"
proof -
  have a: "reissues (trace (snd (rec_main os_refusing (\<lambda>k. 0))))"
    by (rule rec_reissues_malloc [of 0]) (simp_all add: os_refusing_def)
  have b: "\<exists>t u r sz. trace (snd (rec_main os_refusing (\<lambda>k. 0)))
         = t @ Malloc sz 0 # u @ Malloc sz 0 # r"
    using rec_malloc_again [of 0 os_refusing "\<lambda>k. 0"] by (simp add: os_refusing_def)
  have c: "\<exists>t u r c. trace (snd (rec_main os_refusing (\<lambda>k. 0)))
         = t @ Thread_create c False # u @ Thread_create c False # r"
    using rec_create_again [of 0 os_refusing "\<lambda>k. 0"] by (simp add: os_refusing_def)
  have d: "\<exists>t u r n. trace (snd (rec_main os_refusing (\<lambda>k. 0)))
         = t @ Open_file n (- 1) # u @ Open_file n (- 1) # r"
    using rec_open_again [of 1 os_refusing "\<lambda>k. 0"] by (simp add: os_refusing_def)
  show ?thesis
    using a b c d rec_main_no_diag [of os_refusing "\<lambda>k. 0"] rec_main_exit [of os_refusing "\<lambda>k. 0"]
    by blast
qed

text \<open>
  C8, amended. A program issues a failed call again when its trace holds a failed call
  and, later, the same call with the same arguments; it retries after a report when it
  makes an attempt after it has reported a failure.

  The fork bomb and the network test retry after a report, and they sleep for a fixed
  delay before they do. In the fork bomb a failed \<open>fork\<close>
  is reported and followed by a sleep of one second and the next \<open>fork\<close>; as long as
  \<open>fork\<close> does not return 0 (which it does in a child only) the loop does not end. In
  the network test a failed \<open>socket\<close> is reported and followed by a sleep of two
  seconds and the next \<open>socket\<close>; a failed \<open>connect\<close> is reported and followed by
  the close, a sleep of three seconds and the next \<open>socket\<close>, and by the next
  \<open>connect\<close> when that \<open>socket\<close> and the conversion of the address succeed; its loop
  never ends.

  Two more programs issue a failed call again, without a report and as part of their
  loop. The combo generator repeats a failed \<open>malloc\<close> of an even iteration two
  iterations later, a failed first \<open>pthread_create\<close> of an iteration at once, and a
  failed \<open>open\<close> of an odd iteration two iterations later. The I/O storm, once its
  buffer is allocated and its file is opened, writes again after a short write: it
  issues a failed call again exactly when one of its first 155 writes is short.

  The gradual fork bomb, the progressive memory leak, the CPU spike, the file writer,
  the memory hog, the infinite loop and the ML test pattern never issue a failed call
  again, and they make no attempt after a report. (After a failed \<open>pthread_create\<close> in
  its phase 1 the gradual fork bomb goes on with the thread of the next slot; the failed
  slot is not tried again.) Neither do the combo generator and the I/O storm make an
  attempt after a report. So the fork bomb and the network test are the only programs
  that report a failure and then try again.
\<close>

theorem C8_failed_calls_issued_again:
  "(frk k < 0 \<and> (\<forall>j<k. frk j \<noteq> 0) \<and> Suc k < fuel \<longrightarrow>
      (\<exists>t c r. trace (final (fb_main fuel frk)) =
           t @ [Fork (frk k), Diag Stderr ''Fork failed after %u processes'' [c],
                Perror ''fork'', Sleep second, Fork (frk (Suc k))] @ r)
      \<and> reissues (trace (final (fb_main fuel frk)))
      \<and> retries (trace (final (fb_main fuel frk))))
   \<and> ((\<forall>j<fuel. frk j \<noteq> 0) \<longrightarrow> exit_code (fb_main fuel frk) = None)
   \<and> (nt_socket os ks < 0 \<and> Suc ks < fuel \<longrightarrow>
      (\<exists>t a r. trace (final (nt_main fuel os)) =
           t @ [Socket (nt_socket os ks), Diag Stderr ''Attempt %d: socket() failed'' [a],
                Perror ''socket'', Sleep (2 * second), Socket (nt_socket os (Suc ks))] @ r)
      \<and> reissues (trace (final (nt_main fuel os)))
      \<and> retries (trace (final (nt_main fuel os))))
   \<and> (0 \<le> nt_socket os kc \<and> 0 < nt_inet_pton os kc \<and> nt_connect os kc < 0 \<and> Suc kc < fuel \<longrightarrow>
      (\<exists>t a r. trace (final (nt_main fuel os)) =
           t @ [Connect (nt_connect os kc),
                Diag Stderr ''Attempt %d: Connection failed (Network blocked?)'' [a],
                Perror ''connect'', Close_fd (nt_socket os kc), Sleep (3 * second),
                Socket (nt_socket os (Suc kc))] @ r)
      \<and> retries (trace (final (nt_main fuel os)))
      \<and> (0 \<le> nt_socket os (Suc kc) \<and> 0 < nt_inet_pton os (Suc kc) \<longrightarrow>
           (\<exists>t a b r. trace (final (nt_main fuel os)) =
              t @ [Connect (nt_connect os kc),
                   Diag Stderr ''Attempt %d: Connection failed (Network blocked?)'' [a],
                   Perror ''connect'', Close_fd (nt_socket os kc), Sleep (3 * second),
                   Socket (nt_socket os (Suc kc)), Inet_pton (nt_inet_pton os (Suc kc)),
                   Print Stdout ''Attempt %d: Connecting...'' [b],
                   Connect (nt_connect os (Suc kc))] @ r)
           \<and> reissues (trace (final (nt_main fuel os)))))
   \<and> exit_code (nt_main fuel os) = None
   \<and> (i mod 2 = 0 \<and> i + 2 < 20 \<and> rec_malloc ros i = 0 \<longrightarrow>
        (\<exists>t u r sz. trace (snd (rec_main ros g)) =
           t @ Malloc sz 0 # u @ Malloc sz (rec_malloc ros (i + 2)) # r)
        \<and> reissues (trace (snd (rec_main ros g))))
   \<and> (i mod 3 = 0 \<and> i < 20 \<and> \<not> rec_create ros i 0 \<longrightarrow>
        (\<exists>t u r c. trace (snd (rec_main ros g)) =
           t @ Thread_create c False # u @ Thread_create c (rec_create ros i (Suc 0)) # r)
        \<and> reissues (trace (snd (rec_main ros g))))
   \<and> (i mod 2 = 1 \<and> i + 2 < 20 \<and> rec_open ros i < 0 \<longrightarrow>
        (\<exists>t u r n. trace (snd (rec_main ros g)) =
           t @ Open_file n (rec_open ros i) # u @ Open_file n (rec_open ros (i + 2)) # r)
        \<and> reissues (trace (snd (rec_main ros g))))
   \<and> \<not> retries (trace (snd (rec_main ros g)))
   \<and> (ios_malloc ios \<noteq> 0 \<and> ios_fopen ios \<longrightarrow>
        reissues (trace (snd (ios_main ios fs))) = (\<exists>j<155. ios_fwrite ios j < ios_CHUNK_SIZE))
   \<and> (ios_malloc ios = 0 \<or> \<not> ios_fopen ios \<longrightarrow> \<not> reissues (trace (snd (ios_main ios fs))))
   \<and> \<not> retries (trace (snd (ios_main ios fs)))
   \<and> \<not> reissues (trace (snd (fbg_main argv ok)))
   \<and> \<not> retries (trace (snd (fbg_main argv ok)))
   \<and> \<not> reissues (trace (snd (mlp_main mres g)))
   \<and> \<not> retries (trace (snd (mlp_main mres g)))
   \<and> (\<exists>r. cpu_main b = Some r \<and> \<not> reissues (trace (snd r)) \<and> \<not> retries (trace (snd r)))
   \<and> (0 < b \<longrightarrow> (\<exists>r. cpu_phases b \<lparr>trace = [], cpu_clock = 0, wall = 0\<rparr> = Some r
                       \<and> \<not> reissues (trace (snd (snd r))) \<and> \<not> retries (trace (snd (snd r)))))
   \<and> \<not> reissues (trace (final (fw_main fuel fos f0)))
   \<and> \<not> retries (trace (final (fw_main fuel fos f0)))
   \<and> \<not> reissues (trace (final (mh_main fuel mres)))
   \<and> \<not> retries (trace (final (mh_main fuel mres)))
   \<and> \<not> reissues (trace (final (il_main fuel)))
   \<and> \<not> retries (trace (final (il_main fuel)))
   \<and> (0 < b \<longrightarrow> (\<exists>r. mtp_main argv b mres g = Some r
                       \<and> \<not> reissues (trace (snd r)) \<and> \<not> retries (trace (snd r))))"
proof -
  have fb: "(\<exists>t c r. trace (final (fb_main fuel frk)) =
           t @ [Fork (frk k), Diag Stderr ''Fork failed after %u processes'' [c],
                Perror ''fork'', Sleep second, Fork (frk (Suc k))] @ r)
      \<and> reissues (trace (final (fb_main fuel frk)))
      \<and> retries (trace (final (fb_main fuel frk)))"
    if h: "frk k < 0" "\<forall>j<k. frk j \<noteq> 0" "Suc k < fuel"
    using fb_retry [of frk k fuel] fb_reissues [of frk k fuel] fb_retries [of frk k fuel] h
    by blast
  have fbx: "exit_code (fb_main fuel frk) = None" if "\<forall>j<fuel. frk j \<noteq> 0"
    using that by (intro fb_never_exits) simp
  have ns: "(\<exists>t a r. trace (final (nt_main fuel os)) =
           t @ [Socket (nt_socket os ks), Diag Stderr ''Attempt %d: socket() failed'' [a],
                Perror ''socket'', Sleep (2 * second), Socket (nt_socket os (Suc ks))] @ r)
      \<and> reissues (trace (final (nt_main fuel os)))
      \<and> retries (trace (final (nt_main fuel os)))"
    if h: "nt_socket os ks < 0" "Suc ks < fuel"
    using nt_retry_socket [OF h] nt_reissues_socket [OF h] nt_retries_socket [OF h] by blast
  have nc: "(\<exists>t a r. trace (final (nt_main fuel os)) =
           t @ [Connect (nt_connect os kc),
                Diag Stderr ''Attempt %d: Connection failed (Network blocked?)'' [a],
                Perror ''connect'', Close_fd (nt_socket os kc), Sleep (3 * second),
                Socket (nt_socket os (Suc kc))] @ r)
      \<and> retries (trace (final (nt_main fuel os)))
      \<and> (0 \<le> nt_socket os (Suc kc) \<and> 0 < nt_inet_pton os (Suc kc) \<longrightarrow>
           (\<exists>t a b r. trace (final (nt_main fuel os)) =
              t @ [Connect (nt_connect os kc),
                   Diag Stderr ''Attempt %d: Connection failed (Network blocked?)'' [a],
                   Perror ''connect'', Close_fd (nt_socket os kc), Sleep (3 * second),
                   Socket (nt_socket os (Suc kc)), Inet_pton (nt_inet_pton os (Suc kc)),
                   Print Stdout ''Attempt %d: Connecting...'' [b],
                   Connect (nt_connect os (Suc kc))] @ r)
           \<and> reissues (trace (final (nt_main fuel os))))"
    if h: "0 \<le> nt_socket os kc" "0 < nt_inet_pton os kc" "nt_connect os kc < 0" "Suc kc < fuel"
    using nt_retry_connect [OF h] nt_retries_connect [OF h] nt_connect_again [OF h]
      nt_reissues_connect [OF h]
    by blast
  have rm: "(\<exists>t u r sz. trace (snd (rec_main ros g)) =
           t @ Malloc sz 0 # u @ Malloc sz (rec_malloc ros (i + 2)) # r)
        \<and> reissues (trace (snd (rec_main ros g)))"
    if h: "i mod 2 = 0" "i + 2 < 20" "rec_malloc ros i = 0"
    using rec_malloc_again [OF h, of g] rec_reissues_malloc [OF h, of g] by blast
  have rc: "(\<exists>t u r c. trace (snd (rec_main ros g)) =
           t @ Thread_create c False # u @ Thread_create c (rec_create ros i (Suc 0)) # r)
        \<and> reissues (trace (snd (rec_main ros g)))"
    if h: "i mod 3 = 0" "i < 20" "\<not> rec_create ros i 0"
    using rec_create_again [OF h, of g] rec_reissues_create [OF h, of g] by blast
  have ro: "(\<exists>t u r n. trace (snd (rec_main ros g)) =
           t @ Open_file n (rec_open ros i) # u @ Open_file n (rec_open ros (i + 2)) # r)
        \<and> reissues (trace (snd (rec_main ros g)))"
    if h: "i mod 2 = 1" "i + 2 < 20" "rec_open ros i < 0"
    using rec_open_again [OF h, of g] rec_reissues_open [OF h, of g] by blast
  have io: "reissues (trace (snd (ios_main ios fs))) = (\<exists>j<155. ios_fwrite ios j < ios_CHUNK_SIZE)"
    if "ios_malloc ios \<noteq> 0" "ios_fopen ios"
    using that by (rule ios_reissues)
  have io': "\<not> reissues (trace (snd (ios_main ios fs)))" if "ios_malloc ios = 0 \<or> \<not> ios_fopen ios"
    using that by (rule ios_setup_no_reissue)
  have p1: "(frk k < 0 \<and> (\<forall>j<k. frk j \<noteq> 0) \<and> Suc k < fuel \<longrightarrow>
      (\<exists>t c r. trace (final (fb_main fuel frk)) =
           t @ [Fork (frk k), Diag Stderr ''Fork failed after %u processes'' [c],
                Perror ''fork'', Sleep second, Fork (frk (Suc k))] @ r)
      \<and> reissues (trace (final (fb_main fuel frk)))
      \<and> retries (trace (final (fb_main fuel frk))))
   \<and> ((\<forall>j<fuel. frk j \<noteq> 0) \<longrightarrow> exit_code (fb_main fuel frk) = None)"
    using fb fbx by blast
  have p2: "(nt_socket os ks < 0 \<and> Suc ks < fuel \<longrightarrow>
      (\<exists>t a r. trace (final (nt_main fuel os)) =
           t @ [Socket (nt_socket os ks), Diag Stderr ''Attempt %d: socket() failed'' [a],
                Perror ''socket'', Sleep (2 * second), Socket (nt_socket os (Suc ks))] @ r)
      \<and> reissues (trace (final (nt_main fuel os)))
      \<and> retries (trace (final (nt_main fuel os))))"
    using ns by blast
  have p3: "(0 \<le> nt_socket os kc \<and> 0 < nt_inet_pton os kc \<and> nt_connect os kc < 0 \<and> Suc kc < fuel \<longrightarrow>
      (\<exists>t a r. trace (final (nt_main fuel os)) =
           t @ [Connect (nt_connect os kc),
                Diag Stderr ''Attempt %d: Connection failed (Network blocked?)'' [a],
                Perror ''connect'', Close_fd (nt_socket os kc), Sleep (3 * second),
                Socket (nt_socket os (Suc kc))] @ r)
      \<and> retries (trace (final (nt_main fuel os)))
      \<and> (0 \<le> nt_socket os (Suc kc) \<and> 0 < nt_inet_pton os (Suc kc) \<longrightarrow>
           (\<exists>t a b r. trace (final (nt_main fuel os)) =
              t @ [Connect (nt_connect os kc),
                   Diag Stderr ''Attempt %d: Connection failed (Network blocked?)'' [a],
                   Perror ''connect'', Close_fd (nt_socket os kc), Sleep (3 * second),
                   Socket (nt_socket os (Suc kc)), Inet_pton (nt_inet_pton os (Suc kc)),
                   Print Stdout ''Attempt %d: Connecting...'' [b],
                   Connect (nt_connect os (Suc kc))] @ r)
           \<and> reissues (trace (final (nt_main fuel os)))))"
    using nc by blast
  have p4a: "i mod 2 = 0 \<and> i + 2 < 20 \<and> rec_malloc ros i = 0 \<longrightarrow>
        (\<exists>t u r sz. trace (snd (rec_main ros g)) =
           t @ Malloc sz 0 # u @ Malloc sz (rec_malloc ros (i + 2)) # r)
        \<and> reissues (trace (snd (rec_main ros g)))"
    by (intro impI, elim conjE, rule rm)
  have p4b: "i mod 3 = 0 \<and> i < 20 \<and> \<not> rec_create ros i 0 \<longrightarrow>
        (\<exists>t u r c. trace (snd (rec_main ros g)) =
           t @ Thread_create c False # u @ Thread_create c (rec_create ros i (Suc 0)) # r)
        \<and> reissues (trace (snd (rec_main ros g)))"
    by (intro impI, elim conjE, rule rc)
  have p4c: "i mod 2 = 1 \<and> i + 2 < 20 \<and> rec_open ros i < 0 \<longrightarrow>
        (\<exists>t u r n. trace (snd (rec_main ros g)) =
           t @ Open_file n (rec_open ros i) # u @ Open_file n (rec_open ros (i + 2)) # r)
        \<and> reissues (trace (snd (rec_main ros g)))"
    by (intro impI, elim conjE, rule ro)
  have p5: "(ios_malloc ios \<noteq> 0 \<and> ios_fopen ios \<longrightarrow>
        reissues (trace (snd (ios_main ios fs))) = (\<exists>j<155. ios_fwrite ios j < ios_CHUNK_SIZE))
   \<and> (ios_malloc ios = 0 \<or> \<not> ios_fopen ios \<longrightarrow> \<not> reissues (trace (snd (ios_main ios fs))))"
    using io io' by blast
  have p6: "\<exists>r. cpu_main b = Some r \<and> \<not> reissues (trace (snd r)) \<and> \<not> retries (trace (snd r))"
    by (rule cpu_quiet)
  have p6': "0 < b \<longrightarrow> (\<exists>r. cpu_phases b \<lparr>trace = [], cpu_clock = 0, wall = 0\<rparr> = Some r
                       \<and> \<not> reissues (trace (snd (snd r))) \<and> \<not> retries (trace (snd (snd r))))"
    by (intro impI, rule cpu_quiet)
  have p7: "0 < b \<longrightarrow> (\<exists>r. mtp_main argv b mres g = Some r
                       \<and> \<not> reissues (trace (snd r)) \<and> \<not> retries (trace (snd r)))"
    by (intro impI, rule mtp_quiet)
  note parts = conjunct1 [OF p1] conjunct2 [OF p1] p2 p3 nt_never_exits [of fuel os]
    p4a p4b p4c
    rec_no_retry [of ros g] conjunct1 [OF p5] conjunct2 [OF p5] ios_no_retry [of ios fs]
    fbg_no_reissue [of argv ok] fbg_no_retry [of argv ok] mlp_no_reissue [of mres g]
    mlp_no_retry [of mres g] p6 p6' fw_no_reissue [of fuel fos f0] fw_no_retry [of fuel fos f0]
    mh_no_reissue [of fuel mres] mh_no_retry [of fuel mres] il_no_reissue [of fuel]
    il_no_retry [of fuel] p7
  show ?thesis
    by (intro conjI) (insert parts, assumption+)
qed

theorem C8_failed_calls_issued_again_witness:
  "(\<exists>t c r. trace (final (fb_main 3 (\<lambda>j. if j = 1 then - 1 else 100 + int j))) =
           t @ [Fork (- 1), Diag Stderr ''Fork failed after %u processes'' [c],
                Perror ''fork'', Sleep second, Fork 102] @ r)
   \<and> reissues (trace (final (fb_main 3 (\<lambda>j. if j = 1 then - 1 else 100 + int j))))
   \<and> retries (trace (final (fb_main 3 (\<lambda>j. if j = 1 then - 1 else 100 + int j))))
   \<and> exit_code (fb_main 3 (\<lambda>j. if j = 1 then - 1 else 100 + int j)) = None
   \<and> (\<exists>t a r. trace (final (nt_main 3
          \<lparr>nt_socket = (\<lambda>j. if j = 0 then - 1 else 3), nt_inet_pton = (\<lambda>j. 1), nt_connect = (\<lambda>j. - 1)\<rparr>)) =
           t @ [Socket (- 1), Diag Stderr ''Attempt %d: socket() failed'' [a],
                Perror ''socket'', Sleep (2 * second), Socket 3] @ r)
   \<and> (\<exists>t a b r. trace (final (nt_main 3
          \<lparr>nt_socket = (\<lambda>j. if j = 0 then - 1 else 3), nt_inet_pton = (\<lambda>j. 1), nt_connect = (\<lambda>j. - 1)\<rparr>)) =
           t @ [Connect (- 1),
                Diag Stderr ''Attempt %d: Connection failed (Network blocked?)'' [a],
                Perror ''connect'', Close_fd 3, Sleep (3 * second), Socket 3, Inet_pton 1,
                Print Stdout ''Attempt %d: Connecting...'' [b], Connect (- 1)] @ r)
   \<and> reissues (trace (final (nt_main 3
          \<lparr>nt_socket = (\<lambda>j. if j = 0 then - 1 else 3), nt_inet_pton = (\<lambda>j. 1), nt_connect = (\<lambda>j. - 1)\<rparr>)))
   \<and> reissues (trace (snd (rec_main os_refusing (\<lambda>k. 0))))
   \<and> reissues (trace (snd (ios_main os_short {})))
   \<and> (\<exists>r. cpu_phases 250000 \<lparr>trace = [], cpu_clock = 0, wall = 0\<rparr> = Some r
          \<and> \<not> reissues (trace (snd (snd r))) \<and> \<not> retries (trace (snd (snd r))))
   \<and> (\<exists>r. mtp_main [''ml_test_pattern'', ''3''] 250000 (\<lambda>i. 0) (\<lambda>i. 0) = Some r
          \<and> \<not> reissues (trace (snd r)) \<and> \<not> retries (trace (snd r)))"
proof -
  have s: "\<exists>j<155. ios_fwrite os_short j < ios_CHUNK_SIZE"
    by (rule exI [of _ 3]) (simp add: os_short_def ios_CHUNK_SIZE_def MB_def)
  have o: "ios_malloc os_short \<noteq> 0 \<and> ios_fopen os_short" by (simp add: os_short_def)
  have r: "(0::nat) mod 2 = 0 \<and> (0::nat) + 2 < 20 \<and> rec_malloc os_refusing 0 = 0"
    by (simp add: os_refusing_def)
  show ?thesis
    using C8_failed_calls_issued_again
      [where frk = "\<lambda>j. if j = 1 then - 1 else 100 + int j" and k = 1 and fuel = 3
         and os = "\<lparr>nt_socket = (\<lambda>j. if j = 0 then - 1 else 3), nt_inet_pton = (\<lambda>j. 1),
                    nt_connect = (\<lambda>j. - 1)\<rparr>"
         and ks = 0 and kc = 1 and i = 0 and ros = os_refusing and g = "\<lambda>k. 0"
         and ios = os_short and fs = "{}" and argv = "[''ml_test_pattern'', ''3'']"
         and ok = "\<lambda>i. i \<noteq> 0" and mres = "\<lambda>i. 0" and b = 250000 and fos = os_full
         and ?f0.0 = None]
      s o r
    by simp
qed

end
